(* ===== verification/Prelude.thy ===== *)
theory Prelude
  imports Main "HOL-Library.Word" "HOL-Library.Sublist"
begin

text \<open>
  Shared vocabulary of the development: bytes and C strings, the conversions between C's
  integer types, and the result type of a fragment of C that calls the operating system.

  A fragment of C is a value of \<open>'a exec\<close>: the calls it made, in order, and how it ended.
  It returns a value (\<open>Ret\<close>), the process exits (\<open>Exits\<close>, by \<open>exit\<close> or inside
  an error-reporting csapp wrapper), or its behaviour is undefined in C (\<open>Undef\<close>: a write
  past the end of an array, a read of an element never written, or an
  operand the operation does not allow). \<open>bindE\<close> sequences two
  fragments and \<open>block\<close> a list of statements, as the semicolons of the source do.
\<close>

named_theorems exec_simps \<open>evaluation of C fragments\<close>
named_theorems cstr_simps \<open>the string functions of the C library\<close>
named_theorems step_elims \<open>inversion of step relations\<close>

section \<open>Bytes and C strings\<close>

type_synonym bytes = string

abbreviation NUL :: char where "NUL \<equiv> CHR 0x00"
abbreviation LF :: char where "LF \<equiv> CHR 0x0A"
abbreviation CR :: char where "CR \<equiv> CHR 0x0D"
abbreviation crlf :: string where "crlf \<equiv> [CR, LF]"

text \<open>What a C function sees of an array of bytes: everything up to the first NUL.\<close>

definition cstr :: "bytes \<Rightarrow> string" where
  "cstr bs = takeWhile (\<lambda>c. c \<noteq> NUL) bs"

lemma cstr_no_nul [simp]: "NUL \<notin> set bs \<Longrightarrow> cstr bs = bs"
  by (auto simp: cstr_def intro: takeWhile_eq_all_conv [THEN iffD2])

lemma cstr_length_le: "length (cstr bs) \<le> length bs"
  by (simp add: cstr_def length_takeWhile_le)

lemma cstr_nul_free: "NUL \<notin> set (cstr bs)"
  by (auto simp: cstr_def dest: set_takeWhileD)

lemma cstr_Nil [simp]: "cstr [] = []"
  by (simp add: cstr_def)

lemma cstr_append_nul: "NUL \<notin> set xs \<Longrightarrow> cstr (xs @ NUL # ys) = xs"
  by (induction xs) (auto simp: cstr_def)

lemma cstr_append: "NUL \<notin> set xs \<Longrightarrow> cstr (xs @ ys) = xs @ cstr ys"
  by (induction xs) (auto simp: cstr_def)

lemma cstr_eq_crlf: "cstr bs = crlf \<Longrightarrow> bs \<noteq> []"
  by auto

section \<open>C integers\<close>

text \<open>
  \<open>int\<close> and \<open>long\<close> values are HOL integers; \<open>to_int32\<close> is the conversion of a wider value
  to the 32-bit \<open>int\<close> and \<open>to_size_t\<close> the conversion to the 64-bit unsigned \<open>size_t\<close>.
\<close>

definition to_int32 :: "int \<Rightarrow> int" where
  "to_int32 x = (x + 2 ^ 31) mod 2 ^ 32 - 2 ^ 31"

definition to_size_t :: "int \<Rightarrow> nat" where
  "to_size_t x = nat (x mod 2 ^ 64)"

definition long_range :: "int \<Rightarrow> bool" where
  "long_range x \<longleftrightarrow> - (2 ^ 63) \<le> x \<and> x < 2 ^ 63"

lemma to_int32_id: "- (2 ^ 31) \<le> x \<Longrightarrow> x < 2 ^ 31 \<Longrightarrow> to_int32 x = x"
  by (simp add: to_int32_def)

lemma to_int32_range: "- (2 ^ 31) \<le> to_int32 x \<and> to_int32 x < 2 ^ 31"
  unfolding to_int32_def using pos_mod_bound [of "2 ^ 32" "x + 2 ^ 31"] by auto

lemma to_size_t_id: "0 \<le> x \<Longrightarrow> x < 2 ^ 64 \<Longrightarrow> to_size_t x = nat x"
  by (simp add: to_size_t_def)

section \<open>Results of C fragments\<close>

datatype fault = Overrun | BadRead | BadOperand

datatype exit_reason = ExitStatus int | WrapperError

datatype ('e, 'a) exec = Ret "'e list" 'a | Exits "'e list" exit_reason | Undef "'e list" fault

fun emit :: "'e list \<Rightarrow> ('e, 'a) exec \<Rightarrow> ('e, 'a) exec" where
  "emit es (Ret es' a) = Ret (es @ es') a"
| "emit es (Exits es' r) = Exits (es @ es') r"
| "emit es (Undef es' f) = Undef (es @ es') f"

fun bindE :: "('e, 'a) exec \<Rightarrow> ('a \<Rightarrow> ('e, 'b) exec) \<Rightarrow> ('e, 'b) exec" where
  "bindE (Ret es a) f = emit es (f a)"
| "bindE (Exits es r) f = Exits es r"
| "bindE (Undef es x) f = Undef es x"

fun block :: "('e, unit) exec list \<Rightarrow> ('e, unit) exec" where
  "block [] = Ret [] ()"
| "block (s # ss) = bindE s (\<lambda>_. block ss)"

text \<open>The same where a fragment may not return at all (\<open>None\<close>).\<close>

fun bindO :: "('e, 'a) exec option \<Rightarrow> ('a \<Rightarrow> ('e, 'b) exec option) \<Rightarrow> ('e, 'b) exec option" where
  "bindO None f = None"
| "bindO (Some (Ret es a)) f = map_option (emit es) (f a)"
| "bindO (Some (Exits es r)) f = Some (Exits es r)"
| "bindO (Some (Undef es x)) f = Some (Undef es x)"

fun trace_of :: "('e, 'a) exec \<Rightarrow> 'e list" where
  "trace_of (Ret es a) = es"
| "trace_of (Exits es r) = es"
| "trace_of (Undef es f) = es"

fun is_ret :: "('e, 'a) exec \<Rightarrow> bool" where
  "is_ret (Ret es a) = True"
| "is_ret (Exits es r) = False"
| "is_ret (Undef es f) = False"

fun is_undef :: "('e, 'a) exec \<Rightarrow> bool" where
  "is_undef (Ret es a) = False"
| "is_undef (Exits es r) = False"
| "is_undef (Undef es f) = True"

lemma emit_Nil [simp, exec_simps]: "emit [] x = x"
  by (cases x) auto

lemma emit_emit [simp, exec_simps]: "emit xs (emit ys x) = emit (xs @ ys) x"
  by (cases x) auto

lemma trace_of_emit [simp, exec_simps]: "trace_of (emit es x) = es @ trace_of x"
  by (cases x) auto

lemma is_ret_emit [simp, exec_simps]: "is_ret (emit es x) = is_ret x"
  by (cases x) auto

lemma is_undef_emit [simp, exec_simps]: "is_undef (emit es x) = is_undef x"
  by (cases x) auto

lemma bindE_emit [simp, exec_simps]: "bindE (emit es x) f = emit es (bindE x f)"
  by (cases x) auto

lemma emit_eq_Ret_iff: "emit es x = Ret us a \<longleftrightarrow> (\<exists>vs. x = Ret vs a \<and> us = es @ vs)"
  by (cases x) auto

lemma bindE_eq_Ret_iff:
  "bindE x f = Ret us b \<longleftrightarrow> (\<exists>es a vs. x = Ret es a \<and> f a = Ret vs b \<and> us = es @ vs)"
  by (cases x) (auto simp: emit_eq_Ret_iff)

text \<open>What lets recursive calls stand behind a \<open>bindE\<close> in a function definition.\<close>

lemma bindE_cong [fundef_cong]:
  "x = y \<Longrightarrow> (\<And>es a. y = Ret es a \<Longrightarrow> f a = g a) \<Longrightarrow> bindE x f = bindE y g"
  by (cases y) auto

lemma bindE_assoc: "bindE (bindE x f) g = bindE x (\<lambda>a. bindE (f a) g)"
  by (cases x) auto

lemma block_append: "block (xs @ ys) = bindE (block xs) (\<lambda>_. block ys)"
  by (induction xs) (simp_all add: bindE_assoc)

lemma bindO_Some_Ret_iff:
  "bindO x f = Some (Ret us b) \<longleftrightarrow>
     (\<exists>es a vs. x = Some (Ret es a) \<and> f a = Some (Ret vs b) \<and> us = es @ vs)"
  by (induction x f rule: bindO.induct) (auto simp: emit_eq_Ret_iff)

lemma bindO_Some: "bindO (Some x) (\<lambda>a. Some (f a)) = Some (bindE x f)"
  by (cases x) auto

section \<open>Lists\<close>

lemma list_all_update: "list_all P xs \<Longrightarrow> P y \<Longrightarrow> list_all P (xs[i := y])"
  by (auto simp: list_all_iff dest!: subsetD [OF set_update_subset_insert])

lemma sum_list_map_update:
  "i < length xs \<Longrightarrow> sum_list (map f (xs[i := y])) + f (xs ! i) = sum_list (map f xs) + f y"
  for f :: "'a \<Rightarrow> nat"
  by (induction xs arbitrary: i) (auto split: nat.split)

lemma sum_list_map_bound: "(\<And>x. f x \<le> k) \<Longrightarrow> sum_list (map f xs) \<le> k * length xs" for f :: "'a \<Rightarrow> nat"
  by (induction xs) (auto intro: add_mono)

lemma concat_singletons [simp]: "concat (map (\<lambda>x. [x]) xs) = xs"
  by (induction xs) auto

end
