(* ===== verification/CString.thy ===== *)
theory CString
  imports Prelude
begin

text \<open>
  The functions of the C library that the programs call on strings, as total functions on
  NUL-free strings (a pointer into a string is the suffix it points at), and the writes into
  fixed arrays as fragments that are undefined when the array is too small.
\<close>

section \<open>Searching and comparing\<close>

text \<open>\<open>strstr (h, n)\<close>: the suffix of \<open>h\<close> at the first occurrence of \<open>n\<close>, or NULL.\<close>

fun strstr :: "string \<Rightarrow> string \<Rightarrow> string option" where
  "strstr [] n = (if n = [] then Some [] else None)"
| "strstr (c # cs) n = (if prefix n (c # cs) then Some (c # cs) else strstr cs n)"

text \<open>\<open>index (s, c)\<close>: the suffix at the first occurrence of \<open>c\<close>, or NULL.\<close>

fun strindex :: "string \<Rightarrow> char \<Rightarrow> string option" where
  "strindex [] c = None"
| "strindex (x # xs) c = (if x = c then Some (x # xs) else strindex xs c)"

definition tolower :: "char \<Rightarrow> char" where
  "tolower c = (if 65 \<le> (of_char c :: nat) \<and> (of_char c :: nat) \<le> 90
                then char_of ((of_char c :: nat) + 32) else c)"

text \<open>\<open>strcasecmp\<close> as the condition it is used as: non-zero when the strings differ.\<close>

definition strcasecmp :: "string \<Rightarrow> string \<Rightarrow> bool" where
  "strcasecmp a b \<longleftrightarrow> map tolower a \<noteq> map tolower b"

lemma strstr_iff_sublist: "strstr h n \<noteq> None \<longleftrightarrow> sublist n h"
  by (induction h) (auto simp: sublist_Cons_right)

lemma strstr_None [cstr_simps]: "strstr h n = None \<longleftrightarrow> \<not> sublist n h"
  using strstr_iff_sublist [of h n] by auto

lemma strstr_Some_sublist: "strstr h n = Some p \<Longrightarrow> sublist n h"
  using strstr_iff_sublist [of h n] by auto

lemma strindex_None [cstr_simps]: "strindex s c = None \<longleftrightarrow> c \<notin> set s"
  by (induction s) auto

lemma strindex_append [cstr_simps]: "c \<notin> set xs \<Longrightarrow> strindex (xs @ c # ys) c = Some (c # ys)"
  by (induction xs) auto

lemma strindex_Some:
  "strindex s c = Some p \<Longrightarrow> \<exists>ys. p = c # ys \<and> s = takeWhile (\<lambda>x. x \<noteq> c) s @ c # ys"
  by (induction s) (auto split: if_splits)

lemma strcasecmp_refl [simp]: "\<not> strcasecmp a a"
  by (simp add: strcasecmp_def)

lemma strcasecmp_length: "\<not> strcasecmp a b \<Longrightarrow> length a = length b"
  by (metis strcasecmp_def length_map)

section \<open>Scanning: sscanf with the format of three words\<close>

definition isspace :: "char \<Rightarrow> bool" where
  "isspace c \<longleftrightarrow> c \<in> set [CHR '' '', CHR 0x09, LF, CHR 0x0B, CHR 0x0C, CR]"

text \<open>One \<open>%s\<close>: skip white space, then take a non-empty run of other characters.\<close>

definition scan_word :: "string \<Rightarrow> (string \<times> string) option" where
  "scan_word s =
     (let s' = dropWhile isspace s; w = takeWhile (\<lambda>c. \<not> isspace c) s'
      in if w = [] then None else Some (w, dropWhile (\<lambda>c. \<not> isspace c) s'))"

text \<open>
  \<open>sscanf (s, "%s %s %s", ...)\<close>: the arrays that were assigned; an array the scan did not
  reach keeps its old (indeterminate) contents, shown as \<open>None\<close>.
\<close>

definition sscanf3 :: "string \<Rightarrow> string option \<times> string option \<times> string option" where
  "sscanf3 s =
     (case scan_word s of None \<Rightarrow> (None, None, None)
      | Some (a, s1) \<Rightarrow> (case scan_word s1 of None \<Rightarrow> (Some a, None, None)
        | Some (b, s2) \<Rightarrow> (case scan_word s2 of None \<Rightarrow> (Some a, Some b, None)
          | Some (c, s3) \<Rightarrow> (Some a, Some b, Some c))))"

lemma scan_word_SomeD:
  assumes "scan_word s = Some (w, r)"
  shows "w \<noteq> []" "\<forall>c \<in> set w. \<not> isspace c" "length w + length r \<le> length s"
proof -
  let ?s = "dropWhile isspace s"
  from assms have w: "w = takeWhile (\<lambda>c. \<not> isspace c) ?s" "w \<noteq> []"
    and r: "r = dropWhile (\<lambda>c. \<not> isspace c) ?s"
    by (auto simp: scan_word_def Let_def split: if_splits)
  show "w \<noteq> []" by (rule w(2))
  show "\<forall>c \<in> set w. \<not> isspace c" by (auto simp: w(1) dest: set_takeWhileD)
  have "length (w @ r) = length ?s" by (simp only: w(1) r takeWhile_dropWhile_id)
  moreover have "length ?s \<le> length s" by (rule length_dropWhile_le)
  ultimately show "length w + length r \<le> length s" by simp
qed

lemma scan_word_None: "scan_word s = None \<longleftrightarrow> (\<forall>c \<in> set s. isspace c)"
proof -
  have "takeWhile (\<lambda>c. \<not> isspace c) (dropWhile isspace s) = [] \<longleftrightarrow> dropWhile isspace s = []"
    by (induction s) auto
  then show ?thesis by (auto simp: scan_word_def Let_def dropWhile_eq_Nil_conv)
qed

lemma scan_word_word:
  assumes "w \<noteq> []" "\<forall>c \<in> set w. \<not> isspace c" "isspace x"
  shows "scan_word (w @ x # r) = Some (w, x # r)"
proof -
  have "dropWhile isspace (w @ x # r) = w @ x # r"
    using assms by (cases w) auto
  moreover have "takeWhile (\<lambda>c. \<not> isspace c) (w @ x # r) = w"
    using assms by (induction w) auto
  moreover have "dropWhile (\<lambda>c. \<not> isspace c) (w @ x # r) = x # r"
    using assms(2,3) by (induction w) auto
  ultimately show ?thesis using assms(1) by (simp add: scan_word_def)
qed

lemma scan_word_skip [simp]: "isspace x \<Longrightarrow> scan_word (x # s) = scan_word s"
  by (simp add: scan_word_def)

lemma sscanf3_lengths:
  assumes "sscanf3 s = (Some m, Some u, v)"
  shows "length m + length u \<le> length s" "m \<noteq> []" "u \<noteq> []"
    and "\<And>x. v = Some x \<Longrightarrow> length m + length u + length x \<le> length s"
proof -
  from assms obtain s1 s2 where 1: "scan_word s = Some (m, s1)" and 2: "scan_word s1 = Some (u, s2)"
    and 3: "v = map_option fst (scan_word s2)"
    by (auto simp: sscanf3_def split: option.splits)
  note d1 = scan_word_SomeD [OF 1] and d2 = scan_word_SomeD [OF 2]
  show "length m + length u \<le> length s" "m \<noteq> []" "u \<noteq> []"
    using d1 d2 by auto
  fix x assume "v = Some x"
  with 3 obtain s3 where "scan_word s2 = Some (x, s3)" by (cases "scan_word s2") auto
  from scan_word_SomeD(3) [OF this] d1(3) d2(3)
  show "length m + length u + length x \<le> length s" by simp
qed

lemma sscanf3_first_length: "sscanf3 s = (Some m, x) \<Longrightarrow> length m \<le> length s \<and> m \<noteq> []"
  using scan_word_SomeD [of s m] by (fastforce simp: sscanf3_def split: option.splits)

text \<open>A well-formed request line is scanned into its three words.\<close>

lemma sscanf3_request_line:
  assumes "m \<noteq> []" "u \<noteq> []" "v \<noteq> []"
    and "\<forall>c \<in> set m. \<not> isspace c" "\<forall>c \<in> set u. \<not> isspace c" "\<forall>c \<in> set v. \<not> isspace c"
  shows "sscanf3 (m @ '' '' @ u @ '' '' @ v @ crlf) = (Some m, Some u, Some v)"
proof -
  have sp: "isspace CHR '' ''" "isspace CR" by (simp_all add: isspace_def)
  show ?thesis
    unfolding sscanf3_def append_Cons append_Nil
    by (simp add: scan_word_word [OF assms(1,4) sp(1)] scan_word_word [OF assms(2,5) sp(1)]
        scan_word_word [OF assms(3,6) sp(2)] sp)
qed

section \<open>Writing into an array of fixed size\<close>

text \<open>
  A string of length \<open>n\<close> needs \<open>n + 1\<close> bytes; writing it into a smaller array is undefined.
  \<open>strcpy\<close> and \<open>sprintf\<close> replace the contents of the array, \<open>strcat\<close> extends them.
\<close>

definition strcpy :: "nat \<Rightarrow> string \<Rightarrow> ('e, string) exec" where
  "strcpy cap src = (if length src < cap then Ret [] src else Undef [] Overrun)"

definition strcat :: "nat \<Rightarrow> string \<Rightarrow> string \<Rightarrow> ('e, string) exec" where
  "strcat cap dst src = strcpy cap (dst @ src)"

definition sprintf :: "nat \<Rightarrow> string \<Rightarrow> ('e, string) exec" where
  "sprintf cap s = strcpy cap s"

lemma strcpy_fits [simp, exec_simps]: "length s < cap \<Longrightarrow> strcpy cap s = Ret [] s"
  by (simp add: strcpy_def)

lemma strcpy_overrun [simp, exec_simps]: "\<not> length s < cap \<Longrightarrow> strcpy cap s = Undef [] Overrun"
  by (simp add: strcpy_def)

section \<open>Numbers: the d conversion of printf and atoi\<close>

definition digit_char :: "nat \<Rightarrow> char" where
  "digit_char d = char_of (48 + d)"

fun nat_dec :: "nat \<Rightarrow> string" where
  "nat_dec n = (if n < 10 then [digit_char n] else nat_dec (n div 10) @ [digit_char (n mod 10)])"

declare nat_dec.simps [simp del]

definition int_dec :: "int \<Rightarrow> string" where
  "int_dec i = (if i < 0 then CHR ''-'' # nat_dec (nat (- i)) else nat_dec (nat i))"

definition isdigit :: "char \<Rightarrow> bool" where
  "isdigit c \<longleftrightarrow> 48 \<le> (of_char c :: nat) \<and> (of_char c :: nat) \<le> 57"

definition digit_val :: "char \<Rightarrow> nat" where
  "digit_val c = of_char c - 48"

definition digits_val :: "string \<Rightarrow> nat" where
  "digits_val s = foldl (\<lambda>a c. 10 * a + digit_val c) 0 s"

text \<open>The number a string begins with: white space, an optional sign, then the longest run of digits.\<close>

definition decimal :: "string \<Rightarrow> int" where
  "decimal s =
     (let s' = dropWhile isspace s;
          d = (\<lambda>t. int (digits_val (takeWhile isdigit t)))
      in case s' of [] \<Rightarrow> 0
         | c # t \<Rightarrow> if c = CHR ''-'' then - d t else if c = CHR ''+'' then d t else d s')"

text \<open>\<open>atoi\<close>: that number, when an \<open>int\<close> can hold it; otherwise the call is undefined.\<close>

definition atoi :: "string \<Rightarrow> int option" where
  "atoi s = (if - (2 ^ 31) \<le> decimal s \<and> decimal s < 2 ^ 31 then Some (decimal s) else None)"

lemma of_char_digit: "d < 10 \<Longrightarrow> (of_char (digit_char d) :: nat) = 48 + d"
  by (simp add: digit_char_def take_bit_nat_eq_self_iff)

lemma isdigit_digit_char: "d < 10 \<Longrightarrow> isdigit (digit_char d)"
  by (simp add: isdigit_def of_char_digit)

lemma digit_val_digit_char: "d < 10 \<Longrightarrow> digit_val (digit_char d) = d"
  by (simp add: digit_val_def of_char_digit)

lemma digits_val_snoc: "digits_val (s @ [c]) = 10 * digits_val s + digit_val c"
  by (simp add: digits_val_def)

lemma nat_dec_correct: "digits_val (nat_dec n) = n \<and> list_all isdigit (nat_dec n) \<and> nat_dec n \<noteq> []"
proof (induction n rule: nat_dec.induct)
  case (1 n)
  show ?case
  proof (cases "n < 10")
    case True
    then show ?thesis
      by (simp add: nat_dec.simps [of n] digits_val_def digit_val_digit_char isdigit_digit_char)
  next
    case False
    with "1.IH" have IH: "digits_val (nat_dec (n div 10)) = n div 10"
      "list_all isdigit (nat_dec (n div 10))" by auto
    show ?thesis
      using False IH by (simp add: nat_dec.simps [of n] digits_val_snoc digit_val_digit_char
          isdigit_digit_char)
  qed
qed

lemma length_nat_dec: "n < 10 ^ k \<Longrightarrow> 0 < k \<Longrightarrow> length (nat_dec n) \<le> k"
proof (induction n arbitrary: k rule: nat_dec.induct)
  case (1 n)
  show ?case
  proof (cases "n < 10")
    case True
    then show ?thesis using "1.prems" by (simp add: nat_dec.simps [of n])
  next
    case False
    then obtain j where k: "k = Suc j" "0 < j"
      using "1.prems" by (cases k; cases "k - 1") auto
    with "1.prems" have "n div 10 < 10 ^ j" by (simp add: div_less_iff_less_mult mult.commute)
    with "1.IH" False k have "length (nat_dec (n div 10)) \<le> j" by simp
    then show ?thesis using False k by (simp add: nat_dec.simps [of n])
  qed
qed

lemma isdigit_not_space: "isdigit c \<Longrightarrow> \<not> isspace c"
  by (auto simp: isspace_def isdigit_def)

lemma isdigit_not_sign: "isdigit c \<Longrightarrow> c \<noteq> CHR ''-'' \<and> c \<noteq> CHR ''+''"
  by (auto simp: isdigit_def)

lemma decimal_int_dec: "decimal (int_dec i) = i"
proof -
  have *: "takeWhile isdigit (nat_dec n) = nat_dec n" for n
    using nat_dec_correct [of n] by (simp add: list_all_iff)
  show ?thesis
  proof (cases "i < 0")
    case True
    then show ?thesis
      using nat_dec_correct [of "nat (- i)"]
      by (simp add: decimal_def int_dec_def * isspace_def)
  next
    case False
    obtain c t where ct: "nat_dec (nat i) = c # t" and c: "isdigit c"
      using nat_dec_correct [of "nat i"] by (cases "nat_dec (nat i)") auto
    have "dropWhile isspace (nat_dec (nat i)) = nat_dec (nat i)"
      by (simp add: ct isdigit_not_space [OF c])
    then have "decimal (int_dec i) = int (digits_val (takeWhile isdigit (nat_dec (nat i))))"
      using False isdigit_not_sign [OF c] by (simp add: decimal_def int_dec_def ct)
    with False show ?thesis by (simp add: * nat_dec_correct)
  qed
qed

lemma nat_dec_nul_free: "NUL \<notin> set (nat_dec n)"
  using nat_dec_correct [of n] by (auto simp: list_all_iff isdigit_def)

lemma int_dec_nul_free: "NUL \<notin> set (int_dec i)"
  by (simp add: int_dec_def nat_dec_nul_free)

lemma length_int_dec: "- (2 ^ 31) \<le> i \<Longrightarrow> i < 2 ^ 31 \<Longrightarrow> length (int_dec i) \<le> 11"
proof -
  assume i: "- (2 ^ 31) \<le> i" "i < 2 ^ 31"
  then have 1: "nat (- i) < 10 ^ 10" and 2: "nat i < 10 ^ 10" by simp_all
  have "length (nat_dec (nat (- i))) \<le> 10" by (rule length_nat_dec [OF 1]) simp
  moreover have "length (nat_dec (nat i)) \<le> 10" by (rule length_nat_dec [OF 2]) simp
  ultimately show ?thesis by (simp add: int_dec_def)
qed

end
