(* ===== verification/Csapp.thy ===== *)
theory Csapp
  imports CString
begin

text \<open>
  What the programs use of \<open>csapp.h\<close>: its constants, the Rio reader with its state \<open>rio_t\<close>,
  the semaphore operations \<open>P\<close> and \<open>V\<close>, and the calls recorded in the trace of a program.
  The header declares these functions and the repository holds no \<open>csapp.c\<close>, so they are
  parameters: a program is defined over any reader and any semaphore, and the laws the
  documentation gives are the assumptions of the locales \<open>rio_reader\<close> and \<open>semaphore\<close>. The
  reader at the end of the theory, which keeps its unread bytes in a \<open>rio_t\<close> as the header's
  comments describe, shows that the laws can be met and is what the witnesses run on.
\<close>

section \<open>Constants\<close>

definition RIO_BUFSIZE :: nat where "RIO_BUFSIZE = 8192"
definition MAXLINE :: nat where "MAXLINE = 8192"
definition MAXBUF :: nat where "MAXBUF = 8192"
definition LISTENQ :: nat where "LISTENQ = 1024"

lemmas csapp_consts [simp] = RIO_BUFSIZE_def MAXLINE_def MAXBUF_def LISTENQ_def

section \<open>Calls recorded in a trace\<close>

datatype child_event = Setenv string string | Dup2 int int | Execve string bytes

datatype event =
    Stdout string
  | Stderr string
  | Accepted int
  | Writen int bytes
  | Opened string int
  | Closed int
  | Mapped int nat
  | Unmapped nat
  | Forked "child_event list"
  | Waited

type_synonym 'a run = "(event, 'a) exec"

text \<open>
  \<open>Rio_writen\<close> returns when all bytes were written and otherwise reports the error and
  exits; whether the connection accepts the bytes is the argument \<open>up\<close>.
\<close>

definition Rio_writen :: "(int \<Rightarrow> bytes \<Rightarrow> bool) \<Rightarrow> int \<Rightarrow> bytes \<Rightarrow> unit run" where
  "Rio_writen up fd bs = (if up fd bs then Ret [Writen fd bs] () else Exits [] WrapperError)"

definition printf :: "string \<Rightarrow> unit run" where
  "printf s = Ret [Stdout s] ()"

text \<open>\<open>Close\<close> reports an error and exits when \<open>close\<close> rejects the descriptor, as it does -1.\<close>

definition Close :: "int \<Rightarrow> unit run" where
  "Close fd = (if fd < 0 then Exits [] WrapperError else Ret [Closed fd] ())"

lemma Rio_writen_up [simp, exec_simps]: "up fd bs \<Longrightarrow> Rio_writen up fd bs = Ret [Writen fd bs] ()"
  by (simp add: Rio_writen_def)

lemma is_undef_Rio_writen [simp]: "\<not> is_undef (Rio_writen up fd bs)"
  by (simp add: Rio_writen_def)

text \<open>The bytes a trace sends on a descriptor; a CGI program that was given the descriptor as
  its standard output sends its output there.\<close>

fun child_sent :: "int \<Rightarrow> bool \<Rightarrow> child_event list \<Rightarrow> bytes" where
  "child_sent fd on [] = []"
| "child_sent fd on (Dup2 a b # es) = child_sent fd (if b = 1 then a = fd else on) es"
| "child_sent fd on (Execve p out # es) = (if on then out else []) @ child_sent fd on es"
| "child_sent fd on (Setenv a b # es) = child_sent fd on es"

fun sent :: "int \<Rightarrow> event list \<Rightarrow> bytes" where
  "sent fd [] = []"
| "sent fd (Writen fd' bs # es) = (if fd' = fd then bs else []) @ sent fd es"
| "sent fd (Forked ch # es) = child_sent fd False ch @ sent fd es"
| "sent fd (_ # es) = sent fd es"

lemma sent_append [simp]: "sent fd (xs @ ys) = sent fd xs @ sent fd ys"
  by (induction fd xs rule: sent.induct) auto

lemma sent_prints: "\<forall>e \<in> set es. \<exists>s. e = Stdout s \<Longrightarrow> sent fd es = []"
  by (induction es) auto

section \<open>Lines\<close>

text \<open>The next line of a byte stream: at most \<open>m\<close> bytes, ending at the first newline.\<close>

fun take_line :: "nat \<Rightarrow> bytes \<Rightarrow> bytes" where
  "take_line 0 bs = []"
| "take_line (Suc m) [] = []"
| "take_line (Suc m) (c # cs) = (if c = LF then [c] else c # take_line m cs)"

abbreviation rest_line :: "nat \<Rightarrow> bytes \<Rightarrow> bytes" where
  "rest_line m bs \<equiv> drop (length (take_line m bs)) bs"

lemma take_line_Nil [simp]: "take_line m [] = []"
  by (cases m) auto

lemma take_line_append_rest [simp]: "take_line m bs @ rest_line m bs = bs"
  by (induction m bs rule: take_line.induct) auto

lemma take_line_length: "length (take_line m bs) \<le> m"
  by (induction m bs rule: take_line.induct) auto

lemma take_line_nonempty: "0 < m \<Longrightarrow> bs \<noteq> [] \<Longrightarrow> take_line m bs \<noteq> []"
  by (cases m; cases bs) auto

lemma rest_line_shorter: "0 < m \<Longrightarrow> bs \<noteq> [] \<Longrightarrow> length (rest_line m bs) < length bs"
  using take_line_nonempty [of m bs] by (cases bs) (auto simp: diff_less)

lemma take_line_line:
  "LF \<notin> set l \<Longrightarrow> length l < m \<Longrightarrow> take_line m (l @ LF # r) = l @ [LF]"
  by (induction l arbitrary: m) (auto simp: less_Suc_eq_0_disj gr0_conv_Suc Suc_less_eq2)

function lines_of :: "nat \<Rightarrow> bytes \<Rightarrow> bytes list" where
  "lines_of m bs = (if m = 0 \<or> bs = [] then [] else take_line m bs # lines_of m (rest_line m bs))"
  by pat_completeness auto
termination
  by (relation "measure (\<lambda>(m, bs). length bs)") (auto dest!: rest_line_shorter [of _ bs for bs])

declare lines_of.simps [simp del]

lemma concat_lines_of: "0 < m \<Longrightarrow> concat (lines_of m bs) = bs"
proof (induction m bs rule: lines_of.induct)
  case (1 m bs)
  then show ?case
    by (cases "bs = []") (simp_all add: lines_of.simps [of m bs] lines_of.simps [of m "[]"])
qed

section \<open>The Rio reader\<close>

text \<open>
  \<open>Rio_readlineb\<close> delivers the next line (at most \<open>maxlen - 1\<close> bytes), or returns 0 at end
  of file and leaves the caller's array alone, or fails. A reader has its own state \<open>'r\<close> and
  moves bytes out of the kernel's state \<open>'k\<close>.
\<close>

datatype rl = Line bytes | Eof | ReadErr

record ('r, 'k) rio_api =
  readinitb :: "int \<Rightarrow> 'r"
  readlineb :: "'r \<Rightarrow> 'k \<Rightarrow> nat \<Rightarrow> rl \<times> 'r \<times> 'k"

text \<open>
  The contract: \<open>pending r k\<close> are the bytes a reader has still to deliver, \<open>wire k fd\<close> those
  the kernel holds for a descriptor (until the peer closes). \<open>fd_of r\<close> is the descriptor a
  reader is bound to: reading from it leaves the other descriptors alone.
\<close>

locale rio_reader =
  fixes api :: "('r, 'k) rio_api"
    and fd_of :: "'r \<Rightarrow> int"
    and pending :: "'r \<Rightarrow> 'k \<Rightarrow> bytes"
    and wire :: "'k \<Rightarrow> int \<Rightarrow> bytes"
  assumes init_pending: "pending (readinitb api fd) k = wire k fd"
    and init_fd: "fd_of (readinitb api fd) = fd"
    and line: "2 \<le> n \<Longrightarrow> pending r k \<noteq> [] \<Longrightarrow>
      \<exists>r' k'. readlineb api r k n = (Line (take_line (n - 1) (pending r k)), r', k') \<and>
        pending r' k' = rest_line (n - 1) (pending r k)"
    and eof: "2 \<le> n \<Longrightarrow> pending r k = [] \<Longrightarrow>
      \<exists>r' k'. readlineb api r k n = (Eof, r', k') \<and> pending r' k' = []"
    and fd_kept: "readlineb api r k n = (res, r', k') \<Longrightarrow> fd_of r' = fd_of r"
    and frame: "readlineb api r k n = (res, r', k') \<Longrightarrow> fd \<noteq> fd_of r \<Longrightarrow> wire k' fd = wire k fd"
    and pending_frame: "readlineb api r k n = (res, r', k') \<Longrightarrow> fd_of u \<noteq> fd_of r \<Longrightarrow>
      pending u k' = pending u k"

section \<open>Semaphores\<close>

text \<open>
  \<open>P\<close> waits for a positive value and decrements it (\<open>None\<close>: the caller blocks); \<open>V\<close>
  increments it. \<open>val\<close> reads the value and \<open>init\<close> is \<open>Sem_init\<close>.
\<close>

record 's sem_api =
  sem_init :: "nat \<Rightarrow> 's"
  semP :: "'s \<Rightarrow> 's option"
  semV :: "'s \<Rightarrow> 's"

locale semaphore =
  fixes sa :: "'s sem_api"
    and val :: "'s \<Rightarrow> nat"
  assumes init_val: "val (sem_init sa n) = n"
    and P_blocks: "semP sa s = None \<longleftrightarrow> val s = 0"
    and P_val: "semP sa s = Some s' \<Longrightarrow> val s = Suc (val s')"
    and V_val: "val (semV sa s) = Suc (val s)"
begin

lemma P_some: "0 < val s \<Longrightarrow> \<exists>s'. semP sa s = Some s' \<and> val s' = val s - 1"
  using P_blocks [of s] P_val [of s] by (cases "semP sa s") auto

lemma P_pos: "semP sa s = Some s' \<Longrightarrow> 0 < val s"
  using P_val [of s s'] by simp

end

text \<open>The POSIX semaphore that \<open>P\<close> and \<open>V\<close> wrap: a counter.\<close>

definition posix_sem :: "nat sem_api" where
  "posix_sem = \<lparr>sem_init = (\<lambda>n. n),
     semP = (\<lambda>s. if 0 < s then Some (s - 1) else None),
     semV = Suc\<rparr>"

interpretation posix: semaphore posix_sem "\<lambda>s. s"
  by unfold_locales (auto simp: posix_sem_def split: if_splits)

section \<open>A reader over rio_t\<close>

record rio_t =
  rio_fd :: int
  rio_cnt :: nat
  rio_bufptr :: nat
  rio_buf :: bytes

text \<open>The kernel as a reader sees it: per descriptor, what each \<open>read\<close> call will return.\<close>

type_synonym chunks = "int \<Rightarrow> bytes list"

definition unread :: "rio_t \<Rightarrow> bytes" where
  "unread r = take (rio_cnt r) (drop (rio_bufptr r) (rio_buf r))"

definition rio_fill :: "rio_t \<Rightarrow> chunks \<Rightarrow> rio_t \<times> chunks" where
  "rio_fill r k =
     (if unread r \<noteq> [] then (r, k)
      else case dropWhile (\<lambda>b. b = []) (k (rio_fd r)) of
        [] \<Rightarrow> (r, k(rio_fd r := []))
      | b # bs \<Rightarrow>
          (r\<lparr>rio_cnt := length (take RIO_BUFSIZE b), rio_bufptr := 0, rio_buf := take RIO_BUFSIZE b\<rparr>,
           k(rio_fd r := drop RIO_BUFSIZE b # bs)))"

fun rio_take_line :: "nat \<Rightarrow> rio_t \<Rightarrow> chunks \<Rightarrow> bytes \<times> rio_t \<times> chunks" where
  "rio_take_line 0 r k = ([], r, k)"
| "rio_take_line (Suc n) r k =
     (case rio_fill r k of (r, k) \<Rightarrow>
        (case unread r of
           [] \<Rightarrow> ([], r, k)
         | c # cs \<Rightarrow>
             (let r' = r\<lparr>rio_cnt := rio_cnt r - 1, rio_bufptr := Suc (rio_bufptr r)\<rparr> in
              if c = LF then ([c], r', k)
              else case rio_take_line n r' k of (l, r'', k'') \<Rightarrow> (c # l, r'', k''))))"

definition rio_ref :: "(rio_t, chunks) rio_api" where
  "rio_ref = \<lparr>readinitb = (\<lambda>fd. \<lparr>rio_fd = fd, rio_cnt = 0, rio_bufptr = 0, rio_buf = []\<rparr>),
     readlineb = (\<lambda>r k n. case rio_take_line (n - 1) r k of
       (l, r', k') \<Rightarrow> (if l = [] then Eof else Line l, r', k'))\<rparr>"

definition ref_pending :: "rio_t \<Rightarrow> chunks \<Rightarrow> bytes" where
  "ref_pending r k = unread r @ concat (k (rio_fd r))"

lemma concat_dropWhile_Nil: "concat (dropWhile (\<lambda>b. b = []) bs) = concat bs"
  by (induction bs) auto

lemma unread_refilled [simp]:
  "unread (r\<lparr>rio_cnt := n, rio_bufptr := 0, rio_buf := b\<rparr>) = take n b"
  by (simp add: unread_def)

lemma unread_advance:
  "unread r = c # cs \<Longrightarrow>
   unread (r\<lparr>rio_cnt := rio_cnt r - 1, rio_bufptr := Suc (rio_bufptr r)\<rparr>) = cs"
  unfolding unread_def
  by (cases "rio_cnt r"; cases "drop (rio_bufptr r) (rio_buf r)")
    (auto simp: drop_Suc tl_drop [symmetric])

lemma rio_fill_pending:
  assumes "rio_fill r k = (r', k')"
  shows "ref_pending r' k' = ref_pending r k" "rio_fd r' = rio_fd r"
    and "unread r' = [] \<longleftrightarrow> ref_pending r k = []"
    and "fd \<noteq> rio_fd r \<Longrightarrow> k' fd = k fd"
proof -
  show "rio_fd r' = rio_fd r" "fd \<noteq> rio_fd r \<Longrightarrow> k' fd = k fd"
    using assms by (auto simp: rio_fill_def split: if_splits list.splits)
  have "ref_pending r' k' = ref_pending r k \<and> (unread r' = [] \<longleftrightarrow> ref_pending r k = [])"
  proof (cases "unread r")
    case (Cons c cs)
    with assms show ?thesis by (simp add: rio_fill_def ref_pending_def)
  next
    case Nil
    show ?thesis
    proof (cases "dropWhile (\<lambda>b. b = []) (k (rio_fd r))")
      case none: Nil
      have "concat (k (rio_fd r)) = []"
        using concat_dropWhile_Nil [of "k (rio_fd r)"] none by simp
      then show ?thesis using assms Nil none by (auto simp: rio_fill_def ref_pending_def)
    next
      case (Cons b bs)
      have "b \<noteq> []" using hd_dropWhile [of "\<lambda>b. b = []" "k (rio_fd r)"] Cons by auto
      moreover have "concat (k (rio_fd r)) = b @ concat bs"
        using concat_dropWhile_Nil [of "k (rio_fd r)"] Cons by simp
      ultimately show ?thesis using assms Nil Cons
        by (auto simp: rio_fill_def ref_pending_def min_def split: if_splits)
    qed
  qed
  then show "ref_pending r' k' = ref_pending r k" "unread r' = [] \<longleftrightarrow> ref_pending r k = []"
    by simp_all
qed

lemma rio_take_line_correct:
  "rio_take_line n r k = (l, r', k') \<Longrightarrow>
   l = take_line n (ref_pending r k) \<and> ref_pending r' k' = rest_line n (ref_pending r k) \<and>
   rio_fd r' = rio_fd r \<and> (\<forall>fd. fd \<noteq> rio_fd r \<longrightarrow> k' fd = k fd)"
proof (induction n arbitrary: r k l r' k')
  case 0
  then show ?case by simp
next
  case (Suc n)
  obtain r1 k1 where f: "rio_fill r k = (r1, k1)" by fastforce
  note fp = rio_fill_pending [OF f]
  show ?case
  proof (cases "unread r1")
    case Nil
    with fp(3) have "ref_pending r k = []" by simp
    with Suc.prems f Nil fp show ?thesis by auto
  next
    case (Cons c cs)
    define r2 where "r2 = r1\<lparr>rio_cnt := rio_cnt r1 - 1, rio_bufptr := Suc (rio_bufptr r1)\<rparr>"
    have r2: "unread r2 = cs" "rio_fd r2 = rio_fd r"
      using unread_advance [OF Cons] fp(2) by (simp_all add: r2_def)
    have p: "ref_pending r k = c # ref_pending r2 k1"
      using fp(1,2) Cons r2 by (simp add: ref_pending_def)
    show ?thesis
    proof (cases "c = LF")
      case True
      with Suc.prems f Cons have "l = [c]" "r' = r2" "k' = k1"
        by (simp_all add: r2_def)
      with True p r2 fp show ?thesis by simp
    next
      case False
      obtain l2 r3 k3 where rec: "rio_take_line n r2 k1 = (l2, r3, k3)" by (metis prod_cases3)
      with Suc.prems f Cons False have "l = c # l2" "r' = r3" "k' = k3"
        by (simp_all add: r2_def)
      with Suc.IH [OF rec] False p r2 fp show ?thesis by simp
    qed
  qed
qed

interpretation ref: rio_reader rio_ref rio_fd ref_pending "\<lambda>k fd. concat (k fd)"
proof unfold_locales
  fix fd k
  show "ref_pending (readinitb rio_ref fd) k = concat (k fd)"
    by (simp add: rio_ref_def ref_pending_def unread_def)
  show "rio_fd (readinitb rio_ref fd) = fd" by (simp add: rio_ref_def)
next
  fix n :: nat and r k
  obtain l r' k' where t: "rio_take_line (n - 1) r k = (l, r', k')" by (metis prod_cases3)
  note c = rio_take_line_correct [OF t]
  { assume "2 \<le> n" "ref_pending r k \<noteq> []"
    with c have "l \<noteq> []" using take_line_nonempty [of "n - 1" "ref_pending r k"] by simp
    with t c show "\<exists>r' k'. readlineb rio_ref r k n = (Line (take_line (n - 1) (ref_pending r k)), r', k') \<and>
        ref_pending r' k' = rest_line (n - 1) (ref_pending r k)"
      by (simp add: rio_ref_def) }
  { assume "2 \<le> n" "ref_pending r k = []"
    with t c show "\<exists>r' k'. readlineb rio_ref r k n = (Eof, r', k') \<and> ref_pending r' k' = []"
      by (simp add: rio_ref_def) }
next
  fix n :: nat and r k res r' k'
  assume "readlineb rio_ref r k n = (res, r', k')"
  then obtain l where t: "rio_take_line (n - 1) r k = (l, r', k')"
    by (auto simp: rio_ref_def split: prod.splits)
  note c = rio_take_line_correct [OF t]
  from c show "rio_fd r' = rio_fd r" by simp
  { fix fd assume "fd \<noteq> rio_fd r"
    with c show "concat (k' fd) = concat (k fd)" by simp }
  { fix u :: rio_t assume "rio_fd u \<noteq> rio_fd r"
    with c show "ref_pending u k' = ref_pending u k" by (simp add: ref_pending_def) }
qed

text \<open>A kernel that holds some bytes for one descriptor, for the witnesses.\<close>

definition on_wire :: "int \<Rightarrow> bytes \<Rightarrow> chunks" where
  "on_wire fd bs = (\<lambda>_. [])(fd := [bs])"

lemma on_wire [simp]: "concat (on_wire fd bs fd) = bs"
  by (simp add: on_wire_def)

end
