(* ===== verification/TinyUri.thy ===== *)
theory TinyUri
  imports Csapp
begin

text \<open>
  The two string routines of the Tiny web server: \<open>parse_uri\<close>, which turns a URI into a file
  name and CGI arguments, and \<open>get_filetype\<close>, which derives the content type from the file
  name. Every write goes into an array of \<open>MAXLINE\<close> bytes and is undefined beyond it.
\<close>

section \<open>parse_uri\<close>

text \<open>
  The result is the return value (1 for static content, 0 for dynamic), the contents of
  \<open>filename\<close> and \<open>cgiargs\<close>, and the string left in \<open>uri\<close>, whose question mark is
  overwritten by a terminator. \<open>uri[strlen (uri) - 1]\<close> on an empty \<open>uri\<close> reads outside the array.
\<close>

definition parse_uri :: "string \<Rightarrow> (int \<times> string \<times> string \<times> string) run" where
  "parse_uri uri =
     (case strstr uri ''cgi-bin'' of
        None \<Rightarrow>
          bindE (strcpy MAXLINE '''') (\<lambda>cgiargs.
          bindE (strcpy MAXLINE ''.'') (\<lambda>filename.
          bindE (strcat MAXLINE filename uri) (\<lambda>filename.
            if uri = [] then Undef [] BadRead
            else if uri ! (length uri - 1) = CHR ''/''
              then bindE (strcat MAXLINE filename ''home.html'') (\<lambda>filename.
                Ret [] (1, filename, cgiargs, uri))
            else Ret [] (1, filename, cgiargs, uri))))
      | Some _ \<Rightarrow>
          bindE (case strindex uri CHR ''?'' of
              Some ptr \<Rightarrow> bindE (strcpy MAXLINE (tl ptr)) (\<lambda>cgiargs.
                Ret [] (cgiargs, takeWhile (\<lambda>c. c \<noteq> CHR ''?'') uri))
            | None \<Rightarrow> bindE (strcpy MAXLINE '''') (\<lambda>cgiargs. Ret [] (cgiargs, uri)))
            (\<lambda>(cgiargs, uri).
          bindE (strcpy MAXLINE ''.'') (\<lambda>filename.
          bindE (strcat MAXLINE filename uri) (\<lambda>filename.
            Ret [] (0, filename, cgiargs, uri)))))"

text \<open>The intended decoding, on unbounded strings: the kind of content, the path, the arguments.\<close>

definition uri_spec :: "string \<Rightarrow> bool \<times> string \<times> string" where
  "uri_spec uri =
     (if sublist ''cgi-bin'' uri
      then (False, ''.'' @ takeWhile (\<lambda>c. c \<noteq> CHR ''?'') uri,
            tl (dropWhile (\<lambda>c. c \<noteq> CHR ''?'') uri))
      else (True, ''.'' @ uri @ (if last uri = CHR ''/'' then ''home.html'' else ''''), ''''))"

lemma strindex_dropWhile:
  "strindex s c = (if c \<in> set s then Some (dropWhile (\<lambda>x. x \<noteq> c) s) else None)"
  by (induction s) auto

text \<open>The file name that \<open>parse_uri\<close> builds is never shorter than the URI it reads.\<close>

lemma parse_uri_static:
  assumes "\<not> sublist ''cgi-bin'' uri" "uri \<noteq> []"
  shows "parse_uri uri =
    (if length uri < MAXLINE - 1 - (if last uri = CHR ''/'' then 9 else 0)
     then Ret [] (1, ''.'' @ uri @ (if last uri = CHR ''/'' then ''home.html'' else ''''), '''', uri)
     else Undef [] Overrun)"
proof -
  have n: "strstr uri ''cgi-bin'' = None" using assms(1) by (simp add: strstr_None)
  have l: "uri ! (length uri - Suc 0) = last uri" using assms(2) by (simp add: last_conv_nth)
  show ?thesis using assms(2) by (simp add: parse_uri_def n strcat_def strcpy_def l)
qed

lemma parse_uri_dynamic:
  assumes "sublist ''cgi-bin'' uri"
  shows "parse_uri uri =
    (let path = takeWhile (\<lambda>c. c \<noteq> CHR ''?'') uri; args = tl (dropWhile (\<lambda>c. c \<noteq> CHR ''?'') uri)
     in if length args < MAXLINE \<and> length path < MAXLINE - 1
        then Ret [] (0, ''.'' @ path, args, path) else Undef [] Overrun)"
proof -
  obtain p where p: "strstr uri ''cgi-bin'' = Some p"
    using assms strstr_iff_sublist [of uri "''cgi-bin''"] by auto
  show ?thesis
  proof (cases "CHR ''?'' \<in> set uri")
    case True
    then show ?thesis by (simp add: parse_uri_def p strindex_dropWhile strcat_def strcpy_def Let_def)
  next
    case False
    then have no_args: "takeWhile (\<lambda>c. c \<noteq> CHR ''?'') uri = uri"
      "dropWhile (\<lambda>c. c \<noteq> CHR ''?'') uri = []"
      by (auto simp: takeWhile_eq_all_conv dropWhile_eq_Nil_conv)
    show ?thesis using False
      by (simp add: parse_uri_def p strindex_dropWhile strcat_def strcpy_def Let_def no_args)
  qed
qed

lemma parse_uri_Nil: "parse_uri [] = Undef [] BadRead"
  by (simp add: parse_uri_def strcat_def)

lemma parse_uri_silent: "parse_uri uri = Ret es x \<Longrightarrow> es = []"
  by (cases "uri = []"; cases "sublist ''cgi-bin'' uri")
    (auto simp: parse_uri_Nil parse_uri_static parse_uri_dynamic Let_def split: if_splits)

lemma path_args_lengths:
  "length (takeWhile P uri) + length (tl (dropWhile P uri)) \<le> length uri"
proof -
  have "length (takeWhile P uri) + length (dropWhile P uri) = length uri"
    by (metis length_append takeWhile_dropWhile_id)
  then show ?thesis by simp
qed

text \<open>C6: on every URI short enough for the file name array, \<open>parse_uri\<close> computes the intended
  decoding \<open>uri_spec\<close> (content kind, path with the default page, CGI arguments), and makes no call.\<close>

theorem parse_uri_refines_spec:
  assumes "uri \<noteq> []" and "length uri \<le> 8181"
  shows "\<exists>uri'. parse_uri uri =
    Ret [] (if fst (uri_spec uri) then 1 else 0, fst (snd (uri_spec uri)), snd (snd (uri_spec uri)), uri')"
proof (cases "sublist ''cgi-bin'' uri")
  case True
  then show ?thesis
    using assms path_args_lengths [of "\<lambda>c. c \<noteq> CHR ''?''" uri]
    by (auto simp: parse_uri_dynamic uri_spec_def Let_def)
next
  case False
  then show ?thesis using assms by (auto simp: parse_uri_static uri_spec_def)
qed

theorem parse_uri_refines_spec_witness:
  "\<exists>uri'. parse_uri ''/cgi-bin/adder?1&2'' = Ret [] (0, ''./cgi-bin/adder'', ''1&2'', uri')"
proof -
  have "sublist ''cgi-bin'' ''/cgi-bin/adder?1&2''" by (simp add: sublist_Cons_right)
  then have "uri_spec ''/cgi-bin/adder?1&2'' = (False, ''./cgi-bin/adder'', ''1&2'')"
    by (simp add: uri_spec_def)
  then show ?thesis using parse_uri_refines_spec [of "''/cgi-bin/adder?1&2''"] by simp
qed

text \<open>The round trip of a dynamic URI: a path without a question mark that names a CGI
  program, a question mark and any arguments come back as path and arguments.\<close>

theorem parse_uri_dynamic_roundtrip:
  assumes "sublist ''cgi-bin'' path" and "CHR ''?'' \<notin> set path"
    and "length path < 8191" and "length args < 8192"
  shows "parse_uri (path @ ''?'' @ args) = Ret [] (0, ''.'' @ path, args, path)"
proof -
  have "sublist ''cgi-bin'' (path @ ''?'' @ args)"
    using assms(1) by (rule sublist_order.order_trans) (rule sublist_append_rightI)
  moreover have "takeWhile (\<lambda>c. c \<noteq> CHR ''?'') (path @ ''?'' @ args) = path"
    "dropWhile (\<lambda>c. c \<noteq> CHR ''?'') (path @ ''?'' @ args) = ''?'' @ args"
    using assms(2) by (induction path) auto
  ultimately show ?thesis using assms(3,4) by (simp add: parse_uri_dynamic)
qed

theorem parse_uri_dynamic_roundtrip_witness:
  "parse_uri (''/cgi-bin/adder'' @ ''?'' @ ''15&2?3'') =
   Ret [] (0, ''.'' @ ''/cgi-bin/adder'', ''15&2?3'', ''/cgi-bin/adder'')"
  by (rule parse_uri_dynamic_roundtrip) (simp_all add: sublist_Cons_right)

text \<open>C39: the exact bound of \<open>parse_uri\<close> on the URIs a request line of at most 8191 bytes can
  carry after \<open>GET\<close> and a space: its only undefined behaviour is the overrun of \<open>filename\<close> by
  the default page, on a static URI of 8182 bytes or more that ends in a slash.\<close>

theorem parse_uri_overrun_iff:
  assumes "uri \<noteq> []" and "length uri \<le> 8187"
  shows "is_undef (parse_uri uri) \<longleftrightarrow>
    \<not> sublist ''cgi-bin'' uri \<and> last uri = CHR ''/'' \<and> 8182 \<le> length uri"
proof (cases "sublist ''cgi-bin'' uri")
  case True
  then show ?thesis
    using assms path_args_lengths [of "\<lambda>c. c \<noteq> CHR ''?''" uri]
    by (auto simp: parse_uri_dynamic Let_def)
next
  case False
  then show ?thesis using assms by (auto simp: parse_uri_static)
qed

theorem parse_uri_overrun_iff_witness:
  "is_undef (parse_uri (replicate 8182 CHR ''/''))"
proof -
  have "\<not> sublist ''cgi-bin'' (replicate 8182 CHR ''/'')"
  proof
    assume "sublist ''cgi-bin'' (replicate 8182 CHR ''/'')"
    from set_mono_sublist [OF this] show False by auto
  qed
  moreover have "last (replicate 8182 CHR ''/'') = CHR ''/''" by (rule last_replicate) simp
  moreover have "replicate 8182 CHR ''/'' \<noteq> []" by (metis length_replicate list.size(3) zero_neq_numeral)
  ultimately show ?thesis
    using parse_uri_overrun_iff [of "replicate 8182 CHR ''/''"] by simp
qed

lemma set_tl_subset: "set (tl xs) \<subseteq> set xs"
  by (cases xs) auto

section \<open>get_filetype\<close>

definition get_filetype :: "string \<Rightarrow> string run" where
  "get_filetype filename =
     (if strstr filename ''.html'' \<noteq> None then strcpy MAXLINE ''.html''
      else if strstr filename ''.gif'' \<noteq> None then strcpy MAXLINE ''image/gif''
      else if strstr filename ''.png'' \<noteq> None then strcpy MAXLINE ''iamge/png''
      else if strstr filename ''.jpg'' \<noteq> None then strcpy MAXLINE ''image/jpg''
      else if strstr filename ''.jpeg'' \<noteq> None then strcpy MAXLINE ''image/jpeg''
      else strcpy MAXLINE ''text/plain'')"

text \<open>The table the code implements: the first extension that occurs anywhere in the name.\<close>

definition type_table :: "(string \<times> string) list" where
  "type_table = [(''.html'', ''.html''), (''.gif'', ''image/gif''), (''.png'', ''iamge/png''),
     (''.jpg'', ''image/jpg''), (''.jpeg'', ''image/jpeg'')]"

definition type_lookup :: "string \<Rightarrow> string" where
  "type_lookup filename =
     (case find (\<lambda>e. sublist (fst e) filename) type_table of
        Some e \<Rightarrow> snd e | None \<Rightarrow> ''text/plain'')"

lemma get_filetype_lookup: "get_filetype filename = Ret [] (type_lookup filename)"
  unfolding get_filetype_def strstr_iff_sublist type_lookup_def type_table_def by simp

lemma type_lookup_length: "length (type_lookup filename) \<le> 10"
  by (simp add: type_lookup_def type_table_def)

lemma type_lookup_nul_free: "NUL \<notin> set (type_lookup filename)"
  by (simp add: type_lookup_def type_table_def)

text \<open>\<open>get_filetype\<close> always returns, without overrun, the entry of the first extension in
  the table that occurs anywhere in the file name (not only at its end), and \<open>text/plain\<close> when
  none occurs.\<close>

theorem get_filetype_table:
  "get_filetype filename =
     Ret [] (case find (\<lambda>e. sublist (fst e) filename) type_table of
       Some e \<Rightarrow> snd e | None \<Rightarrow> ''text/plain'')"
  by (simp add: get_filetype_lookup type_lookup_def)

text \<open>A name is classified by an extension in its middle, although its suffix says otherwise.\<close>

lemma get_filetype_not_suffix: "get_filetype ''./logo.html.png'' = Ret [] ''.html''"
  by (simp add: get_filetype_lookup type_lookup_def type_table_def sublist_Cons_right)

end
