(* ===== verification/TinyResponse.thy ===== *)
theory TinyResponse
  imports TinyUri
begin

text \<open>
  The three responses of the Tiny web server: \<open>clienterror\<close>, \<open>serve_static\<close> and
  \<open>serve_dynamic\<close>, each as the calls it makes. What the operating system answers (the result of
  \<open>stat\<close>, \<open>open\<close> and \<open>mmap\<close>, the output of a CGI program, whether the peer still accepts
  bytes) is the record \<open>os\<close>, an argument of every handler. A string is printed into an array
  with \<open>sprintf\<close>, which is undefined beyond the array; \<open>sprintf (buf, "%s...", buf)\<close> is read as
  the append the code intends.
\<close>

section \<open>Answers of the operating system\<close>

record os =
  stat_file :: "string \<Rightarrow> (32 word \<times> int) option"
  open_file :: "string \<Rightarrow> int option"
  mmap_file :: "int \<Rightarrow> nat \<Rightarrow> bytes option"
  conn_up :: "int \<Rightarrow> bytes \<Rightarrow> bool"
  cgi_output :: "string \<Rightarrow> string \<Rightarrow> bytes option"

definition Open :: "os \<Rightarrow> string \<Rightarrow> int run" where
  "Open os path = (case open_file os path of
     None \<Rightarrow> Exits [] WrapperError | Some fd \<Rightarrow> Ret [Opened path fd] fd)"

definition Mmap :: "os \<Rightarrow> int \<Rightarrow> nat \<Rightarrow> bytes run" where
  "Mmap os fd len = (case mmap_file os fd len of
     None \<Rightarrow> Exits [] WrapperError | Some bs \<Rightarrow> Ret [Mapped fd len] bs)"

definition Munmap :: "nat \<Rightarrow> unit run" where
  "Munmap len = Ret [Unmapped len] ()"

section \<open>clienterror\<close>

definition clienterror :: "os \<Rightarrow> int \<Rightarrow> string \<Rightarrow> string \<Rightarrow> string \<Rightarrow> string \<Rightarrow> unit run" where
  "clienterror os fd cause errnum shortmsg longmsg =
     bindE (sprintf MAXBUF ''<html><title>Tiny Error</title>'') (\<lambda>body.
     bindE (sprintf MAXBUF (body @ ''<body bgcolor=ffffff>'' @ crlf)) (\<lambda>body.
     bindE (sprintf MAXBUF (body @ errnum @ '': '' @ shortmsg @ crlf)) (\<lambda>body.
     bindE (sprintf MAXBUF (body @ ''<p>'' @ longmsg @ '': '' @ cause @ crlf)) (\<lambda>body.
     bindE (sprintf MAXBUF (body @ ''<hr><em>The Tiny Web server</em>'' @ crlf)) (\<lambda>body.
     bindE (sprintf MAXLINE (''HTTP/1.0 '' @ errnum @ '' '' @ shortmsg @ '' '' @ crlf)) (\<lambda>buf.
     bindE (Rio_writen (conn_up os) fd buf) (\<lambda>_.
     bindE (sprintf MAXLINE (''Content-type: text/html'' @ crlf)) (\<lambda>buf.
     bindE (Rio_writen (conn_up os) fd buf) (\<lambda>_.
     bindE (sprintf MAXLINE (''Content-length: '' @ int_dec (to_int32 (int (length body))) @
       crlf @ crlf)) (\<lambda>buf.
     bindE (Rio_writen (conn_up os) fd buf) (\<lambda>_.
     Rio_writen (conn_up os) fd body)))))))))))"

definition error_body :: "string \<Rightarrow> string \<Rightarrow> string \<Rightarrow> string \<Rightarrow> string" where
  "error_body cause errnum shortmsg longmsg =
     ''<html><title>Tiny Error</title><body bgcolor=ffffff>'' @ crlf @ errnum @ '': '' @ shortmsg @ crlf @
     ''<p>'' @ longmsg @ '': '' @ cause @ crlf @ ''<hr><em>The Tiny Web server</em>'' @ crlf"

definition error_head :: "string \<Rightarrow> string \<Rightarrow> nat \<Rightarrow> string" where
  "error_head errnum shortmsg len =
     ''HTTP/1.0 '' @ errnum @ '' '' @ shortmsg @ '' '' @ crlf @ ''Content-type: text/html'' @ crlf @
     ''Content-length: '' @ int_dec (int len) @ crlf @ crlf"

lemma length_error_body:
  "length (error_body cause errnum shortmsg longmsg) =
     99 + length cause + length errnum + length shortmsg + length longmsg"
  by (simp add: error_body_def)

lemma int_dec_fits: "length (int_dec (to_int32 i)) < 8172"
  using length_int_dec [of "to_int32 i"] to_int32_range [of i] by simp

lemma clienterror_overrun:
  assumes "8192 \<le> length (error_body cause errnum shortmsg longmsg)"
  shows "clienterror os fd cause errnum shortmsg longmsg = Undef [] Overrun"
  using assms unfolding clienterror_def
  by (simp add: sprintf_def strcpy_def length_error_body)

lemma clienterror_sends:
  assumes "length (error_body cause errnum shortmsg longmsg) < 8192"
    and "length errnum + length shortmsg < 8000" and "\<And>bs. conn_up os fd bs"
  shows "\<exists>es. clienterror os fd cause errnum shortmsg longmsg = Ret es () \<and>
    sent fd es = error_head errnum shortmsg (length (error_body cause errnum shortmsg longmsg)) @
      error_body cause errnum shortmsg longmsg \<and> (\<forall>e \<in> set es. \<exists>bs. e = Writen fd bs)"
proof -
  let ?body = "error_body cause errnum shortmsg longmsg"
  have n: "to_int32 (int (length ?body)) = int (length ?body)"
    using assms(1) by (intro to_int32_id) simp_all
  have "clienterror os fd cause errnum shortmsg longmsg =
      Ret [Writen fd (''HTTP/1.0 '' @ errnum @ '' '' @ shortmsg @ '' '' @ crlf),
           Writen fd (''Content-type: text/html'' @ crlf),
           Writen fd (''Content-length: '' @ int_dec (int (length ?body)) @ crlf @ crlf),
           Writen fd ?body] ()"
    using assms(1,2) int_dec_fits [of "int (length ?body)", unfolded n] n
    by (simp add: clienterror_def sprintf_def strcpy_def assms(3) error_body_def)
  then show ?thesis by (simp add: error_head_def)
qed

lemma clienterror_shape:
  "clienterror os fd cause errnum shortmsg longmsg = Ret es () \<Longrightarrow> \<forall>e \<in> set es. \<exists>bs. e = Writen fd bs"
  unfolding clienterror_def sprintf_def strcpy_def Rio_writen_def
  by (auto simp: bindE_eq_Ret_iff split: if_splits)


text \<open>C8: \<open>clienterror\<close> to a peer that accepts bytes either sends the complete error response,
  whose \<open>Content-length\<close> field reads back as the number of body bytes that follow the blank line,
  or, exactly when the body does not fit its array, is undefined before a byte is sent.\<close>

theorem clienterror_correct:
  assumes "length errnum + length shortmsg < 8000" and "\<And>bs. conn_up os fd bs"
  shows "if length cause + length errnum + length shortmsg + length longmsg < 8093
    then \<exists>es len. clienterror os fd cause errnum shortmsg longmsg = Ret es () \<and>
      sent fd es = ''HTTP/1.0 '' @ errnum @ '' '' @ shortmsg @ '' '' @ crlf @
        ''Content-type: text/html'' @ crlf @ ''Content-length: '' @ len @ crlf @ crlf @
        error_body cause errnum shortmsg longmsg \<and>
      decimal len = int (length (error_body cause errnum shortmsg longmsg))
    else clienterror os fd cause errnum shortmsg longmsg = Undef [] Overrun"
proof (cases "length cause + length errnum + length shortmsg + length longmsg < 8093")
  case True
  then have "length (error_body cause errnum shortmsg longmsg) < 8192"
    by (simp add: length_error_body)
  from clienterror_sends [OF this assms] show ?thesis
    using True by (auto simp: error_head_def intro: decimal_int_dec)
next
  case False
  then have "8192 \<le> length (error_body cause errnum shortmsg longmsg)"
    by (simp add: length_error_body)
  from clienterror_overrun [OF this] show ?thesis using False by simp
qed

definition os_example :: os where
  "os_example = \<lparr>stat_file = (\<lambda>p. if p = ''./a.gif'' then Some (0x81A4, 5) else
       if p = ''./cgi-bin/adder'' then Some (0x81ED, 100) else
       if p = ''./empty.html'' then Some (0x81A4, 0) else None),
     open_file = (\<lambda>p. Some 5),
     mmap_file = (\<lambda>fd len. if len = 0 then None else Some (take len ''GIF89''))
     , conn_up = (\<lambda>fd bs. True),
     cgi_output = (\<lambda>p args. if p = ''./cgi-bin/adder'' then Some (''Sum: '' @ args) else None)\<rparr>"

lemma os_example_simps [simp]:
  "conn_up os_example fd bs" "open_file os_example p = Some 5"
  "mmap_file os_example fd len = (if len = 0 then None else Some (take len ''GIF89''))"
  by (simp_all add: os_example_def)

theorem clienterror_correct_witness:
  "\<exists>es. clienterror os_example 4 ''POST'' ''501'' ''Not implemented'' ''Tiny does not implement this method''
      = Ret es ()"
  using clienterror_correct [of "''501''" "''Not implemented''" os_example 4 "''POST''"
      "''Tiny does not implement this method''"]
  by (auto simp: os_example_def)

section \<open>serve_static\<close>

text \<open>\<open>filesize\<close> is a 32-bit \<open>int\<close>; the length arguments of \<open>Mmap\<close> and \<open>Rio_writen\<close> are
  \<open>size_t\<close>.\<close>

definition serve_static :: "os \<Rightarrow> int \<Rightarrow> string \<Rightarrow> int \<Rightarrow> unit run" where
  "serve_static os fd filename filesize =
     bindE (get_filetype filename) (\<lambda>filetype.
     bindE (sprintf MAXBUF (''HTTP1/.0 200 OK'' @ crlf)) (\<lambda>buf.
     bindE (sprintf MAXBUF (buf @ ''Server: Tiny Web Server'' @ crlf)) (\<lambda>buf.
     bindE (sprintf MAXBUF (buf @ ''Connection: close'' @ crlf)) (\<lambda>buf.
     bindE (sprintf MAXBUF (buf @ ''Content-length: '' @ int_dec filesize @ crlf)) (\<lambda>buf.
     bindE (sprintf MAXBUF (buf @ ''Content-type: '' @ filetype @ crlf @ crlf)) (\<lambda>buf.
     bindE (Rio_writen (conn_up os) fd buf) (\<lambda>_.
     bindE (printf (''Response headers: '' @ [LF])) (\<lambda>_.
     bindE (printf buf) (\<lambda>_.
     bindE (Open os filename) (\<lambda>srcfd.
     bindE (Mmap os srcfd (to_size_t filesize)) (\<lambda>srcp.
     block [Close srcfd,
            Rio_writen (conn_up os) fd (take (to_size_t filesize) srcp),
            Munmap (to_size_t filesize)])))))))))))"

definition static_head :: "string \<Rightarrow> int \<Rightarrow> string" where
  "static_head filename filesize =
     ''HTTP1/.0 200 OK'' @ crlf @ ''Server: Tiny Web Server'' @ crlf @ ''Connection: close'' @ crlf @
     ''Content-length: '' @ int_dec filesize @ crlf @
     ''Content-type: '' @ type_lookup filename @ crlf @ crlf"

text \<open>The headers always fit their array: what is left is the part that touches the file.\<close>

lemma serve_static_unfold:
  assumes "- (2 ^ 31) \<le> filesize" "filesize < 2 ^ 31"
  shows "serve_static os fd filename filesize =
     bindE (Rio_writen (conn_up os) fd (static_head filename filesize)) (\<lambda>_.
     emit [Stdout (''Response headers: '' @ [LF]), Stdout (static_head filename filesize)]
     (bindE (Open os filename) (\<lambda>srcfd.
     bindE (Mmap os srcfd (to_size_t filesize)) (\<lambda>srcp.
     block [Close srcfd,
            Rio_writen (conn_up os) fd (take (to_size_t filesize) srcp),
            Munmap (to_size_t filesize)]))))"
  using length_int_dec [OF assms] type_lookup_length [of filename]
  by (simp add: serve_static_def get_filetype_lookup sprintf_def strcpy_def static_head_def
      printf_def)

text \<open>C12: for a file of between 1 and \<open>2 ^ 31 - 1\<close> bytes that can be opened and mapped,
  \<open>serve_static\<close> sends its header block, whose \<open>Content-length\<close> field reads back as the size,
  followed by exactly the file's bytes, and closes and unmaps what it opened and mapped.\<close>

theorem serve_static_sends_file:
  assumes "0 < sz" and "sz < 2 ^ 31" and "\<And>bs. conn_up os fd bs"
    and "open_file os filename = Some srcfd" and "0 \<le> srcfd"
    and "mmap_file os srcfd (nat sz) = Some file" and "length file = nat sz"
  shows "\<exists>es len ty. serve_static os fd filename (to_int32 sz) = Ret es () \<and>
    sent fd es = ''HTTP1/.0 200 OK'' @ crlf @ ''Server: Tiny Web Server'' @ crlf @
      ''Connection: close'' @ crlf @ ''Content-length: '' @ len @ crlf @
      ''Content-type: '' @ ty @ crlf @ crlf @ file \<and>
    decimal len = int (length file) \<and> get_filetype filename = Ret [] ty \<and>
    [e \<leftarrow> es. e \<in> {Opened filename srcfd, Closed srcfd, Mapped srcfd (nat sz), Unmapped (nat sz)}] =
      [Opened filename srcfd, Mapped srcfd (nat sz), Closed srcfd, Unmapped (nat sz)]"
proof -
  have s: "to_int32 sz = sz" "to_size_t sz = nat sz"
    using assms(1,2) by (simp_all add: to_int32_id to_size_t_id)
  have "serve_static os fd filename sz =
     Ret [Writen fd (static_head filename sz), Stdout (''Response headers: '' @ [LF]),
          Stdout (static_head filename sz), Opened filename srcfd, Mapped srcfd (nat sz),
          Closed srcfd, Writen fd file, Unmapped (nat sz)] ()"
    using assms by (simp add: serve_static_unfold s Open_def Mmap_def Munmap_def Close_def)
  then show ?thesis
    using assms(1,7) decimal_int_dec [of sz]
    by (auto simp: s static_head_def get_filetype_lookup)
qed

theorem serve_static_sends_file_witness:
  "\<exists>es. serve_static os_example 4 ''./a.gif'' (to_int32 5) = Ret es () \<and>
     (\<exists>pre. sent 4 es = pre @ ''GIF89'')"
proof -
  have "\<exists>es len ty. serve_static os_example 4 ''./a.gif'' (to_int32 5) = Ret es () \<and>
    sent 4 es = ''HTTP1/.0 200 OK'' @ crlf @ ''Server: Tiny Web Server'' @ crlf @
      ''Connection: close'' @ crlf @ ''Content-length: '' @ len @ crlf @
      ''Content-type: '' @ ty @ crlf @ crlf @ ''GIF89'' \<and>
    decimal len = int (length ''GIF89'') \<and> get_filetype ''./a.gif'' = Ret [] ty \<and>
    [e \<leftarrow> es. e \<in> {Opened ''./a.gif'' 5, Closed 5, Mapped 5 (nat 5), Unmapped (nat 5)}] =
      [Opened ''./a.gif'' 5, Mapped 5 (nat 5), Closed 5, Unmapped (nat 5)]"
    by (rule serve_static_sends_file) (simp_all add: os_example_def)
  then obtain es len ty where r: "serve_static os_example 4 ''./a.gif'' (to_int32 5) = Ret es ()"
    "sent 4 es = (''HTTP1/.0 200 OK'' @ crlf @ ''Server: Tiny Web Server'' @ crlf @
      ''Connection: close'' @ crlf @ ''Content-length: '' @ len @ crlf @
      ''Content-type: '' @ ty @ crlf @ crlf) @ ''GIF89''" by (auto simp only: append_assoc)
  show ?thesis by (rule exI [of _ es], rule conjI, rule r(1), rule exI, rule r(2))
qed

text \<open>A request for an empty file stops the server: \<open>mmap\<close> rejects a length of 0, the
  wrapper exits, and the client has by then received a header block announcing 0 bytes.\<close>

theorem serve_static_empty_file_exits:
  assumes "\<And>bs. conn_up os fd bs" and "open_file os filename = Some srcfd"
    and "mmap_file os srcfd 0 = None"
  shows "\<exists>es. serve_static os fd filename 0 = Exits es WrapperError \<and>
    sent fd es = static_head filename 0 \<and> Closed srcfd \<notin> set es"
  using assms by (simp add: serve_static_unfold Open_def Mmap_def to_size_t_def)

theorem serve_static_empty_file_exits_witness:
  "\<exists>es. serve_static os_example 4 ''./empty.html'' 0 = Exits es WrapperError"
  using serve_static_empty_file_exits [of os_example 4 "''./empty.html''" 5]
  by (auto simp: os_example_def)

section \<open>serve_dynamic\<close>

text \<open>
  The child sets \<open>QUERY_STRING\<close>, makes the connection its standard output and becomes the CGI
  program; when \<open>Execve\<close> fails its wrapper exits the child. The parent waits for the child.
\<close>

definition serve_dynamic_child :: "os \<Rightarrow> int \<Rightarrow> string \<Rightarrow> string \<Rightarrow> child_event list" where
  "serve_dynamic_child os fd filename cgiargs =
     [Setenv ''QUERY_STRING'' cgiargs, Dup2 fd 1] @
     (case cgi_output os filename cgiargs of None \<Rightarrow> [] | Some out \<Rightarrow> [Execve filename out])"

definition serve_dynamic :: "os \<Rightarrow> int \<Rightarrow> string \<Rightarrow> string \<Rightarrow> unit run" where
  "serve_dynamic os fd filename cgiargs =
     bindE (sprintf MAXLINE (''HTTP/1.0 200 OK'' @ crlf)) (\<lambda>buf.
     bindE (Rio_writen (conn_up os) fd buf) (\<lambda>_.
     bindE (sprintf MAXLINE (''Server: Tiny Web Server'' @ crlf)) (\<lambda>buf.
     block [Rio_writen (conn_up os) fd buf,
            Ret [Forked (serve_dynamic_child os fd filename cgiargs)] (),
            Ret [Waited] ()])))"

lemma serve_dynamic_unfold:
  "(\<And>bs. conn_up os fd bs) \<Longrightarrow> serve_dynamic os fd filename cgiargs =
     Ret [Writen fd (''HTTP/1.0 200 OK'' @ crlf), Writen fd (''Server: Tiny Web Server'' @ crlf),
          Forked (serve_dynamic_child os fd filename cgiargs), Waited] ()"
  by (simp add: serve_dynamic_def sprintf_def)

text \<open>C24: \<open>serve_dynamic\<close> sends the status line, the server header and then exactly what the CGI
  program prints when it is run with the URI's arguments as its query string; its calls are, in this order,
  the two writes, the fork of the child that runs the program, and the wait for it, and nothing else.\<close>

theorem serve_dynamic_sends_cgi_output:
  assumes "\<And>bs. conn_up os fd bs" and "cgi_output os filename cgiargs = Some out"
  shows "\<exists>es. serve_dynamic os fd filename cgiargs = Ret es () \<and>
    sent fd es = ''HTTP/1.0 200 OK'' @ crlf @ ''Server: Tiny Web Server'' @ crlf @ out \<and>
    es = [Writen fd (''HTTP/1.0 200 OK'' @ crlf), Writen fd (''Server: Tiny Web Server'' @ crlf),
      Forked [Setenv ''QUERY_STRING'' cgiargs, Dup2 fd 1, Execve filename out], Waited]"
  using assms by (simp add: serve_dynamic_unfold serve_dynamic_child_def)

theorem serve_dynamic_sends_cgi_output_witness:
  "\<exists>es. serve_dynamic os_example 4 ''./cgi-bin/adder'' ''1&2'' = Ret es () \<and>
    sent 4 es = ''HTTP/1.0 200 OK'' @ crlf @ ''Server: Tiny Web Server'' @ crlf @ ''Sum: 1&2'' \<and> last es = Waited"
  using serve_dynamic_sends_cgi_output [of os_example 4 "''./cgi-bin/adder''" "''1&2''" "''Sum: 1&2''"]
  by (auto simp: os_example_def)

section \<open>Resources\<close>

text \<open>
  The descriptors, mappings and children a trace acquires and releases: \<open>fd_balance fd\<close> counts
  how often \<open>fd\<close> was obtained less how often it was closed, \<open>map_balance\<close> the live mappings,
  \<open>child_balance\<close> the children not waited for.
\<close>

fun fd_delta :: "int \<Rightarrow> event \<Rightarrow> int" where
  "fd_delta fd (Accepted d) = (if d = fd then 1 else 0)"
| "fd_delta fd (Opened p d) = (if d = fd then 1 else 0)"
| "fd_delta fd (Closed d) = (if d = fd then - 1 else 0)"
| "fd_delta fd _ = 0"

fun map_delta :: "event \<Rightarrow> int" where
  "map_delta (Mapped d n) = 1"
| "map_delta (Unmapped n) = - 1"
| "map_delta _ = 0"

fun child_delta :: "event \<Rightarrow> int" where
  "child_delta (Forked ch) = 1"
| "child_delta Waited = - 1"
| "child_delta _ = 0"

definition balanced :: "event list \<Rightarrow> bool" where
  "balanced es \<longleftrightarrow> (\<forall>fd. sum_list (map (fd_delta fd) es) = 0) \<and>
     sum_list (map map_delta es) = 0 \<and> sum_list (map child_delta es) = 0"

lemma balanced_Nil [simp]: "balanced []"
  by (simp add: balanced_def)

lemma balanced_append: "balanced xs \<Longrightarrow> balanced ys \<Longrightarrow> balanced (xs @ ys)"
  by (simp add: balanced_def)

lemma balanced_writes: "\<forall>e \<in> set es. \<exists>bs. e = Writen fd bs \<Longrightarrow> balanced es"
  by (induction es) (auto simp: balanced_def)

lemma balanced_prints: "\<forall>e \<in> set es. \<exists>s. e = Stdout s \<Longrightarrow> balanced es"
  by (induction es) (auto simp: balanced_def)

lemma balanced_conn: "balanced es \<Longrightarrow> balanced (Accepted fd # Stdout s # es @ [Closed fd])"
  by (simp add: balanced_def)

lemma serve_static_balanced:
  "serve_static os fd filename (to_int32 sz) = Ret es () \<Longrightarrow> balanced es"
  using to_int32_range [of sz]
  by (auto simp: serve_static_unfold Open_def Mmap_def Munmap_def Close_def Rio_writen_def
      bindE_eq_Ret_iff emit_eq_Ret_iff balanced_def split: option.splits if_splits)

lemma serve_dynamic_balanced: "serve_dynamic os fd filename cgiargs = Ret es () \<Longrightarrow> balanced es"
  by (auto simp: serve_dynamic_def sprintf_def Rio_writen_def bindE_eq_Ret_iff balanced_def
      split: if_splits)

lemma clienterror_balanced: "clienterror os fd c e s l = Ret es () \<Longrightarrow> balanced es"
  by (drule clienterror_shape) (rule balanced_writes)

end
