(* ===== verification/TinyServer.thy ===== *)
theory TinyServer
  imports TinyResponse
begin

text \<open>
  The request handler of the Tiny web server and its accept loop: \<open>read_requesthdrs\<close>,
  \<open>doit\<close>, \<open>main\<close>. The reader is a parameter (a \<open>rio_api\<close>); a run that never returns is
  \<open>None\<close>.
\<close>

section \<open>read_requesthdrs\<close>

text \<open>
  The loop reads lines until one is the empty line. At end of file \<open>Rio_readlineb\<close> leaves
  \<open>buf\<close> alone, so the comparison sees the old line again. Before the first line \<open>buf\<close> is
  indeterminate, so a header section that is missing altogether reads an array never written.
\<close>

partial_function (option) hdr_loop ::
  "('r, 'k) rio_api \<Rightarrow> bytes \<Rightarrow> 'r \<Rightarrow> 'k \<Rightarrow> event list \<Rightarrow> ('r \<times> 'k) run option" where
  "hdr_loop api buf rp k es =
     (if cstr buf = crlf then Some (Ret es (rp, k))
      else case readlineb api rp k MAXLINE of (res, rp', k') \<Rightarrow>
        (case res of
           Line l \<Rightarrow> hdr_loop api l rp' k' (es @ [Stdout (cstr l)])
         | Eof \<Rightarrow> hdr_loop api buf rp' k' (es @ [Stdout (cstr buf)])
         | ReadErr \<Rightarrow> Some (Exits es WrapperError)))"

definition read_requesthdrs ::
  "('r, 'k) rio_api \<Rightarrow> 'r \<Rightarrow> 'k \<Rightarrow> ('r \<times> 'k) run option" where
  "read_requesthdrs api rp k =
     (case readlineb api rp k MAXLINE of (res, rp', k') \<Rightarrow>
        (case res of
           Line l \<Rightarrow> hdr_loop api l rp' k' []
         | Eof \<Rightarrow> Some (Undef [] BadRead)
         | ReadErr \<Rightarrow> Some (Exits [] WrapperError)))"

text \<open>What is left of a byte stream after its header section, if the section ends at all.\<close>

function after_headers :: "bytes \<Rightarrow> bytes option" where
  "after_headers bs =
     (if bs = [] then None
      else if cstr (take_line (MAXLINE - 1) bs) = crlf then Some (rest_line (MAXLINE - 1) bs)
      else after_headers (rest_line (MAXLINE - 1) bs))"
  by pat_completeness auto
termination
  using rest_line_shorter [of "MAXLINE - 1"] by (relation "measure length") simp_all

declare after_headers.simps [simp del]

context rio_reader
begin

lemma hdr_loop_returns:
  "after_headers (pending rp k) = Some rest \<Longrightarrow> cstr buf \<noteq> crlf \<Longrightarrow>
   \<exists>es' rp' k'. hdr_loop api buf rp k es = Some (Ret (es @ es') (rp', k')) \<and>
     pending rp' k' = rest \<and> (\<forall>e \<in> set es'. \<exists>s. e = Stdout s)"
proof (induction "pending rp k" arbitrary: rp k buf es rule: after_headers.induct)
  case 1
  let ?l = "take_line 8191 (pending rp k)"
  have ne: "pending rp k \<noteq> []" using 1(2) by (auto simp: after_headers.simps [of "[]"])
  from line [OF _ ne, of 8192] obtain rp' k' where
    rd: "readlineb api rp k 8192 = (Line ?l, rp', k')" and
    p: "pending rp' k' = rest_line 8191 (pending rp k)" by auto
  have loop: "hdr_loop api buf rp k es = hdr_loop api ?l rp' k' (es @ [Stdout (cstr ?l)])"
    using 1(3) by (simp add: hdr_loop.simps [of api buf] rd)
  show ?case
  proof (cases "cstr ?l = crlf")
    case True
    then have "rest = pending rp' k'" using 1(2) ne p by (simp add: after_headers.simps [of "pending rp k"])
    with loop True show ?thesis by (simp add: hdr_loop.simps [of api ?l])
  next
    case False
    then have "after_headers (pending rp' k') = Some rest"
      using 1(2) ne p by (simp add: after_headers.simps [of "pending rp k"])
    moreover have "pending rp' k' = rest_line (MAXLINE - 1) (pending rp k)" using p by simp
    ultimately obtain es' rp'' k'' where
      "hdr_loop api ?l rp' k' (es @ [Stdout (cstr ?l)]) =
         Some (Ret ((es @ [Stdout (cstr ?l)]) @ es') (rp'', k''))"
      "pending rp'' k'' = rest" "\<forall>e \<in> set es'. \<exists>s. e = Stdout s"
      using 1(1) [of rp' k' ?l "es @ [Stdout (cstr ?l)]"] ne False by auto
    with loop show ?thesis by (intro exI [of _ "Stdout (cstr ?l) # es'"]) auto
  qed
qed

lemma hdr_loop_hangs:
  assumes "after_headers (pending rp k) = None" "cstr buf \<noteq> crlf"
  shows "hdr_loop api buf rp k es = None"
proof (rule ccontr)
  assume "hdr_loop api buf rp k es \<noteq> None"
  then obtain y where y: "hdr_loop api buf rp k es = Some y" by auto
  have "\<not> (api' = api \<and> after_headers (pending rp k) = None \<and> cstr buf \<noteq> crlf)"
    if "hdr_loop api' buf rp k es = Some y" for api' buf rp k es y
  proof (rule hdr_loop.raw_induct [where P = "\<lambda>api' buf rp k es y.
      \<not> (api' = api \<and> after_headers (pending rp k) = None \<and> cstr buf \<noteq> crlf)", OF _ that])
    fix f :: "('r, 'k) rio_api \<Rightarrow> bytes \<Rightarrow> 'r \<Rightarrow> 'k \<Rightarrow> event list \<Rightarrow> ('r \<times> 'k) run option"
    fix api' buf rp k es y
    assume IH: "\<And>api' buf rp k es y. f api' buf rp k es = Some y \<Longrightarrow>
        \<not> (api' = api \<and> after_headers (pending rp k) = None \<and> cstr buf \<noteq> crlf)"
      and eq: "(if cstr buf = crlf then Some (Ret es (rp, k))
        else case readlineb api' rp k MAXLINE of (res, rp', k') \<Rightarrow>
          (case res of
             Line l \<Rightarrow> f api' l rp' k' (es @ [Stdout (cstr l)])
           | Eof \<Rightarrow> f api' buf rp' k' (es @ [Stdout (cstr buf)])
           | ReadErr \<Rightarrow> Some (Exits es WrapperError))) = Some y"
    show "\<not> (api' = api \<and> after_headers (pending rp k) = None \<and> cstr buf \<noteq> crlf)"
    proof
      assume a: "api' = api \<and> after_headers (pending rp k) = None \<and> cstr buf \<noteq> crlf"
      show False
      proof (cases "pending rp k = []")
        case True
        then obtain rp' k' where rd: "readlineb api rp k 8192 = (Eof, rp', k')" "pending rp' k' = []"
          using eof [of 8192 rp k] by auto
        with a eq IH [of api buf rp' k'] show False by (auto simp: after_headers.simps [of "[]"])
      next
        case False
        let ?l = "take_line 8191 (pending rp k)"
        obtain rp' k' where rd: "readlineb api rp k 8192 = (Line ?l, rp', k')"
          "pending rp' k' = rest_line 8191 (pending rp k)"
          using line [OF _ False, of 8192] by auto
        from a False rd(2) have "cstr ?l \<noteq> crlf" "after_headers (pending rp' k') = None"
          by (auto simp: after_headers.simps [of "pending rp k"] split: if_splits)
        with a eq rd IH [of api ?l rp' k'] show False by auto
      qed
    qed
  qed
  with y assms show False by blast
qed

lemma read_requesthdrs_returns:
  assumes "after_headers (pending rp k) = Some rest"
  shows "\<exists>es rp' k'. read_requesthdrs api rp k = Some (Ret es (rp', k')) \<and>
    pending rp' k' = rest \<and> (\<forall>e \<in> set es. \<exists>s. e = Stdout s)"
proof -
  let ?l = "take_line 8191 (pending rp k)"
  have ne: "pending rp k \<noteq> []" using assms by (auto simp: after_headers.simps [of "[]"])
  from line [OF _ ne, of 8192] obtain rp' k' where
    rd: "readlineb api rp k 8192 = (Line ?l, rp', k')" and
    p: "pending rp' k' = rest_line 8191 (pending rp k)" by auto
  have start: "read_requesthdrs api rp k = hdr_loop api ?l rp' k' []"
    by (simp add: read_requesthdrs_def rd)
  show ?thesis
  proof (cases "cstr ?l = crlf")
    case True
    with assms ne p have "rest = pending rp' k'" by (simp add: after_headers.simps [of "pending rp k"])
    with True start show ?thesis by (simp add: hdr_loop.simps [of api ?l])
  next
    case False
    with assms ne p have "after_headers (pending rp' k') = Some rest"
      by (simp add: after_headers.simps [of "pending rp k"])
    from hdr_loop_returns [OF this False, of "[]"] start show ?thesis by auto
  qed
qed

lemma read_requesthdrs_hangs:
  assumes "after_headers (pending rp k) = None" "pending rp k \<noteq> []"
  shows "read_requesthdrs api rp k = None"
proof -
  let ?l = "take_line 8191 (pending rp k)"
  from line [OF _ assms(2), of 8192] obtain rp' k' where
    rd: "readlineb api rp k 8192 = (Line ?l, rp', k')" and
    p: "pending rp' k' = rest_line 8191 (pending rp k)" by auto
  from assms p have "cstr ?l \<noteq> crlf" "after_headers (pending rp' k') = None"
    by (auto simp: after_headers.simps [of "pending rp k"] split: if_splits)
  with hdr_loop_hangs rd show ?thesis by (simp add: read_requesthdrs_def)
qed

lemma read_requesthdrs_eof: "pending rp k = [] \<Longrightarrow> read_requesthdrs api rp k = Some (Undef [] BadRead)"
  using eof [of 8192 rp k] by (auto simp: read_requesthdrs_def)

end


unbundle bit_operations_syntax

text \<open>C31: whether the header section is read to its end is decided by the bytes the client sends, with any
  reader that meets the Rio contract, and there are three cases: if the section ends in an empty line,
  \<open>read_requesthdrs\<close> returns, having consumed the section and nothing behind it; if something arrives but
  no empty line, it never returns; if nothing arrives at all, it compares an array it has never
  written, which is undefined.\<close>

theorem read_requesthdrs_returns_iff:
  assumes "rio_reader api fd_of pending wire"
  shows "(read_requesthdrs api rp k = None \<longleftrightarrow> pending rp k \<noteq> [] \<and> after_headers (pending rp k) = None) \<and>
    (read_requesthdrs api rp k = Some (Undef [] BadRead) \<longleftrightarrow> pending rp k = []) \<and>
    (\<forall>rest. after_headers (pending rp k) = Some rest \<longleftrightarrow>
       (\<exists>es rp' k'. read_requesthdrs api rp k = Some (Ret es (rp', k')) \<and> pending rp' k' = rest))"
proof (cases "after_headers (pending rp k)")
  case None
  then show ?thesis using rio_reader.read_requesthdrs_hangs [OF assms, of rp k]
      rio_reader.read_requesthdrs_eof [OF assms, of rp k] by (cases "pending rp k = []") simp_all
next
  case (Some rest)
  then have "pending rp k \<noteq> []" by (auto simp: after_headers.simps [of "[]"])
  moreover obtain es rp' k' where "read_requesthdrs api rp k = Some (Ret es (rp', k'))" "pending rp' k' = rest"
    using rio_reader.read_requesthdrs_returns [OF assms Some] by blast
  ultimately show ?thesis using Some by auto
qed

theorem read_requesthdrs_returns_iff_witness:
  "read_requesthdrs rio_ref (readinitb rio_ref 4) (on_wire 4 (''Host: a'' @ crlf)) = None"
proof -
  let ?k = "on_wire 4 (''Host: a'' @ crlf)"
  have p: "ref_pending (readinitb rio_ref 4) ?k = ''Host: a'' @ crlf"
    by (simp add: ref.init_pending)
  have t: "take_line 8191 (''Host: a'' @ crlf) = ''Host: a'' @ crlf"
    using take_line_line [of "''Host: a'' @ [CR]" 8191 "[]"] by simp
  have "after_headers (''Host: a'' @ crlf) = None"
    using t by (simp add: after_headers.simps)
  then show ?thesis
    using read_requesthdrs_returns_iff [OF ref.rio_reader_axioms, of "readinitb rio_ref 4" ?k] p by simp
qed

section \<open>doit\<close>

definition S_ISREG :: "32 word \<Rightarrow> bool" where "S_ISREG m \<longleftrightarrow> m AND 0xF000 = 0x8000"
definition S_IRUSR :: "32 word" where "S_IRUSR = 0x100"
definition S_IXUSR :: "32 word" where "S_IXUSR = 0x40"

text \<open>From the URI on: decode it, look the file up, answer.\<close>

definition doit_respond :: "os \<Rightarrow> int \<Rightarrow> string \<Rightarrow> unit run" where
  "doit_respond os fd uri =
     bindE (parse_uri uri) (\<lambda>(is_static, filename, cgiargs, uri).
       case stat_file os filename of
         None \<Rightarrow> clienterror os fd filename ''404'' ''Not Found'' ''Tiny couldn't find this file''
       | Some (st_mode, st_size) \<Rightarrow>
           if is_static \<noteq> 0 then
             (if \<not> S_ISREG st_mode \<or> S_IRUSR AND st_mode = 0
              then clienterror os fd filename ''403'' ''Forbidden'' ''Tiny couldn't read the file''
              else serve_static os fd filename (to_int32 st_size))
           else
             (if \<not> S_ISREG st_mode \<or> S_IXUSR AND st_mode = 0
              then clienterror os fd filename ''403'' ''Forbidden'' ''Tiny couldn't run the CGI program''
              else serve_dynamic os fd filename cgiargs))"

text \<open>
  The whole handler. \<open>sscanf\<close> is not checked: a request line with fewer than two words
  leaves \<open>method\<close> or \<open>uri\<close> unassigned, and reading it then is undefined.
\<close>

definition doit :: "('r, 'k) rio_api \<Rightarrow> os \<Rightarrow> int \<Rightarrow> 'k \<Rightarrow> 'k run option" where
  "doit api os fd k =
     (case readlineb api (readinitb api fd) k MAXLINE of (res, rio, k) \<Rightarrow>
        (case res of
           ReadErr \<Rightarrow> Some (Exits [] WrapperError)
         | Eof \<Rightarrow> Some (Undef [Stdout (''Request headers: '' @ [LF])] BadRead)
         | Line buf \<Rightarrow>
             bindO (Some (Ret [Stdout (''Request headers: '' @ [LF]), Stdout (cstr buf)] ())) (\<lambda>_.
             case sscanf3 (cstr buf) of (method, uri, version) \<Rightarrow>
             (case method of
                None \<Rightarrow> Some (Undef [] BadRead)
              | Some method \<Rightarrow>
                  if strcasecmp method ''GET'' then
                    Some (bindE (clienterror os fd method ''501'' ''Not implemented''
                      ''Tiny does not implement this method'') (\<lambda>_. Ret [] k))
                  else
                    bindO (read_requesthdrs api rio k) (\<lambda>(rio, k).
                      case uri of
                        None \<Rightarrow> Some (Undef [] BadRead)
                      | Some uri \<Rightarrow> Some (bindE (doit_respond os fd uri) (\<lambda>_. Ret [] k)))))))"

subsection \<open>What the handler decides\<close>

text \<open>The decision table of the server, on the decoded URI, and the call each decision makes.\<close>

datatype response =
    NotFound string
  | ForbiddenRead string
  | ForbiddenRun string
  | Static string int
  | Dynamic string string

definition decide :: "os \<Rightarrow> string \<Rightarrow> response" where
  "decide os uri =
     (case uri_spec uri of (static, path, args) \<Rightarrow>
        (case stat_file os path of
           None \<Rightarrow> NotFound path
         | Some (mode, sz) \<Rightarrow>
             if static then
               (if S_ISREG mode \<and> S_IRUSR AND mode \<noteq> 0 then Static path sz else ForbiddenRead path)
             else
               (if S_ISREG mode \<and> S_IXUSR AND mode \<noteq> 0 then Dynamic path args else ForbiddenRun path)))"

fun perform :: "os \<Rightarrow> int \<Rightarrow> response \<Rightarrow> unit run" where
  "perform os fd (NotFound p) =
     clienterror os fd p ''404'' ''Not Found'' ''Tiny couldn't find this file''"
| "perform os fd (ForbiddenRead p) =
     clienterror os fd p ''403'' ''Forbidden'' ''Tiny couldn't read the file''"
| "perform os fd (ForbiddenRun p) =
     clienterror os fd p ''403'' ''Forbidden'' ''Tiny couldn't run the CGI program''"
| "perform os fd (Static p sz) = serve_static os fd p (to_int32 sz)"
| "perform os fd (Dynamic p args) = serve_dynamic os fd p args"

lemma parse_uri_spec:
  assumes "uri \<noteq> []" "length uri \<le> 8181" "uri_spec uri = (static, path, args)"
  obtains uri' where "parse_uri uri = Ret [] (if static then 1 else 0, path, args, uri')"
proof (cases "sublist ''cgi-bin'' uri")
  case True
  then show ?thesis
    using assms path_args_lengths [of "\<lambda>c. c \<noteq> CHR ''?''" uri] that
    by (auto simp: parse_uri_dynamic uri_spec_def Let_def)
next
  case False
  then show ?thesis using assms that by (auto simp: parse_uri_static uri_spec_def)
qed

lemma doit_respond_decide:
  assumes "uri \<noteq> []" "length uri \<le> 8181"
  shows "doit_respond os fd uri = perform os fd (decide os uri)"
proof -
  obtain static path args where u: "uri_spec uri = (static, path, args)" by (metis prod_cases3)
  obtain uri' where "parse_uri uri = Ret [] (if static then 1 else 0, path, args, uri')"
    using parse_uri_spec [OF assms u] .
  then show ?thesis
    by (cases static)
      (auto simp: doit_respond_def decide_def u split: option.split)
qed

text \<open>C15: refinement: on every URI of at most 8181 bytes the handler makes exactly the calls of the
  decision table: 404 when the file does not exist, 403 when it is not a regular file the owner may
  read (static) or execute (dynamic), and otherwise the file or the CGI program.\<close>

theorem doit_respond_refines_decide:
  assumes "uri \<noteq> []" and "length uri \<le> 8181"
  shows "doit_respond os fd uri = perform os fd (decide os uri)"
  using assms by (rule doit_respond_decide)

theorem doit_respond_refines_decide_witness:
  "doit_respond os_example 4 ''/a.gif'' = serve_static os_example 4 ''./a.gif'' 5"
proof -
  have "decide os_example ''/a.gif'' = Static ''./a.gif'' 5"
    by (simp add: decide_def uri_spec_def sublist_Cons_right os_example_def S_ISREG_def S_IRUSR_def)
  then show ?thesis
    using doit_respond_refines_decide [of "''/a.gif''" os_example 4] by (simp add: to_int32_id)
qed

subsection \<open>The handler on a whole request\<close>

lemma request_line_read:
  assumes "rio_reader api fd_of pending wire"
    and "wire k fd = l @ LF # rest" "LF \<notin> set l" "length l < 8191"
  shows "\<exists>rio k'. readlineb api (readinitb api fd) k MAXLINE = (Line (l @ [LF]), rio, k') \<and>
    pending rio k' = rest"
proof -
  note l = rio_reader.line [OF assms(1), of 8192 "readinitb api fd" k]
  have p: "pending (readinitb api fd) k = l @ LF # rest" by (simp add: rio_reader.init_pending [OF assms(1)] assms(2))
  have t: "take_line 8191 (l @ LF # rest) = l @ [LF]" by (rule take_line_line [OF assms(3,4)])
  show ?thesis using l by (auto simp: p t)
qed
definition word_token :: "string \<Rightarrow> bool" where
  "word_token w \<longleftrightarrow> w \<noteq> [] \<and> list_all (\<lambda>c. \<not> isspace c \<and> c \<noteq> NUL) w"

lemma word_token_noLF: "word_token w \<Longrightarrow> LF \<notin> set w" "word_token w \<Longrightarrow> NUL \<notin> set w"
  by (auto simp: word_token_def list_all_iff isspace_def)

lemma doit_request_line:
  assumes R: "rio_reader api fd_of pending wire"
    and w: "wire k fd = m @ '' '' @ u @ '' '' @ v @ crlf @ hdrs"
    and t: "word_token m" "word_token u" "word_token v" and len: "length (m @ u @ v) < 8188"
  shows "\<exists>es rio k'. pending rio k' = hdrs \<and> (\<forall>e \<in> set es. \<exists>s. e = Stdout s) \<and>
    doit api os fd k = map_option (emit es)
      (if strcasecmp m ''GET'' then
         Some (bindE (clienterror os fd m ''501'' ''Not implemented''
           ''Tiny does not implement this method'') (\<lambda>_. Ret [] k'))
       else bindO (read_requesthdrs api rio k') (\<lambda>(rio, k).
         Some (bindE (doit_respond os fd u) (\<lambda>_. Ret [] k))))"
proof -
  let ?l = "m @ '' '' @ u @ '' '' @ v @ [CR]"
  let ?es = "[Stdout (''Request headers: '' @ [LF]), Stdout (?l @ [LF])]"
  have "wire k fd = ?l @ LF # hdrs" "LF \<notin> set ?l" "length ?l < 8191"
    using w len word_token_noLF(1) [OF t(1)] word_token_noLF(1) [OF t(2)] word_token_noLF(1) [OF t(3)]
    by simp_all
  from request_line_read [OF R this] obtain rio k' where
    rd: "readlineb api (readinitb api fd) k 8192 = (Line (?l @ [LF]), rio, k')"
    and p: "pending rio k' = hdrs" by auto
  have c: "cstr (?l @ [LF]) = ?l @ [LF]"
    using word_token_noLF(2) [OF t(1)] word_token_noLF(2) [OF t(2)] word_token_noLF(2) [OF t(3)]
    by (intro cstr_no_nul) auto
  have s: "sscanf3 (?l @ [LF]) = (Some m, Some u, Some v)"
    using sscanf3_request_line [of m u v] t by (simp add: word_token_def list_all_iff)
  have "doit api os fd k = map_option (emit ?es)
      (if strcasecmp m ''GET'' then
         Some (bindE (clienterror os fd m ''501'' ''Not implemented''
           ''Tiny does not implement this method'') (\<lambda>_. Ret [] k'))
       else bindO (read_requesthdrs api rio k') (\<lambda>(rio, k).
         Some (bindE (doit_respond os fd u) (\<lambda>_. Ret [] k))))"
    using rd c s by (simp add: doit_def)
  then show ?thesis using p by (intro exI [of _ ?es] exI [of _ rio] exI [of _ k']) simp
qed

lemma doit_get_prints:
  assumes "rio_reader api fd_of pending wire"
    and "wire k fd = m @ '' '' @ u @ '' '' @ v @ crlf @ hdrs"
    and "word_token m" and "word_token u" and "word_token v" and "length (m @ u @ v) < 8188"
    and "\<not> strcasecmp m ''GET''" and "length u \<le> 8181" and "after_headers hdrs = Some rest"
  shows "\<exists>es k'. doit api os fd k =
      Some (emit es (bindE (perform os fd (decide os u)) (\<lambda>_. Ret [] k'))) \<and> (\<forall>e \<in> set es. \<exists>s. e = Stdout s)"
proof -
  obtain es rio k1 where p: "pending rio k1 = hdrs" "\<forall>e \<in> set es. \<exists>s. e = Stdout s"
    and d: "doit api os fd k = map_option (emit es) (bindO (read_requesthdrs api rio k1)
        (\<lambda>(rio, k). Some (bindE (doit_respond os fd u) (\<lambda>_. Ret [] k))))"
    using doit_request_line [OF assms(1-6), of os] assms(7) by auto
  have "after_headers (pending rio k1) = Some rest" using assms(9) p(1) by simp
  from rio_reader.read_requesthdrs_returns [OF assms(1) this]
  obtain es' rp' k' where h: "read_requesthdrs api rio k1 = Some (Ret es' (rp', k'))"
    and pr: "\<forall>e \<in> set es'. \<exists>s. e = Stdout s" by auto
  have "doit_respond os fd u = perform os fd (decide os u)"
    using assms(4,8) by (intro doit_respond_decide) (auto simp: word_token_def)
  then show ?thesis using d h p(2) pr
    by (intro exI [of _ "es @ es'"] exI [of _ k']) auto
qed

lemma doit_get:
  assumes "rio_reader api fd_of pending wire"
    and "wire k fd = m @ '' '' @ u @ '' '' @ v @ crlf @ hdrs"
    and "word_token m" and "word_token u" and "word_token v" and "length (m @ u @ v) < 8188"
    and "\<not> strcasecmp m ''GET''" and "length u \<le> 8181" and "after_headers hdrs = Some rest"
  shows "\<exists>es k'. doit api os fd k =
      Some (emit es (bindE (perform os fd (decide os u)) (\<lambda>_. Ret [] k'))) \<and> sent fd es = []"
  using doit_get_prints [OF assms, of os] by (auto simp: sent_prints)


text \<open>A request with any other method is answered with 501 and the method's name, from the
  request line alone: no header is read and no file is looked at (the answers of \<open>stat\<close> do not
  matter).\<close>

theorem doit_rejects_other_methods:
  assumes "rio_reader api fd_of pending wire"
    and "wire k fd = m @ '' '' @ u @ '' '' @ v @ crlf @ hdrs"
    and "word_token m" and "word_token u" and "word_token v" and "length (m @ u @ v) < 8000"
    and "strcasecmp m ''GET''" and "\<And>bs. conn_up os fd bs"
  shows "\<exists>es k'. doit api os fd k = Some (Ret es k') \<and>
    sent fd es = error_head ''501'' ''Not implemented''
        (length (error_body m ''501'' ''Not implemented'' ''Tiny does not implement this method'')) @
      error_body m ''501'' ''Not implemented'' ''Tiny does not implement this method'' \<and>
    (\<forall>path srcfd. Opened path srcfd \<notin> set es)"
proof -
  have len: "length (m @ u @ v) < 8188" using assms(6) by simp
  from doit_request_line [OF assms(1-5) len, of os] assms(7) obtain es k' where
    es: "\<forall>e \<in> set es. \<exists>s. e = Stdout s" and
    d: "doit api os fd k = Some (emit es (bindE (clienterror os fd m ''501'' ''Not implemented''
           ''Tiny does not implement this method'') (\<lambda>_. Ret [] k')))" by auto
  have op: "sent fd es = []" "\<forall>path srcfd. Opened path srcfd \<notin> set es"
    using es by (auto simp: sent_prints)
  have "length (error_body m ''501'' ''Not implemented'' ''Tiny does not implement this method'') < 8192"
    using assms(6) by (simp add: length_error_body)
  from clienterror_sends [OF this _ assms(8)] obtain es' where
    c: "clienterror os fd m ''501'' ''Not implemented'' ''Tiny does not implement this method'' = Ret es' ()"
      "sent fd es' = error_head ''501'' ''Not implemented''
        (length (error_body m ''501'' ''Not implemented'' ''Tiny does not implement this method'')) @
        error_body m ''501'' ''Not implemented'' ''Tiny does not implement this method''"
      "\<forall>e \<in> set es'. \<exists>bs. e = Writen fd bs" by auto
  show ?thesis using d c op by (intro exI [of _ "es @ es'"] exI [of _ k']) auto
qed

definition get_request :: bytes where
  "get_request = ''GET'' @ '' '' @ ''/a.gif'' @ '' '' @ ''HTTP/1.0'' @ crlf @ crlf"

lemma after_headers_blank: "after_headers (crlf @ rest) = Some rest"
proof -
  have "take_line 8191 (crlf @ rest) = crlf" using take_line_line [of "[CR]" 8191 rest] by simp
  then show ?thesis by (simp add: after_headers.simps)
qed


theorem doit_rejects_other_methods_witness:
  "\<exists>es k'. doit rio_ref os_example 4 (on_wire 4 (''PUT /a.gif HTTP/1.0'' @ crlf)) = Some (Ret es k')"
proof -
  let ?k = "on_wire 4 (''PUT /a.gif HTTP/1.0'' @ crlf)"
  have w: "concat (?k 4) = ''PUT'' @ '' '' @ ''/a.gif'' @ '' '' @ ''HTTP/1.0'' @ crlf @ ''''"
    by simp
  have t: "word_token ''PUT''" "word_token ''/a.gif''" "word_token ''HTTP/1.0''"
    by (simp_all add: word_token_def isspace_def)
  have n: "strcasecmp ''PUT'' ''GET''" by (simp add: strcasecmp_def tolower_def)
  have up: "\<And>bs. conn_up os_example 4 bs" by (simp add: os_example_def)
  show ?thesis
    using doit_rejects_other_methods [OF ref.rio_reader_axioms, where k = ?k and fd = 4,
        OF w t _ n up]
    by auto
qed

text \<open>The handler never checks what \<open>sscanf\<close> assigned: a client that connects and closes, or
  whose first line is blank, makes it read an array that was never written.\<close>

theorem doit_blank_request_undefined:
  assumes "rio_reader api fd_of pending wire"
    and "wire k fd = [] \<or> (\<exists>rest. wire k fd = crlf @ rest)"
  shows "\<exists>es. doit api os fd k = Some (Undef es BadRead)"
  using assms(2)
proof
  assume "wire k fd = []"
  then have p: "pending (readinitb api fd) k = []"
    by (simp add: rio_reader.init_pending [OF assms(1)])
  from rio_reader.eof [OF assms(1) _ p, of 8192] show ?thesis by (auto simp: doit_def)
next
  assume "\<exists>rest. wire k fd = crlf @ rest"
  then obtain rest where "wire k fd = [CR] @ LF # rest" by auto
  from request_line_read [OF assms(1) this] obtain rio k' where
    rd: "readlineb api (readinitb api fd) k 8192 = (Line [CR, LF], rio, k')" by auto
  have "sscanf3 [CR, LF] = (None, None, None)"
    by (simp add: sscanf3_def scan_word_None [THEN iffD2] isspace_def)
  then show ?thesis by (simp add: doit_def rd)
qed

theorem doit_blank_request_undefined_witness:
  "\<exists>es. doit rio_ref os_example 4 (on_wire 4 '''') = Some (Undef es BadRead)"
  using doit_blank_request_undefined [OF ref.rio_reader_axioms, of "on_wire 4 ''''" 4 os_example] by simp

text \<open>A program is only ever executed for a URI that names \<open>cgi-bin\<close>, and then it is the
  regular, owner-executable file the URI's path decodes to, with the URI's arguments.\<close>

theorem doit_respond_runs_only_cgi:
  assumes "uri \<noteq> []" and "length uri \<le> 8181"
    and "Forked ch \<in> set (trace_of (doit_respond os fd uri))"
  shows "sublist ''cgi-bin'' uri \<and>
    (\<exists>mode sz. stat_file os (''.'' @ takeWhile (\<lambda>c. c \<noteq> CHR ''?'') uri) = Some (mode, sz) \<and>
       S_ISREG mode \<and> S_IXUSR AND mode \<noteq> 0) \<and>
    Setenv ''QUERY_STRING'' (tl (dropWhile (\<lambda>c. c \<noteq> CHR ''?'') uri)) \<in> set ch"
proof -
  have eq: "doit_respond os fd uri = perform os fd (decide os uri)"
    by (rule doit_respond_decide [OF assms(1,2)])
  have ce: "Forked ch \<notin> set (trace_of (clienterror os fd c e s l))" for c e s l
    by (auto simp: clienterror_def sprintf_def strcpy_def Rio_writen_def)
  have ss: "Forked ch \<notin> set (trace_of (serve_static os fd p (to_int32 n)))" for p n
    using to_int32_range [of n]
    by (auto simp: serve_static_unfold Open_def Mmap_def Munmap_def Close_def Rio_writen_def
        split: option.splits)
  have sd: "ch = serve_dynamic_child os fd p args"
    if "Forked ch \<in> set (trace_of (serve_dynamic os fd p args))" for p args
    using that by (auto simp: serve_dynamic_def sprintf_def Rio_writen_def split: if_splits)
  show ?thesis
    using assms(3) unfolding eq decide_def
    by (auto simp: ce ss uri_spec_def serve_dynamic_child_def dest!: sd split: option.splits if_splits)
qed

theorem doit_respond_runs_only_cgi_witness:
  "sublist ''cgi-bin'' ''/cgi-bin/adder?1&2'' \<and>
   (\<exists>ch. Forked ch \<in> set (trace_of (doit_respond os_example 4 ''/cgi-bin/adder?1&2'')))"
proof -
  have s: "sublist ''cgi-bin'' ''/cgi-bin/adder?1&2''" by (simp add: sublist_Cons_right)
  have "decide os_example ''/cgi-bin/adder?1&2'' = Dynamic ''./cgi-bin/adder'' ''1&2''"
    by (simp add: decide_def uri_spec_def s os_example_def S_ISREG_def S_IXUSR_def)
  then have "doit_respond os_example 4 ''/cgi-bin/adder?1&2'' =
      serve_dynamic os_example 4 ''./cgi-bin/adder'' ''1&2''"
    by (simp add: doit_respond_decide)
  then have f: "Forked (serve_dynamic_child os_example 4 ''./cgi-bin/adder'' ''1&2'') \<in>
      set (trace_of (doit_respond os_example 4 ''/cgi-bin/adder?1&2''))"
    by (simp add: serve_dynamic_unfold os_example_def)
  then show ?thesis
    using doit_respond_runs_only_cgi [OF _ _ f] by auto
qed

section \<open>main\<close>

text \<open>
  What \<open>Accept\<close> and \<open>Getnameinfo\<close> answer in a turn of the loop. A client is a change of the outside world,
  by which its bytes get on the new connection, the descriptor of the connection, which may be one that
  was closed before, and its host and service name unless \<open>Getnameinfo\<close> fails. The wrappers exit on an error.
\<close>

datatype 'k accept_result = Client "'k \<Rightarrow> 'k" int "(string \<times> string) option" | Accept_Fails

text \<open>
  The accept loop over the answers it is given: a prefix of the infinite loop, after which the
  server waits in \<open>Accept\<close>.
\<close>

fun serve_conns :: "('r, 'k) rio_api \<Rightarrow> os \<Rightarrow> 'k accept_result list \<Rightarrow> 'k \<Rightarrow> 'k run option" where
  "serve_conns api os [] k = Some (Ret [] k)"
| "serve_conns api os (Accept_Fails # conns) k = Some (Exits [] WrapperError)"
| "serve_conns api os (Client arrive connfd None # conns) k = Some (Exits [Accepted connfd] WrapperError)"
| "serve_conns api os (Client arrive connfd (Some (hostname, port)) # conns) k =
     bindO (Some (Ret [Accepted connfd,
       Stdout (''Accepted connection from ('' @ hostname @ '', '' @ port @ '')'' @ [LF])] ())) (\<lambda>_.
     bindO (doit api os connfd (arrive k)) (\<lambda>k.
     bindO (Some (Close connfd)) (\<lambda>_.
     serve_conns api os conns k)))"

definition tiny_main ::
  "('r, 'k) rio_api \<Rightarrow> os \<Rightarrow> string list \<Rightarrow> 'k accept_result list \<Rightarrow> 'k \<Rightarrow> 'k run option" where
  "tiny_main api os argv conns k =
     (if length argv \<noteq> 2
      then Some (Exits [Stderr (''usage: '' @ hd argv @ '' <port>'' @ [LF])] (ExitStatus 1))
      else serve_conns api os conns k)"

lemma doit_respond_balanced: "doit_respond os fd uri = Ret es () \<Longrightarrow> balanced es"
proof -
  assume "doit_respond os fd uri = Ret es ()"
  then obtain es0 st path args uri' where p: "parse_uri uri = Ret es0 (st, path, args, uri')"
    by (auto simp: doit_respond_def bindE_eq_Ret_iff)
  with parse_uri_silent [OF p] \<open>doit_respond os fd uri = Ret es ()\<close> show "balanced es"
    by (auto simp: doit_respond_def split: option.splits if_splits
        dest: clienterror_balanced serve_static_balanced serve_dynamic_balanced)
qed

text \<open>What every read keeps, and every line printed, holds when the loop returns.\<close>

lemma hdr_loop_inv:
  assumes "hdr_loop api buf rp k es = Some (Ret us (rp', k'))" "J rp k es"
    and keep: "\<And>rp k es res rp' k' s. J rp k es \<Longrightarrow> readlineb api rp k MAXLINE = (res, rp', k') \<Longrightarrow>
      J rp' k' (es @ [Stdout s])"
  shows "J rp' k' us"
proof -
  let ?P = "\<lambda>api' buf rp k es y. api' = api \<longrightarrow> J rp k es \<longrightarrow>
    (\<forall>us rp' k'. y = Ret us (rp', k') \<longrightarrow> J rp' k' us)"
  have "?P api buf rp k es (Ret us (rp', k'))"
  proof (rule hdr_loop.raw_induct [where P = ?P, OF _ assms(1)])
    fix f :: "('a, 'b) rio_api \<Rightarrow> bytes \<Rightarrow> 'a \<Rightarrow> 'b \<Rightarrow> event list \<Rightarrow> ('a \<times> 'b) run option"
    fix api' buf rp k es y
    assume IH: "\<And>api' buf rp k es y. f api' buf rp k es = Some y \<Longrightarrow> ?P api' buf rp k es y"
      and eq: "(if cstr buf = crlf then Some (Ret es (rp, k))
        else case readlineb api' rp k MAXLINE of (res, rp', k') \<Rightarrow>
          (case res of
             Line l \<Rightarrow> f api' l rp' k' (es @ [Stdout (cstr l)])
           | Eof \<Rightarrow> f api' buf rp' k' (es @ [Stdout (cstr buf)])
           | ReadErr \<Rightarrow> Some (Exits es WrapperError))) = Some y"
    show "?P api' buf rp k es y"
      using eq by (auto split: if_splits prod.splits rl.splits dest!: IH dest: keep)
  qed
  with assms(2) show ?thesis by simp
qed

lemma hdr_loop_prints:
  "hdr_loop api buf rp k es = Some (Ret us x) \<Longrightarrow> \<forall>e \<in> set es. \<exists>s. e = Stdout s \<Longrightarrow>
   \<forall>e \<in> set us. \<exists>s. e = Stdout s"
  using hdr_loop_inv [of api buf rp k es us "fst x" "snd x" "\<lambda>rp k es. \<forall>e \<in> set es. \<exists>s. e = Stdout s"]
  by auto

lemma read_requesthdrs_balanced:
  "read_requesthdrs api rp k = Some (Ret es x) \<Longrightarrow> balanced es"
  by (rule balanced_prints)
    (auto simp: read_requesthdrs_def split: prod.splits rl.splits dest: hdr_loop_prints)

lemma doit_balanced: "doit api os fd k = Some (Ret es k') \<Longrightarrow> balanced es"
proof -
  assume d: "doit api os fd k = Some (Ret es k')"
  have pr: "balanced (Stdout a # Stdout b # es') \<longleftrightarrow> balanced es'" for a b es'
    by (simp add: balanced_def)
  show "balanced es"
    using d unfolding doit_def
    by (auto simp: bindO_Some_Ret_iff bindE_eq_Ret_iff emit_eq_Ret_iff pr
        intro!: balanced_append
        split: prod.splits rl.splits option.splits if_splits)
      (erule clienterror_balanced read_requesthdrs_balanced doit_respond_balanced)+
qed

text \<open>C32: no leak: over any number of connections the server serves and returns from, every
  descriptor it accepted or opened is closed as often as it was obtained, every mapping is released
  and every child is waited for.\<close>

theorem tiny_main_no_leak:
  assumes "tiny_main api os argv conns k = Some (Ret es k')"
  shows "balanced es"
proof -
  have "serve_conns api os conns k = Some (Ret es k') \<Longrightarrow> balanced es"
  proof (induction api os conns k arbitrary: es k' rule: serve_conns.induct)
    case (1 api os k)
    then show ?case by simp
  next
    case (4 api os arrive connfd hostname port conns k)
    from "4.prems" obtain es1 k1 es2 where "doit api os connfd (arrive k) = Some (Ret es1 k1)"
      "serve_conns api os conns k1 = Some (Ret es2 k')"
      "es = Accepted connfd # Stdout (''Accepted connection from ('' @ hostname @ '', '' @ port @ '')'' @ [LF]) #
         es1 @ [Closed connfd] @ es2"
      by (auto simp: bindO_Some_Ret_iff emit_eq_Ret_iff Close_def split: if_splits)
    then show ?case
      using balanced_append [OF balanced_conn [OF doit_balanced], of api os connfd "arrive k" es1 k1 es2] "4.IH"
      by simp
  qed simp_all
  with assms show ?thesis by (auto simp: tiny_main_def split: if_splits)
qed

theorem tiny_main_no_leak_witness:
  "\<exists>es k'. tiny_main rio_ref os_example [''tiny'', ''80''] [Client (\<lambda>k. k) 4 (Some (''localhost'', ''http''))]
      (on_wire 4 get_request) = Some (Ret es k') \<and> balanced es"
proof -
  have w: "concat (on_wire 4 get_request 4) =
      ''GET'' @ '' '' @ ''/a.gif'' @ '' '' @ ''HTTP/1.0'' @ crlf @ crlf"
    by (simp add: get_request_def)
  have t: "word_token ''GET''" "word_token ''/a.gif''" "word_token ''HTTP/1.0''"
    by (simp_all add: word_token_def isspace_def)
  have a: "after_headers crlf = Some []" using after_headers_blank [of "[]"] by simp
  obtain es k' where d: "doit rio_ref os_example 4 (on_wire 4 get_request) =
      Some (emit es (bindE (perform os_example 4 (decide os_example ''/a.gif'')) (\<lambda>_. Ret [] k')))"
    using doit_get [OF ref.rio_reader_axioms, where k = "on_wire 4 get_request" and fd = 4,
        OF w t _ _ _ a, of os_example]
    by (auto simp: strcasecmp_def)
  have dec: "decide os_example ''/a.gif'' = Static ''./a.gif'' 5"
    by (simp add: decide_def uri_spec_def sublist_Cons_right os_example_def S_ISREG_def S_IRUSR_def)
  have "\<exists>es'. perform os_example 4 (decide os_example ''/a.gif'') = Ret es' ()"
    by (simp add: dec to_int32_id serve_static_unfold Open_def Mmap_def Munmap_def
        Close_def to_size_t_def)
  with d obtain es' where m: "tiny_main rio_ref os_example [''tiny'', ''80''] [Client (\<lambda>k. k) 4 (Some (''localhost'', ''http''))]
      (on_wire 4 get_request) = Some (Ret es' k')"
    by (auto simp: tiny_main_def Close_def)
  show ?thesis using m tiny_main_no_leak [OF m] by auto
qed

end
