(* ===== verification/TinySessions.thy ===== *)
theory TinySessions
  imports TinyServer
begin

text \<open>
  The Tiny web server over many connections: the handler reads only the connection it was given
  and writes only to it, so a run of \<open>main\<close> gives every client what \<open>doit\<close> alone would give it.
\<close>

section \<open>Reading leaves the other connections alone\<close>

context rio_reader
begin

lemma hdr_loop_frame:
  assumes "hdr_loop api buf rp k es = Some (Ret us (rp', k'))" "fd \<noteq> fd_of rp"
  shows "wire k' fd = wire k fd"
proof -
  have "fd_of rp' = fd_of rp \<and> wire k' fd = wire k fd"
    by (rule hdr_loop_inv [where J = "\<lambda>r l es. fd_of r = fd_of rp \<and> wire l fd = wire k fd", OF assms(1)])
      (use assms(2) in \<open>auto dest: fd_kept frame\<close>)
  then show ?thesis by simp
qed

lemma read_requesthdrs_frame:
  assumes "read_requesthdrs api rp k = Some (Ret es (rp', k'))" "fd \<noteq> fd_of rp"
  shows "wire k' fd = wire k fd"
  using assms fd_kept frame
  by (fastforce simp: read_requesthdrs_def split: prod.splits rl.splits dest: hdr_loop_frame)

lemma doit_frame:
  assumes "doit api os fd k = Some (Ret es k')" "fd' \<noteq> fd"
  shows "wire k' fd' = wire k fd'"
proof -
  obtain res rio k1 where r: "readlineb api (readinitb api fd) k MAXLINE = (res, rio, k1)"
    by (metis prod_cases3)
  have k1: "wire k1 fd' = wire k fd'" and rio: "fd' \<noteq> fd_of rio"
    using frame [OF r] fd_kept [OF r] init_fd [of fd] assms(2) by auto
  have hdr: "wire k2 fd' = wire k fd'" if "read_requesthdrs api rio k1 = Some (Ret us (r2, k2))" for us r2 k2
    using read_requesthdrs_frame [OF that rio] k1 by simp
  show ?thesis
    using assms(1) r k1
    by (auto simp: doit_def bindO_Some_Ret_iff bindE_eq_Ret_iff emit_eq_Ret_iff
        split: prod.splits rl.splits option.splits if_splits) (erule hdr)
qed

end

section \<open>Writing leaves the other connections alone\<close>

lemma sent_other_writes: "\<forall>e \<in> set es. \<exists>bs. e = Writen fd bs \<Longrightarrow> fd' \<noteq> fd \<Longrightarrow> sent fd' es = []"
  by (induction es) auto

lemma clienterror_other: "clienterror os fd c n s l = Ret es () \<Longrightarrow> fd' \<noteq> fd \<Longrightarrow> sent fd' es = []"
  by (drule clienterror_shape) (rule sent_other_writes)

lemma serve_static_other:
  "serve_static os fd filename (to_int32 sz) = Ret es () \<Longrightarrow> fd' \<noteq> fd \<Longrightarrow> sent fd' es = []"
  using to_int32_range [of sz]
  by (auto simp: serve_static_unfold Open_def Mmap_def Munmap_def Close_def Rio_writen_def
      bindE_eq_Ret_iff emit_eq_Ret_iff split: option.splits if_splits)

lemma serve_dynamic_other:
  "serve_dynamic os fd filename cgiargs = Ret es () \<Longrightarrow> fd' \<noteq> fd \<Longrightarrow> sent fd' es = []"
  by (auto simp: serve_dynamic_def serve_dynamic_child_def sprintf_def Rio_writen_def bindE_eq_Ret_iff
      split: if_splits option.splits)

lemmas respond_other = clienterror_other serve_static_other serve_dynamic_other

lemma perform_other: "perform os fd resp = Ret es () \<Longrightarrow> fd' \<noteq> fd \<Longrightarrow> sent fd' es = []"
  by (cases resp) (auto dest: respond_other)

section \<open>A whole session\<close>

text \<open>A well-formed GET request for a URI.\<close>

definition get_for :: "string \<Rightarrow> bytes \<Rightarrow> bool" where
  "get_for u bs \<longleftrightarrow> (\<exists>m v hdrs rest. bs = m @ '' '' @ u @ '' '' @ v @ crlf @ hdrs \<and>
     word_token m \<and> word_token u \<and> word_token v \<and> length (m @ u @ v) < 8188 \<and> length u \<le> 8181 \<and>
     \<not> strcasecmp m ''GET'' \<and> after_headers hdrs = Some rest)"

lemma doit_get_for:
  assumes "rio_reader api fd_of pending wire" "get_for u (wire k fd)"
    and "perform os fd (decide os u) = Ret out ()"
  obtains es k' where "doit api os fd k = Some (Ret es k')" "sent fd es = sent fd out"
    "\<And>fd'. fd' \<noteq> fd \<Longrightarrow> sent fd' es = [] \<and> wire k' fd' = wire k fd'"
proof -
  from assms(2) obtain m v hdrs rest where
    w: "wire k fd = m @ '' '' @ u @ '' '' @ v @ crlf @ hdrs" "word_token m" "word_token u" "word_token v"
      "length (m @ u @ v) < 8188" "length u \<le> 8181" "\<not> strcasecmp m ''GET''" "after_headers hdrs = Some rest"
    by (auto simp: get_for_def)
  from doit_get_prints [OF assms(1) w(1-5,7,6,8), of os] assms(3) obtain es k' where
    d: "doit api os fd k = Some (Ret (es @ out) k')" and pr: "\<forall>e \<in> set es. \<exists>s. e = Stdout s" by auto
  show thesis
  proof (rule that [OF d])
    show "sent fd (es @ out) = sent fd out" using pr by (simp add: sent_prints)
    show "sent fd' (es @ out) = [] \<and> wire k' fd' = wire k fd'" if "fd' \<noteq> fd" for fd'
      using rio_reader.doit_frame [OF assms(1) d that] perform_other [OF assms(3) that] pr
      by (simp add: sent_prints)
  qed
qed

text \<open>
  A number of clients, with what the answers to \<open>Accept\<close> and \<open>Getnameinfo\<close> are for each: \<open>main\<close> closes a connection
  before it accepts the next, so the descriptors may be, and on a real system are, the same number again.
  A turn of the loop leaves a trace of its own, what the handler did between \<open>Accept\<close> and \<open>Close\<close>.
\<close>

definition client_turn :: "int \<Rightarrow> string \<Rightarrow> string \<Rightarrow> event list \<Rightarrow> event list" where
  "client_turn fd host port es =
     [Accepted fd, Stdout (''Accepted connection from ('' @ host @ '', '' @ port @ '')'' @ [LF])] @ es @ [Closed fd]"

text \<open>What a turn must have done for a client.\<close>

definition turn_answers :: "int \<Rightarrow> event list \<Rightarrow> event list \<Rightarrow> bool" where
  "turn_answers fd out es \<longleftrightarrow> sent fd es = sent fd out \<and> (\<forall>fd'. fd' \<noteq> fd \<longrightarrow> sent fd' es = [])"

lemma serve_conns_all:
  assumes R: "rio_reader api fd_of pending wire"
  shows "distinct cs \<Longrightarrow>
    (\<And>c. c \<in> set cs \<Longrightarrow> 0 \<le> fd c \<and> (\<forall>k. get_for (uri c) (wire (arrive c k) (fd c))) \<and>
       perform os (fd c) (decide os (uri c)) = Ret (out c) ()) \<Longrightarrow>
    \<exists>k' turn. serve_conns api os (map (\<lambda>c. Client (arrive c) (fd c) (Some (host c, port c))) cs) k =
        Some (Ret (concat (map (\<lambda>c. client_turn (fd c) (host c) (port c) (turn c)) cs)) k') \<and>
      (\<forall>c \<in> set cs. turn_answers (fd c) (out c) (turn c))"
proof (induction cs arbitrary: k)
  case (Cons c cs)
  have c: "0 \<le> fd c" "get_for (uri c) (wire (arrive c k) (fd c))" "perform os (fd c) (decide os (uri c)) = Ret (out c) ()"
    using Cons.prems(2) [of c] by simp_all
  obtain es k1 where d: "doit api os (fd c) (arrive c k) = Some (Ret es k1)" "turn_answers (fd c) (out c) es"
    by (rule doit_get_for [OF R c(2,3)]) (use turn_answers_def in blast)
  obtain k' turn where i: "serve_conns api os (map (\<lambda>c. Client (arrive c) (fd c) (Some (host c, port c))) cs) k1 =
        Some (Ret (concat (map (\<lambda>c. client_turn (fd c) (host c) (port c) (turn c)) cs)) k')"
      "\<forall>c \<in> set cs. turn_answers (fd c) (out c) (turn c)"
    using Cons.IH [of k1] Cons.prems by auto
  obtain f where f: "f c = es" "\<And>d. d \<in> set cs \<Longrightarrow> f d = turn d"
    using Cons.prems(1) by (intro that [of "turn(c := es)"]) auto
  have e: "map (\<lambda>d. client_turn (fd d) (host d) (port d) (f d)) cs =
      map (\<lambda>d. client_turn (fd d) (host d) (port d) (turn d)) cs"
    using f(2) by (simp cong: map_cong)
  show ?case
    by (rule exI [of _ k'], rule exI [of _ f])
      (use c(1) in \<open>simp add: e f d i Close_def client_turn_def [of "fd c"]\<close>)
qed simp

text \<open>C14: composition: whatever number of clients connect one after the other, each with a well-formed GET
  request (words and URI within their arrays, the headers ended by an empty line), on any descriptors (the number
  of a closed connection may come again), and the response that is decided on can be sent, \<open>main\<close> gets through
  all of them; the run is one turn after the other, each from \<open>Accept\<close> to \<open>Close\<close>, and in its turn a client is
  sent exactly the bytes of the response that the decision table gives for its own URI, and nothing is
  sent to anybody else.\<close>

theorem tiny_main_serves_all:
  assumes "rio_reader api fd_of pending wire" and "length argv = 2"
    and "\<And>i. i < n \<Longrightarrow> 0 \<le> fd i \<and> (\<forall>k. get_for (uri i) (wire (arrive i k) (fd i))) \<and>
      perform os (fd i) (decide os (uri i)) = Ret (out i) ()"
  shows "\<exists>k' turn. tiny_main api os argv (map (\<lambda>i. Client (arrive i) (fd i) (Some (host i, port i))) [0..<n]) k =
      Some (Ret (concat (map (\<lambda>i. client_turn (fd i) (host i) (port i) (turn i)) [0..<n])) k') \<and>
    (\<forall>i < n. sent (fd i) (turn i) = sent (fd i) (out i) \<and> (\<forall>fd'. fd' \<noteq> fd i \<longrightarrow> sent fd' (turn i) = []))"
proof -
  have "\<exists>k' turn. serve_conns api os (map (\<lambda>i. Client (arrive i) (fd i) (Some (host i, port i))) [0..<n]) k =
        Some (Ret (concat (map (\<lambda>i. client_turn (fd i) (host i) (port i) (turn i)) [0..<n])) k') \<and>
      (\<forall>i \<in> set [0..<n]. turn_answers (fd i) (out i) (turn i))"
    by (rule serve_conns_all [OF assms(1), where uri = uri]) (use assms(3) in auto)
  then show ?thesis using assms(2) by (fastforce simp: tiny_main_def turn_answers_def)
qed

lemma get_for_example: "get_for ''/a.gif'' get_request" "get_for ''/none'' (''GET /none HTTP/1.0'' @ crlf @ crlf)"
proof -
  have g: "\<not> strcasecmp ''GET'' ''GET''" by (simp add: strcasecmp_def)
  have a: "after_headers crlf = Some []" using after_headers_blank [of "[]"] by simp
  show "get_for ''/a.gif'' get_request"
    unfolding get_for_def get_request_def
    by (intro exI [of _ "''GET''"] exI [of _ "''HTTP/1.0''"] exI [of _ crlf] exI [of _ "[]"] conjI g a)
      (simp_all add: word_token_def isspace_def)
  show "get_for ''/none'' (''GET /none HTTP/1.0'' @ crlf @ crlf)"
    unfolding get_for_def
    by (intro exI [of _ "''GET''"] exI [of _ "''HTTP/1.0''"] exI [of _ crlf] exI [of _ "[]"] conjI g a)
      (simp_all add: word_token_def isspace_def)
qed

text \<open>Two clients on the same descriptor, one after the other: a file for the first, an error page for the second.\<close>

theorem tiny_main_serves_all_witness:
  "\<exists>k' turn pre. tiny_main rio_ref os_example [''tiny'', ''80'']
      [Client (\<lambda>k. k(4 := [get_request])) 4 (Some (''a'', ''http'')),
       Client (\<lambda>k. k(4 := [''GET /none HTTP/1.0'' @ crlf @ crlf])) 4 (Some (''a'', ''http''))] (\<lambda>_. []) =
     Some (Ret (client_turn 4 ''a'' ''http'' (turn 0) @ client_turn 4 ''a'' ''http'' (turn (1 :: nat))) k') \<and>
    sent 4 (turn 0) = pre @ ''GIF89'' \<and> take 12 (sent 4 (turn 1)) = ''HTTP/1.0 404''"
proof -
  let ?uri = "\<lambda>i. if i = (0 :: nat) then ''/a.gif'' else ''/none''"
  let ?req = "\<lambda>i. if i = (0 :: nat) then get_request else ''GET /none HTTP/1.0'' @ crlf @ crlf"
  let ?arrive = "\<lambda>i (k :: chunks). k(4 := [?req i])"
  have s: "decide os_example ''/a.gif'' = Static ''./a.gif'' 5" "decide os_example ''/none'' = NotFound ''./none''"
    by (simp_all add: decide_def uri_spec_def sublist_Cons_right os_example_def S_ISREG_def S_IRUSR_def)
  obtain out0 where o0: "perform os_example 4 (decide os_example ''/a.gif'') = Ret out0 ()"
      "sent 4 out0 = static_head ''./a.gif'' 5 @ ''GIF89''"
    by (simp add: s to_int32_id serve_static_unfold Open_def Mmap_def Munmap_def Close_def to_size_t_def)
  obtain out1 where o1: "perform os_example 4 (decide os_example ''/none'') = Ret out1 ()"
      "take 12 (sent 4 out1) = ''HTTP/1.0 404''"
    using clienterror_sends [of "''./none''" "''404''" "''Not Found''" "''Tiny couldn't find this file''" os_example 4]
    by (auto simp: s length_error_body error_head_def)
  let ?out = "\<lambda>i. if i = (0 :: nat) then out0 else out1"
  have ok: "0 \<le> (4 :: int) \<and> (\<forall>k. get_for (?uri i) (concat (?arrive i k 4))) \<and>
      perform os_example 4 (decide os_example (?uri i)) = Ret (?out i) ()" if "i < 2" for i
    using o0 o1 get_for_example by simp
  have two: "[0..<2] = [0, 1 :: nat]" by (simp add: upt_rec numeral_2_eq_2)
  obtain k' turn where t: "tiny_main rio_ref os_example [''tiny'', ''80'']
        (map (\<lambda>i. Client (?arrive i) 4 (Some (''a'', ''http''))) [0..<2]) (\<lambda>_. []) =
      Some (Ret (concat (map (\<lambda>i. client_turn 4 ''a'' ''http'' (turn i)) [0..<2])) k')"
    "\<forall>i < 2. sent 4 (turn i) = sent 4 (?out i) \<and> (\<forall>fd'. fd' \<noteq> 4 \<longrightarrow> sent fd' (turn i) = [])"
    using tiny_main_serves_all [where n = 2 and fd = "\<lambda>_. 4" and uri = ?uri and arrive = ?arrive and out = ?out
        and host = "\<lambda>_. ''a''" and port = "\<lambda>_. ''http''" and k = "\<lambda>_. []" and argv = "[''tiny'', ''80'']" and os = os_example,
        OF ref.rio_reader_axioms _ ok] by auto
  have "sent 4 (turn 0) = static_head ''./a.gif'' 5 @ ''GIF89''" "take 12 (sent 4 (turn 1)) = ''HTTP/1.0 404''"
    using t(2) o0(2) o1(2) by simp_all
  then show ?thesis using t(1) unfolding two
    by (intro exI [of _ k'] exI [of _ turn] exI [of _ "static_head ''./a.gif'' 5"]) simp
qed

end
