(* ===== verification/Systems.thy ===== *)
theory Systems
  imports Prelude
begin

text \<open>
  What the concurrent programs share: a step relation with an invariant and a measure. A program
  whose steps shorten the measure, and which is never stuck before it has finished, has no
  infinite run and always gets to its end.
\<close>

locale shrinking_system =
  fixes step :: "'s \<Rightarrow> 's \<Rightarrow> bool"
    and inv :: "'s \<Rightarrow> bool"
    and work :: "'s \<Rightarrow> nat"
  assumes inv_step: "inv s \<Longrightarrow> step s s' \<Longrightarrow> inv s'"
    and work_step: "inv s \<Longrightarrow> step s s' \<Longrightarrow> work s' < work s"
begin

lemma inv_steps: "step\<^sup>*\<^sup>* s s' \<Longrightarrow> inv s \<Longrightarrow> inv s'"
  by (induction rule: rtranclp_induct) (auto intro: inv_step)

lemma no_infinite_run:
  assumes "inv (f 0)"
  shows "\<not> (\<forall>k. step (f k) (f (Suc k)))"
proof
  assume r: "\<forall>k. step (f k) (f (Suc k))"
  have i: "inv (f k)" for k by (induction k) (use assms r inv_step in auto)
  have "work (f k) + k \<le> work (f 0)" for k
  proof (induction k)
    case (Suc k)
    then show ?case using work_step [OF i, of k "f (Suc k)"] r by simp
  qed simp
  from this [of "Suc (work (f 0))"] show False by simp
qed

lemma comes_to_rest: "inv s \<Longrightarrow> \<exists>s'. step\<^sup>*\<^sup>* s s' \<and> \<not> (\<exists>s''. step s' s'')"
proof (induction "work s" arbitrary: s rule: less_induct)
  case less
  show ?case
  proof (cases "\<exists>s'. step s s'")
    case True
    then obtain s' where "step s s'" by blast
    then show ?thesis using less.hyps [of s'] work_step inv_step less.prems
      by (meson converse_rtranclp_into_rtranclp)
  qed blast
qed

end

locale terminating_system = shrinking_system step inv work
  for step :: "'s \<Rightarrow> 's \<Rightarrow> bool" and inv :: "'s \<Rightarrow> bool" and work :: "'s \<Rightarrow> nat" +
  fixes finished :: "'s \<Rightarrow> bool"
  assumes progress: "inv s \<Longrightarrow> \<not> finished s \<Longrightarrow> \<exists>s'. step s s'"
begin

lemma inevitable: "inv s \<Longrightarrow> \<exists>s'. step\<^sup>*\<^sup>* s s' \<and> finished s' \<and> inv s'"
proof (induction "work s" arbitrary: s rule: less_induct)
  case less
  show ?case
  proof (cases "finished s")
    case False
    then obtain s' where "step s s'" using progress less.prems by blast
    then show ?thesis using less.hyps [of s'] work_step inv_step less.prems
      by (meson converse_rtranclp_into_rtranclp)
  qed (use less.prems in blast)
qed

end

end
