(* ===== verification/Pthreads.thy ===== *)
theory Pthreads
  imports Csapp Systems
begin

text \<open>
  Programs that start a fixed number of threads and wait for them: the two loops of \<open>main\<close>
  around \<open>Pthread_create\<close> and \<open>Pthread_join\<close>, and the steps of the threads between them, in
  any order. A program is a record: how many threads it starts, how many slots its arrays
  \<open>tid\<close> and \<open>myid\<close> have, what \<open>main\<close> writes before it creates thread \<open>i\<close>, the local state
  a thread starts in, one step of a thread (\<open>None\<close>: it is blocked or has returned) and the
  local states in which it has returned.

  Three locales state what a program has to provide and what it then gets: \<open>pt_inv\<close> (an
  invariant that creating a thread and each thread step keep holds in every reachable state),
  \<open>pt_term\<close> (steps that shorten a thread's remaining work leave no infinite run) and
  \<open>pt_live\<close> (if always some thread can move, only the end of the program is stuck).
\<close>

record ('sh, 'l) prog =
  nthreads :: nat
  maxthreads :: nat
  on_create :: "nat \<Rightarrow> 'sh \<Rightarrow> 'sh"
  start :: "nat \<Rightarrow> 'l"
  body :: "'sh \<Rightarrow> 'l \<Rightarrow> ('sh \<times> 'l) option"
  final :: "'l \<Rightarrow> bool"

datatype main_pc = Creating nat | Joining nat | Joined | Faulted

record ('sh, 'l) psys =
  shared :: 'sh
  thr :: "nat \<Rightarrow> 'l option"
  mpc :: main_pc

text \<open>
  \<open>create_oob\<close>: the loop of \<open>main\<close> writes \<open>myid[i]\<close> past the end of the array; what happens
  then is undefined.
\<close>

inductive pt_step :: "('sh, 'l) prog \<Rightarrow> ('sh, 'l) psys \<Rightarrow> ('sh, 'l) psys \<Rightarrow> bool"
  for p :: "('sh, 'l) prog" where
  create: "mpc s = Creating i \<Longrightarrow> i < nthreads p \<Longrightarrow> i < maxthreads p \<Longrightarrow>
     pt_step p s (s\<lparr>shared := on_create p i (shared s), thr := (thr s)(i \<mapsto> start p i),
       mpc := Creating (Suc i)\<rparr>)"
| create_oob: "mpc s = Creating i \<Longrightarrow> i < nthreads p \<Longrightarrow> \<not> i < maxthreads p \<Longrightarrow>
     pt_step p s (s\<lparr>mpc := Faulted\<rparr>)"
| created: "mpc s = Creating i \<Longrightarrow> \<not> i < nthreads p \<Longrightarrow> pt_step p s (s\<lparr>mpc := Joining 0\<rparr>)"
| join: "mpc s = Joining i \<Longrightarrow> i < nthreads p \<Longrightarrow> thr s i = Some l \<Longrightarrow> final p l \<Longrightarrow>
     pt_step p s (s\<lparr>mpc := Joining (Suc i)\<rparr>)"
| joined: "mpc s = Joining i \<Longrightarrow> \<not> i < nthreads p \<Longrightarrow> pt_step p s (s\<lparr>mpc := Joined\<rparr>)"
| run: "thr s i = Some l \<Longrightarrow> body p (shared s) l = Some (sh', l') \<Longrightarrow>
     pt_step p s (s\<lparr>shared := sh', thr := (thr s)(i \<mapsto> l')\<rparr>)"

inductive_cases pt_stepE [step_elims]: "pt_step p s s'"

definition pt_start :: "'sh \<Rightarrow> ('sh, 'l) psys" where
  "pt_start sh = \<lparr>shared = sh, thr = Map.empty, mpc = Creating 0\<rparr>"

inductive pt_reach :: "('sh, 'l) prog \<Rightarrow> 'sh \<Rightarrow> ('sh, 'l) psys \<Rightarrow> bool"
  for p :: "('sh, 'l) prog" and sh0 :: 'sh where
  init: "pt_reach p sh0 (pt_start sh0)"
| step: "pt_reach p sh0 s \<Longrightarrow> pt_step p s s' \<Longrightarrow> pt_reach p sh0 s'"

text \<open>
  How a run ends: when all threads are joined \<open>main\<close> makes its report on the shared variables
  and is over; after a write past its arrays nothing is known.
\<close>

inductive pt_outcome ::
  "('sh, 'l) prog \<Rightarrow> 'sh \<Rightarrow> ('sh \<Rightarrow> unit run) \<Rightarrow> unit run \<Rightarrow> bool"
  for p :: "('sh, 'l) prog" and sh0 :: 'sh and report :: "'sh \<Rightarrow> unit run" where
  exits: "pt_reach p sh0 s \<Longrightarrow> mpc s = Joined \<Longrightarrow>
     pt_outcome p sh0 report (report (shared s))"
| overruns: "pt_reach p sh0 s \<Longrightarrow> mpc s = Faulted \<Longrightarrow> pt_outcome p sh0 report (Undef [] Overrun)"

text \<open>Creating threads can always run ahead of them, up to the number of threads or of slots.\<close>

lemma reach_creating:
  "i \<le> nthreads p \<Longrightarrow> i \<le> maxthreads p \<Longrightarrow> \<exists>s. pt_reach p sh0 s \<and> mpc s = Creating i"
proof (induction i)
  case 0
  have "mpc (pt_start sh0) = Creating 0" by (simp add: pt_start_def)
  then show ?case using pt_reach.init [of p sh0] by blast
next
  case (Suc i)
  then obtain s where "pt_reach p sh0 s" "mpc s = Creating i" by auto
  with Suc.prems show ?case
    using pt_reach.step [OF _ pt_step.create [of s i p]] by fastforce
qed

lemma reach_faulted:
  assumes "maxthreads p < nthreads p"
  shows "\<exists>s. pt_reach p sh0 s \<and> mpc s = Faulted"
proof -
  obtain s where "pt_reach p sh0 s" "mpc s = Creating (maxthreads p)"
    using reach_creating [of "maxthreads p" p sh0] assms by auto
  with assms show ?thesis using pt_reach.step [OF _ pt_step.create_oob [of s "maxthreads p" p]] by fastforce
qed

text \<open>Which threads exist, and which of them \<open>main\<close> knows to have returned.\<close>

fun pt_control :: "('sh, 'l) prog \<Rightarrow> (nat \<Rightarrow> 'l option) \<Rightarrow> main_pc \<Rightarrow> bool" where
  "pt_control p t (Creating i) \<longleftrightarrow> i \<le> nthreads p \<and> i \<le> maxthreads p \<and> dom t = {..<i}"
| "pt_control p t (Joining i) \<longleftrightarrow> i \<le> nthreads p \<and> nthreads p \<le> maxthreads p \<and> dom t = {..<nthreads p} \<and>
     (\<forall>j < i. \<exists>l. t j = Some l \<and> final p l)"
| "pt_control p t Joined \<longleftrightarrow> nthreads p \<le> maxthreads p \<and> dom t = {..<nthreads p} \<and>
     (\<forall>j < nthreads p. \<exists>l. t j = Some l \<and> final p l)"
| "pt_control p t Faulted \<longleftrightarrow> maxthreads p < nthreads p \<and> dom t = {..<maxthreads p}"

locale pt_inv =
  fixes p :: "('sh, 'l) prog" and sh0 :: 'sh
    and I :: "'sh \<Rightarrow> (nat \<Rightarrow> 'l option) \<Rightarrow> bool"
  assumes inv_init: "I sh0 Map.empty"
    and inv_create: "I sh t \<Longrightarrow> dom t = {..<i} \<Longrightarrow> i < nthreads p \<Longrightarrow> i < maxthreads p \<Longrightarrow>
      I (on_create p i sh) (t(i \<mapsto> start p i))"
    and inv_body: "I sh t \<Longrightarrow> t i = Some l \<Longrightarrow> i < nthreads p \<Longrightarrow> i < maxthreads p \<Longrightarrow>
      body p sh l = Some (sh', l') \<Longrightarrow> I sh' (t(i \<mapsto> l'))"
    and final_stuck: "final p l \<Longrightarrow> body p sh l = None"
begin

lemma control_dom: "pt_control p t m \<Longrightarrow> t i = Some l \<Longrightarrow> i < nthreads p \<and> i < maxthreads p"
proof -
  assume c: "pt_control p t m" and "t i = Some l"
  then have "i \<in> dom t" by (auto intro: domI)
  with c show ?thesis by (cases m) (simp_all only: pt_control.simps lessThan_iff, auto)
qed

lemma control_body:
  assumes "pt_control p t m" "t i = Some l" "body p sh l = Some x"
  shows "pt_control p (t(i \<mapsto> l')) m"
proof -
  have nf: "\<not> final p l" using final_stuck assms(3) by force
  have keep: "\<exists>k. (t(i \<mapsto> l')) j = Some k \<and> final p k" if "\<exists>k. t j = Some k \<and> final p k" for j
    using that nf assms(2) by (cases "j = i") auto
  have dom: "dom (t(i \<mapsto> l')) = dom t" using assms(2) by (auto simp: domI)
  show ?thesis
  proof (cases m)
    case (Joining k)
    with assms(1) keep show ?thesis by (simp only: pt_control.simps dom) blast
  next
    case Joined
    with assms(1) keep show ?thesis by (simp only: pt_control.simps dom) blast
  qed (use assms(1) in \<open>simp_all only: pt_control.simps dom\<close>)
qed

lemma step_control:
  "pt_step p s s' \<Longrightarrow> pt_control p (thr s) (mpc s) \<Longrightarrow> pt_control p (thr s') (mpc s')"
proof (induction rule: pt_step.induct)
  case (run s i l sh' l')
  show ?case using control_body [OF run(3,1,2)] by (simp del: fun_upd_apply)
qed (auto simp: less_Suc_eq lessThan_Suc)

lemma step_inv:
  "pt_step p s s' \<Longrightarrow> pt_control p (thr s) (mpc s) \<Longrightarrow> I (shared s) (thr s) \<Longrightarrow> I (shared s') (thr s')"
proof (induction rule: pt_step.induct)
  case (run s i l sh' l')
  show ?case using inv_body [OF run(4,1) _ _ run(2)] control_dom [OF run(3,1)]
    by (simp del: fun_upd_apply)
qed (auto intro: inv_create)

lemma reach_inv: "pt_reach p sh0 s \<Longrightarrow> I (shared s) (thr s) \<and> pt_control p (thr s) (mpc s)"
proof (induction rule: pt_reach.induct)
  case init
  then show ?case by (simp add: pt_start_def inv_init)
next
  case (step s s')
  then show ?case using step_inv step_control by blast
qed

lemma joined_final:
  assumes "pt_reach p sh0 s" "mpc s = Joined"
  shows "I (shared s) (thr s)" "\<And>j. j < nthreads p \<Longrightarrow> \<exists>l. thr s j = Some l \<and> final p l"
    "nthreads p \<le> maxthreads p"
  using reach_inv [OF assms(1)] assms(2) by auto

lemma outcome_overrun:
  assumes "maxthreads p < nthreads p"
  shows "pt_outcome p sh0 report r \<longleftrightarrow> r = Undef [] Overrun"
proof
  show "pt_outcome p sh0 report r \<Longrightarrow> r = Undef [] Overrun"
    using assms by (auto elim!: pt_outcome.cases dest: joined_final)
  show "r = Undef [] Overrun \<Longrightarrow> pt_outcome p sh0 report r"
    using reach_faulted [OF assms, of sh0] by (auto intro: pt_outcome.overruns)
qed

end

text \<open>Without threads \<open>main\<close> runs through its loops and leaves the shared variables alone.\<close>

lemma no_threads_reach:
  "pt_reach p sh0 s \<Longrightarrow> nthreads p = 0 \<Longrightarrow>
   shared s = sh0 \<and> thr s = Map.empty \<and> mpc s \<in> {Creating 0, Joining 0, Joined}"
proof (induction rule: pt_reach.induct)
  case (step s s')
  from step.hyps(2) step.IH [OF step.prems] step.prems show ?case by cases auto
qed (simp add: pt_start_def)

lemma no_threads_outcome:
  assumes "nthreads p = 0"
  shows "pt_outcome p sh0 report r \<longleftrightarrow> r = report sh0"
proof
  show "pt_outcome p sh0 report r \<Longrightarrow> r = report sh0"
    using no_threads_reach [OF _ assms] by (fastforce elim!: pt_outcome.cases)
  let ?s = "pt_start sh0 :: ('a, 'b) psys"
  have "pt_step p ?s (?s\<lparr>mpc := Joining 0\<rparr>)"
    by (rule pt_step.created [of _ 0]) (simp_all add: assms pt_start_def)
  moreover have "pt_step p (?s\<lparr>mpc := Joining 0\<rparr>) (?s\<lparr>mpc := Joined\<rparr>)"
    using pt_step.joined [of "?s\<lparr>mpc := Joining 0\<rparr>" 0 p] by (simp add: assms)
  ultimately have "pt_reach p sh0 (?s\<lparr>mpc := Joined\<rparr>)"
    by (blast intro: pt_reach.init pt_reach.step)
  from pt_outcome.exits [OF this, of report]
  show "r = report sh0 \<Longrightarrow> pt_outcome p sh0 report r" by (simp add: pt_start_def)
qed

section \<open>Termination\<close>

fun main_left :: "nat \<Rightarrow> main_pc \<Rightarrow> nat" where
  "main_left n (Creating i) = (n - i) + n + 3"
| "main_left n (Joining i) = (n - i) + 1"
| "main_left n Joined = 0"
| "main_left n Faulted = 0"

locale pt_term = pt_inv p sh0 I
  for p :: "('sh, 'l) prog" and sh0 :: 'sh and I +
  fixes left :: "'l \<Rightarrow> nat"
  assumes body_left: "I sh t \<Longrightarrow> t i = Some l \<Longrightarrow> body p sh l = Some (sh', l') \<Longrightarrow> left l' < left l"
begin

definition thr_left :: "(nat \<Rightarrow> 'l option) \<Rightarrow> nat \<Rightarrow> nat" where
  "thr_left t i = (case t i of None \<Rightarrow> Suc (left (start p i)) | Some l \<Rightarrow> left l)"

definition work :: "('sh, 'l) psys \<Rightarrow> nat" where
  "work s = main_left (nthreads p) (mpc s) + (\<Sum>i < nthreads p. thr_left (thr s) i)"

lemma thr_left_less:
  assumes "i < n" "thr_left t' i < thr_left t i" "\<And>j. j \<noteq> i \<Longrightarrow> thr_left t' j = thr_left t j"
  shows "(\<Sum>j < n. thr_left t' j) < (\<Sum>j < n. thr_left t j)"
  by (rule sum_strict_mono_ex1) (use assms in \<open>auto, metis order_refl less_imp_le\<close>)

lemma step_work:
  assumes "pt_step p s s'" "pt_control p (thr s) (mpc s)" "I (shared s) (thr s)"
  shows "work s' < work s"
  using assms
proof (induction rule: pt_step.induct)
  case (create s i)
  have "(\<Sum>j < nthreads p. thr_left ((thr s)(i \<mapsto> start p i)) j) < (\<Sum>j < nthreads p. thr_left (thr s) j)"
  proof (rule thr_left_less [OF create(2)])
    have "thr s i = None" using create(1,4) by (auto simp: dom_def set_eq_iff)
    then show "thr_left ((thr s)(i \<mapsto> start p i)) i < thr_left (thr s) i" by (simp add: thr_left_def)
  qed (simp add: thr_left_def)
  then show ?case using create(1) by (simp add: work_def)
next
  case (run s i l sh' l')
  have i: "i < nthreads p" using control_dom [OF run(3) run(1)] by simp
  have "(\<Sum>j < nthreads p. thr_left ((thr s)(i \<mapsto> l')) j) < (\<Sum>j < nthreads p. thr_left (thr s) j)"
    by (rule thr_left_less [OF i]) (use run body_left in \<open>auto simp: thr_left_def\<close>)
  then show ?case by (simp add: work_def)
qed (simp_all add: work_def)

definition sys_inv :: "('sh, 'l) psys \<Rightarrow> bool" where
  "sys_inv s \<longleftrightarrow> I (shared s) (thr s) \<and> pt_control p (thr s) (mpc s)"

lemma sys_inv_reach: "pt_reach p sh0 s \<Longrightarrow> sys_inv s"
  using reach_inv by (simp add: sys_inv_def)

end

sublocale pt_term \<subseteq> sys: shrinking_system "pt_step p" sys_inv work
  by unfold_locales (auto simp: sys_inv_def intro: step_inv step_control step_work)

context pt_term
begin

lemma no_infinite_run:
  assumes "pt_reach p sh0 (f 0)" "\<And>k. pt_step p (f k) (f (Suc k))"
  shows False
  using sys.no_infinite_run [of f, OF sys_inv_reach [OF assms(1)]] assms(2) by blast

end

section \<open>Progress\<close>

locale pt_live = pt_term p sh0 I left
  for p :: "('sh, 'l) prog" and sh0 :: 'sh and I and left +
  assumes live: "I sh t \<Longrightarrow> t i = Some l \<Longrightarrow> \<not> final p l \<Longrightarrow>
    \<exists>j k. t j = Some k \<and> body p sh k \<noteq> None"
begin

lemma stuck_joined:
  assumes "sys_inv s" "nthreads p \<le> maxthreads p" "\<nexists>s'. pt_step p s s'"
  shows "mpc s = Joined"
proof (cases "mpc s")
  case (Creating i)
  then have "\<exists>s'. pt_step p s s'"
    using pt_step.create [of s i p] pt_step.created [of s i p] assms(2) by (cases "i < nthreads p") auto
  with assms(3) show ?thesis by blast
next
  case (Joining i)
  show ?thesis
  proof (cases "i < nthreads p")
    case True
    from assms(1) Joining True obtain l where l: "thr s i = Some l"
      by (auto simp: sys_inv_def dom_def set_eq_iff)
    show ?thesis
    proof (cases "final p l")
      case True
      then show ?thesis using pt_step.join [OF Joining \<open>i < nthreads p\<close> l] assms(3) by blast
    next
      case False
      from live [OF conjunct1 [OF assms(1) [unfolded sys_inv_def]] l False]
      obtain j k where "thr s j = Some k" "body p (shared s) k \<noteq> None" by blast
      then show ?thesis using pt_step.run [of s j k p] assms(3) by fastforce
    qed
  next
    case False
    then show ?thesis using pt_step.joined [OF Joining False] assms(3) by blast
  qed
next
  case Faulted
  then show ?thesis using assms(1,2) by (simp add: sys_inv_def)
qed simp

end

text \<open>A run that cannot end in an overrun of the arrays ends with all threads joined.\<close>

sublocale pt_live \<subseteq> fin: terminating_system "pt_step p" "\<lambda>s. sys_inv s \<and> nthreads p \<le> maxthreads p" work
  "\<lambda>s. mpc s = Joined"
proof
  fix s s' assume i: "sys_inv s \<and> nthreads p \<le> maxthreads p" and st: "pt_step p s s'"
  show "sys_inv s' \<and> nthreads p \<le> maxthreads p"
    using sys.inv_step [OF conjunct1 [OF i] st] conjunct2 [OF i] by (rule conjI)
  show "work s' < work s" by (rule sys.work_step [OF conjunct1 [OF i] st])
next
  fix s assume "sys_inv s \<and> nthreads p \<le> maxthreads p" "mpc s \<noteq> Joined"
  then show "\<exists>s'. pt_step p s s'" by (metis stuck_joined)
qed

lemma reach_steps: "(pt_step p)\<^sup>*\<^sup>* s s' \<Longrightarrow> pt_reach p sh0 s \<Longrightarrow> pt_reach p sh0 s'"
  by (induction rule: rtranclp_induct) (auto intro: pt_reach.step)

context pt_live
begin

lemma inevitable:
  assumes "pt_reach p sh0 s" "nthreads p \<le> maxthreads p"
  shows "\<exists>s'. pt_reach p sh0 s' \<and> (pt_step p)\<^sup>*\<^sup>* s s' \<and> mpc s' = Joined"
proof -
  obtain s' where "(pt_step p)\<^sup>*\<^sup>* s s'" "mpc s' = Joined"
    using fin.inevitable [OF conjI [OF sys_inv_reach [OF assms(1)] assms(2)]] by auto
  then show ?thesis using reach_steps [OF _ assms(1)] by blast
qed

lemma outcome_report:
  assumes "nthreads p \<le> maxthreads p"
    and "\<And>s. pt_reach p sh0 s \<Longrightarrow> mpc s = Joined \<Longrightarrow> report (shared s) = res"
  shows "pt_outcome p sh0 report r \<longleftrightarrow> r = res"
proof
  show "pt_outcome p sh0 report r \<Longrightarrow> r = res"
    using assms reach_inv by (fastforce elim!: pt_outcome.cases)
  obtain s where "pt_reach p sh0 s" "mpc s = Joined"
    using inevitable [OF pt_reach.init assms(1)] by blast
  with pt_outcome.exits [OF this, of report] assms(2)
  show "r = res \<Longrightarrow> pt_outcome p sh0 report r" by auto
qed

lemma outcome_at:
  assumes "\<And>s. nthreads p \<le> maxthreads p \<Longrightarrow> pt_reach p sh0 s \<Longrightarrow> mpc s = Joined \<Longrightarrow> report (shared s) = res"
  shows "pt_outcome p sh0 report r \<longleftrightarrow> r = (if nthreads p \<le> maxthreads p then res else Undef [] Overrun)"
  using outcome_report [of report res r] outcome_overrun [of report r] assms by auto

end

section \<open>Sums over threads\<close>

definition tsum :: "(nat \<Rightarrow> 'l \<Rightarrow> int) \<Rightarrow> (nat \<Rightarrow> 'l option) \<Rightarrow> nat \<Rightarrow> int" where
  "tsum f t n = (\<Sum>i < n. case t i of None \<Rightarrow> 0 | Some l \<Rightarrow> f i l)"

lemma tsum_empty [simp]: "tsum f Map.empty n = 0"
  by (simp add: tsum_def)

lemma tsum_upd:
  assumes "i < n"
  shows "tsum f (t(i \<mapsto> l)) n = tsum f t n - (case t i of None \<Rightarrow> 0 | Some k \<Rightarrow> f i k) + f i l"
proof -
  have "tsum f u n = (case u i of None \<Rightarrow> 0 | Some k \<Rightarrow> f i k) +
      (\<Sum>j \<in> {..<n} - {i}. case u j of None \<Rightarrow> 0 | Some k \<Rightarrow> f j k)" for u
    using assms by (simp add: tsum_def sum.remove)
  moreover have "(\<Sum>j \<in> {..<n} - {i}. case (t(i \<mapsto> l)) j of None \<Rightarrow> 0 | Some k \<Rightarrow> f j k) =
      (\<Sum>j \<in> {..<n} - {i}. case t j of None \<Rightarrow> 0 | Some k \<Rightarrow> f j k)"
    by (rule sum.cong) auto
  ultimately show ?thesis by simp
qed

lemma tsum_ge:
  assumes "i < n" "t i = Some l" "\<And>j k. 0 \<le> f j k"
  shows "f i l \<le> tsum f t n"
proof -
  have "f i l = (case t i of None \<Rightarrow> 0 | Some k \<Rightarrow> f i k)" using assms(2) by simp
  also have "\<dots> \<le> tsum f t n"
    unfolding tsum_def using assms(1,3) by (intro member_le_sum) (auto split: option.split)
  finally show ?thesis .
qed

lemma tsum_pos:
  assumes "0 < tsum f t n"
  shows "\<exists>i l. t i = Some l \<and> f i l \<noteq> 0"
proof (rule ccontr)
  assume "\<not> (\<exists>i l. t i = Some l \<and> f i l \<noteq> 0)"
  then have "tsum f t n = 0" unfolding tsum_def by (intro sum.neutral) (auto split: option.split)
  with assms show False by simp
qed

text \<open>The sum of the integers from \<open>a\<close> up to, not including, \<open>b\<close>.\<close>

definition range_sum :: "int \<Rightarrow> int \<Rightarrow> int" where
  "range_sum a b = (\<Sum>k \<in> {a..<b}. k)"

lemma range_sum_empty [simp]: "b \<le> a \<Longrightarrow> range_sum a b = 0"
  by (simp add: range_sum_def)

lemma range_sum_Suc: "a \<le> b \<Longrightarrow> range_sum a (b + 1) = range_sum a b + b"
proof -
  assume "a \<le> b"
  then have "{a..<b + 1} = insert b {a..<b}" by auto
  then show ?thesis by (simp add: range_sum_def)
qed

lemma range_sum_append:
  assumes "a \<le> b" "b \<le> c"
  shows "range_sum a b + range_sum b c = range_sum a c"
proof -
  have "{a..<c} = {a..<b} \<union> {b..<c}" using assms by auto
  then show ?thesis by (simp add: range_sum_def sum.union_disjoint)
qed

lemma range_sum_gauss: "2 * range_sum 0 (int n) = int n * (int n - 1)"
proof (induction n)
  case (Suc n)
  have "range_sum 0 (int (Suc n)) = range_sum 0 (int n) + int n"
    using range_sum_Suc [of 0 "int n"] by (simp add: add.commute)
  with Suc show ?case by (simp add: algebra_simps)
qed simp

lemma range_sum_blocks:
  "0 \<le> q \<Longrightarrow> (\<Sum>i < n. range_sum (int i * q) (int i * q + q)) = range_sum 0 (int n * q)"
proof (induction n)
  case (Suc n)
  then show ?case using range_sum_append [of 0 "int n * q" "int n * q + q"]
    by (simp add: algebra_simps)
qed simp

lemma range_sum_bounds:
  assumes "0 \<le> a" "b \<le> 2 ^ 31"
  shows "0 \<le> range_sum a b" "range_sum a b \<le> 2 ^ 62"
proof -
  show "0 \<le> range_sum a b" unfolding range_sum_def using assms(1) by (intro sum_nonneg) auto
  have "range_sum a b \<le> of_nat (card {a..<b}) * 2 ^ 31"
    unfolding range_sum_def using assms by (intro sum_bounded_above) auto
  also have "\<dots> \<le> 2 ^ 31 * 2 ^ 31"
    using assms by (intro mult_right_mono) auto
  finally show "range_sum a b \<le> 2 ^ 62" by simp
qed

end
