(* ===== verification/PsumCommon.thy ===== *)
theory PsumCommon
  imports Pthreads "HOL-Library.Signed_Division"
begin

text \<open>
  What the three parallel-sum programs share: the globals \<open>psum\<close> and \<open>nelems_per_thread\<close>, the
  array \<open>myid\<close> of thread identifiers in \<open>main\<close>, the outcome of reading the command line, and
  the final check of the sum. A \<open>long\<close> is an integer; that no value leaves its 64-bit range is
  a property of its own.
\<close>

definition MAXTHREADS :: nat where "MAXTHREADS = 32"

lemma MAXTHREADS [simp]: "MAXTHREADS = 32"
  by (simp add: MAXTHREADS_def)

record psum_sh =
  psum :: "int list"
  myid :: "int list"
  nept :: int

definition psum_init :: "int \<Rightarrow> psum_sh" where
  "psum_init q = \<lparr>psum = replicate MAXTHREADS 0, myid = replicate MAXTHREADS 0, nept = q\<rparr>"

text \<open>\<open>myid[i] = i\<close>, before thread \<open>i\<close> is created with a pointer to it.\<close>

definition set_myid :: "nat \<Rightarrow> psum_sh \<Rightarrow> psum_sh" where
  "set_myid i sh = sh\<lparr>myid := (myid sh)[i := int i]\<rparr>"

datatype psum_start = PUsage | PInvalid | PUndef | PGo int int int

text \<open>\<open>1L << n\<close>: undefined for a negative count and when the result is no \<open>long\<close>.\<close>

definition shift_one :: "int \<Rightarrow> int option" where
  "shift_one n = (if 0 \<le> n \<and> n < 63 then Some (2 ^ nat n) else None)"

lemma shift_one_pos: "shift_one n = Some m \<Longrightarrow> 0 < m"
  by (auto simp: shift_one_def split: if_splits)

text \<open>The loop that adds up the partial sums, and the message printed when the check fails.\<close>

definition add_up :: "int list \<Rightarrow> nat \<Rightarrow> int" where
  "add_up ps n = foldl (\<lambda>result i. result + ps ! i) 0 [0..<n]"

definition sum_report :: "int \<Rightarrow> int \<Rightarrow> event list" where
  "sum_report result nelems =
     (if result \<noteq> (nelems * (nelems - 1)) sdiv 2
      then [Stdout (''Error: result='' @ int_dec result @ [LF])] else [])"

text \<open>The end of \<open>main\<close>: the product in the check has to be a \<open>long\<close>.\<close>

definition final_check :: "event list \<Rightarrow> int \<Rightarrow> unit run" where
  "final_check es nelems =
     (if long_range (nelems * (nelems - 1)) then Exits es (ExitStatus 0) else Undef [] BadOperand)"

lemma add_up_sum: "add_up ps n = (\<Sum>i < n. ps ! i)"
  by (induction n) (simp_all add: add_up_def)

lemma sdiv_two_nonneg: "0 \<le> (x :: int) \<Longrightarrow> x sdiv 2 = x div 2"
  by (cases "x = 0") (simp_all add: signed_divide_int_def sgn_if)

lemma sum_report_gauss:
  "sum_report (range_sum 0 (int n)) (int n) = []"
proof -
  have "0 \<le> int n * (int n - 1)" by (cases n) auto
  then show ?thesis using range_sum_gauss [of n] by (simp add: sum_report_def sdiv_two_nonneg)
qed

lemma smod_zero_sdiv:
  assumes "0 < n" "0 < m" "m smod n = (0 :: int)"
  shows "m sdiv n * n = m" "0 < m sdiv n"
proof -
  have "m sdiv n = m div n" "m smod n = m mod n"
    using assms(1,2) by (simp_all add: signed_divide_int_def signed_modulo_int_def
        minus_mult_div_eq_mod)
  with assms show "m sdiv n * n = m" "0 < m sdiv n"
    by (auto simp: pos_imp_zdiv_pos_iff zdvd_imp_le mod_eq_0_iff_dvd)
qed

lemma psum_go_div:
  assumes "shift_one lg = Some nelems" "nelems smod n = 0" "0 < n" "q = nelems sdiv n"
  shows "q * n = nelems" "0 < q" "0 < nelems"
  using smod_zero_sdiv [of n nelems] shift_one_pos [OF assms(1)] assms by simp_all

lemma shift_one_le: "shift_one lg = Some m \<Longrightarrow> lg \<le> 31 \<Longrightarrow> m \<le> 2 ^ 31"
proof -
  assume "shift_one lg = Some m" "lg \<le> 31"
  then have "m = 2 ^ nat lg" "nat lg \<le> 31" by (auto simp: shift_one_def split: if_splits)
  then show ?thesis using power_increasing [of "nat lg" 31 "2 :: int"] by simp
qed

text \<open>The product fits exactly up to 2 to the 31st elements.\<close>

lemma final_product: "0 < m \<Longrightarrow> m \<le> 2 ^ 31 \<Longrightarrow> long_range (m * (m - 1))"
proof -
  assume m: "0 < m" "m \<le> 2 ^ 31"
  then have "m * (m - 1) \<le> 2 ^ 31 * 2 ^ 31" by (intro mult_mono) simp_all
  moreover have "0 \<le> m * (m - 1)" using m by simp
  ultimately show ?thesis by (simp add: long_range_def)
qed

lemma final_product_iff:
  assumes s: "shift_one lg = Some m"
  shows "long_range (m * (m - 1)) \<longleftrightarrow> lg \<le> 31"
proof
  show "lg \<le> 31 \<Longrightarrow> long_range (m * (m - 1))"
    using final_product [OF shift_one_pos [OF s] shift_one_le [OF s]] .
  assume l: "long_range (m * (m - 1))"
  show "lg \<le> 31"
  proof (rule ccontr)
    assume "\<not> lg \<le> 31"
    moreover have e: "m = 2 ^ nat lg" using s by (simp add: shift_one_def split: if_splits)
    ultimately have "(2 :: int) ^ 32 \<le> m" unfolding e by (intro power_increasing) simp_all
    then have "2 ^ 32 * (2 ^ 32 - 1) \<le> m * (m - 1)" by (intro mult_mono) simp_all
    with l show False by (simp add: long_range_def)
  qed
qed

lemma shift_one_le_iff: "shift_one lg = Some m \<Longrightarrow> lg \<le> 31 \<longleftrightarrow> m \<le> 2 ^ 31"
  using final_product_iff [of lg m] final_product [OF shift_one_pos] shift_one_le by blast

text \<open>When every thread's element holds the sum of its block, the check succeeds.\<close>

lemma blocks_report:
  assumes "\<And>i. i < n \<Longrightarrow> ps ! i = range_sum (int i * q) (int i * q + q)" "0 \<le> q" "q * int n = nelems"
  shows "sum_report (add_up ps n) nelems = []"
proof -
  have s: "add_up ps n = range_sum 0 (int n * q)"
    using assms(1) range_sum_blocks [OF assms(2), of n] by (simp add: add_up_sum)
  have "0 \<le> q * int n" using assms(2) by simp
  then obtain m where "nelems = int m" using assms(3) by (metis nonneg_int_cases)
  then show ?thesis
    using sum_report_gauss [of m] assms(3) by (simp add: s mult.commute)
qed


end
