(* ===== verification/PsumArray.thy ===== *)
theory PsumArray
  imports PsumCommon
begin

text \<open>
  \<open>psum-array.c\<close>: every thread adds its block of numbers into its own element of the global
  array \<open>psum\<close>, one read-modify-write per number; \<open>main\<close> adds the elements up after joining.
\<close>

section \<open>The program\<close>

definition psum_array_args :: "string list \<Rightarrow> psum_start" where
  "psum_array_args argv =
     (if length argv \<noteq> 3 then PUsage
      else
        (case atoi (argv ! 1) of None \<Rightarrow> PUndef | Some n \<Rightarrow>
        (case atoi (argv ! 2) of None \<Rightarrow> PUndef | Some log_nelems \<Rightarrow>
        (case shift_one log_nelems of None \<Rightarrow> PUndef | Some nelems \<Rightarrow>
          if n = 0 then PUndef
          else if nelems smod n \<noteq> 0 \<or> log_nelems > 31 then PInvalid
          else PGo n nelems (nelems sdiv n)))))"

text \<open>
  The routine \<open>sum_array\<close>. A thread has just started with its argument pointing at \<open>myid[v]\<close>,
  is at the head of the loop with \<open>myid\<close>, \<open>i\<close> and \<open>end\<close>, has read \<open>psum[myid]\<close> and not yet
  written it back, or has returned.
\<close>

datatype sa_pc = SA_Entry nat | SA_Loop int int int | SA_Store int int int int | SA_Done

fun sum_array :: "psum_sh \<Rightarrow> sa_pc \<Rightarrow> (psum_sh \<times> sa_pc) option" where
  "sum_array sh (SA_Entry v) =
     (let me = myid sh ! v; start = me * nept sh; end = start + nept sh
      in Some (sh, SA_Loop me start end))"
| "sum_array sh (SA_Loop me i end) =
     (if i < end then Some (sh, SA_Store me i end (psum sh ! nat me)) else Some (sh, SA_Done))"
| "sum_array sh (SA_Store me i end tmp) =
     Some (sh\<lparr>psum := (psum sh)[nat me := tmp + i]\<rparr>, SA_Loop me (i + 1) end)"
| "sum_array sh SA_Done = None"

definition psum_array_prog :: "nat \<Rightarrow> (psum_sh, sa_pc) prog" where
  "psum_array_prog n = \<lparr>nthreads = n, maxthreads = MAXTHREADS, on_create = set_myid, start = SA_Entry,
     body = sum_array, final = (\<lambda>l. l = SA_Done)\<rparr>"

definition psum_array_report :: "psum_sh \<Rightarrow> nat \<Rightarrow> int \<Rightarrow> event list" where
  "psum_array_report sh n nelems = sum_report (add_up (psum sh) n) nelems"

section \<open>The invariant\<close>

fun sa_ok :: "nat \<Rightarrow> psum_sh \<Rightarrow> nat \<Rightarrow> sa_pc \<Rightarrow> bool" where
  "sa_ok q sh i (SA_Entry v) \<longleftrightarrow> v = i \<and> psum sh ! i = 0"
| "sa_ok q sh i (SA_Loop me k e) \<longleftrightarrow> me = int i \<and> e = int i * int q + int q \<and>
     int i * int q \<le> k \<and> k \<le> e \<and> psum sh ! i = range_sum (int i * int q) k"
| "sa_ok q sh i (SA_Store me k e tmp) \<longleftrightarrow> me = int i \<and> e = int i * int q + int q \<and>
     int i * int q \<le> k \<and> k < e \<and> psum sh ! i = range_sum (int i * int q) k \<and> tmp = psum sh ! i"
| "sa_ok q sh i SA_Done \<longleftrightarrow> psum sh ! i = range_sum (int i * int q) (int i * int q + int q)"

definition sa_inv :: "nat \<Rightarrow> psum_sh \<Rightarrow> (nat \<Rightarrow> sa_pc option) \<Rightarrow> bool" where
  "sa_inv q sh t \<longleftrightarrow> length (psum sh) = 32 \<and> length (myid sh) = 32 \<and> nept sh = int q \<and>
     (\<forall>i l. t i = Some l \<longrightarrow> i < 32 \<and> myid sh ! i = int i \<and> sa_ok q sh i l) \<and>
     (\<forall>i < 32. t i = None \<longrightarrow> psum sh ! i = 0)"

fun sa_left :: "nat \<Rightarrow> sa_pc \<Rightarrow> nat" where
  "sa_left q (SA_Entry v) = 2 * q + 3"
| "sa_left q (SA_Loop me k e) = 2 * nat (e - k) + 1"
| "sa_left q (SA_Store me k e tmp) = 2 * nat (e - k)"
| "sa_left q SA_Done = 0"

lemma sa_ok_frame: "psum sh' ! i = psum sh ! i \<Longrightarrow> sa_ok q sh i l \<Longrightarrow> sa_ok q sh' i l"
  by (cases l) auto

lemma sa_ok_elem:
  assumes "sa_ok q sh i l"
  shows "\<exists>x. x \<le> int i * int q + int q \<and> psum sh ! i = range_sum (int i * int q) x"
proof (cases l)
  case (SA_Entry v)
  with assms show ?thesis by (intro exI [of _ "int i * int q"]) simp
next
  case SA_Done
  with assms show ?thesis by (intro exI [of _ "int i * int q + int q"]) simp
next
  case (SA_Store me k e tmp)
  with assms show ?thesis by (intro exI [of _ k]) simp
qed (use assms in auto)

lemma sa_inv_I:
  assumes "sa_inv q sh t" "t i = Some l" "length (psum sh') = 32" "myid sh' = myid sh" "nept sh' = nept sh"
    and "\<And>j. j \<noteq> i \<Longrightarrow> psum sh' ! j = psum sh ! j" and "sa_ok q sh' i l'"
  shows "sa_inv q sh' (t(i \<mapsto> l'))"
  using assms sa_ok_frame [of sh' _ sh q] by (auto simp: sa_inv_def)

lemma sum_array_moves: "l \<noteq> SA_Done \<Longrightarrow> sum_array sh l \<noteq> None"
  by (cases l) (auto simp: Let_def)

lemma sa_body:
  assumes "sa_inv q sh t" "t i = Some l" "sum_array sh l = Some (sh', l')"
  shows "sa_inv q sh' (t(i \<mapsto> l')) \<and> sa_left q l' < sa_left q l"
proof -
  have ok: "sa_ok q sh i l" "i < 32" "myid sh ! i = int i" "nept sh = int q" "length (psum sh) = 32"
    using assms(1,2) by (auto simp: sa_inv_def)
  show ?thesis
  proof (cases l)
    case (SA_Entry v)
    then have "sh' = sh" "l' = SA_Loop (int i) (int i * int q) (int i * int q + int q)"
      using assms(3) ok by (auto simp: Let_def)
    then show ?thesis using SA_Entry ok by (auto intro!: sa_inv_I [OF assms(1,2)])
  next
    case (SA_Loop me k e)
    then show ?thesis using assms(3) ok
      by (auto intro!: sa_inv_I [OF assms(1,2)] split: if_splits)
  next
    case (SA_Store me k e tmp)
    then have "sh' = sh\<lparr>psum := (psum sh)[i := tmp + k]\<rparr>" "l' = SA_Loop (int i) (k + 1) e"
      using assms(3) ok by auto
    then show ?thesis using SA_Store ok range_sum_Suc [of "int i * int q" k]
      by (auto intro!: sa_inv_I [OF assms(1,2)] simp: nat_less_iff)
  qed (use assms(3) in simp)
qed

interpretation sa: pt_live "psum_array_prog n" "psum_init (int q)" "sa_inv q" "sa_left q"
  for n q :: nat
proof unfold_locales
  show "sa_inv q (psum_init (int q)) Map.empty" by (simp add: sa_inv_def psum_init_def)
next
  fix sh t i
  assume "sa_inv q sh t" "dom t = {..<i}" "i < nthreads (psum_array_prog n)" "i < maxthreads (psum_array_prog n)"
  moreover then have "t i = None" by (auto simp: dom_def set_eq_iff)
  ultimately show "sa_inv q (on_create (psum_array_prog n) i sh) (t(i \<mapsto> start (psum_array_prog n) i))"
    using sa_ok_frame [of "set_myid i sh" _ sh q]
    by (auto simp: sa_inv_def psum_array_prog_def set_myid_def nth_list_update)
next
  fix sh t i l
  assume "sa_inv q sh t" and l: "t i = Some l" and "\<not> final (psum_array_prog n) l"
  then have "body (psum_array_prog n) sh l \<noteq> None"
    using sum_array_moves [of l sh] by (auto simp: psum_array_prog_def)
  with l show "\<exists>j k. t j = Some k \<and> body (psum_array_prog n) sh k \<noteq> None" by blast
qed (auto simp: psum_array_prog_def dest: sa_body)

section \<open>Properties\<close>

lemma psum_array_go:
  assumes "psum_array_args argv = PGo n nelems q" "0 < n"
  shows "q * n = nelems" "0 < q" "0 < nelems" "nelems \<le> 2 ^ 31"
proof -
  from assms(1) obtain lg where "shift_one lg = Some nelems" "nelems smod n = 0" "q = nelems sdiv n" "lg \<le> 31"
    by (auto simp: psum_array_args_def Let_def split: if_splits option.splits)
  then show "q * n = nelems" "0 < q" "0 < nelems" "nelems \<le> 2 ^ 31"
    using psum_go_div [of lg nelems n q] shift_one_le [of lg nelems] assms(2) by simp_all
qed

lemma psum_array_joined:
  assumes "psum_array_args argv = PGo n nelems q" "0 < n" "n \<le> 32"
    and "pt_reach (psum_array_prog (nat n)) (psum_init q) s" "mpc s = Joined"
  shows "psum_array_report (shared s) (nat n) nelems = []"
proof -
  note go = psum_array_go [OF assms(1,2)]
  have r: "pt_reach (psum_array_prog (nat n)) (psum_init (int (nat q))) s" using assms(4) go(2) by simp
  note j = sa.joined_final [OF r assms(5)]
  have "psum (shared s) ! i = range_sum (int i * q) (int i * q + q)" if "i < nat n" for i
    using j(1) j(2) [of i] that go(2) by (fastforce simp: psum_array_prog_def sa_inv_def)
  then show ?thesis unfolding psum_array_report_def
    by (rule blocks_report) (use go assms(2) in simp_all)
qed

text \<open>For every command line the program accepts with 1 to 32 threads, in every interleaving
  of the threads, the sum is right when all threads are joined: no error is printed.\<close>

theorem psum_array_correct:
  assumes "psum_array_args argv = PGo n nelems q" and "0 < n" and "n \<le> 32"
    and "pt_reach (psum_array_prog (nat n)) (psum_init q) s" and "mpc s = Joined"
  shows "psum_array_report (shared s) (nat n) nelems = []"
  using assms by (rule psum_array_joined)

lemma psum_array_args_2_2: "psum_array_args [''psum'', ''2'', ''2''] = PGo 2 4 2"
  by (simp add: psum_array_args_def atoi_def decimal_def isspace_def isdigit_def digits_val_def digit_val_def
      shift_one_def signed_divide_int_def signed_modulo_int_def)

theorem psum_array_correct_witness:
  "\<exists>s. pt_reach (psum_array_prog 2) (psum_init 2) s \<and> mpc s = Joined \<and>
     psum_array_report (shared s) 2 4 = []"
proof -
  obtain s where s: "pt_reach (psum_array_prog 2) (psum_init 2) s" "mpc s = Joined"
    using sa.inevitable [of 2 2, OF pt_reach.init] by (auto simp: psum_array_prog_def)
  then show ?thesis using psum_array_correct [OF psum_array_args_2_2, of s] by auto
qed

text \<open>With at most 32 threads every execution ends: no interleaving runs forever, and from every
  reachable state the program gets to the point where all threads are joined.\<close>

theorem psum_array_terminates:
  assumes "n \<le> 32"
  shows "(\<nexists>f. f 0 = pt_start (psum_init (int q)) \<and> (\<forall>k. pt_step (psum_array_prog n) (f k) (f (Suc k)))) \<and>
    (\<forall>s. pt_reach (psum_array_prog n) (psum_init (int q)) s \<longrightarrow>
       (\<exists>s'. (pt_step (psum_array_prog n))\<^sup>*\<^sup>* s s' \<and> mpc s' = Joined))"
proof (intro conjI allI impI)
  show "\<nexists>f. f 0 = pt_start (psum_init (int q)) \<and> (\<forall>k. pt_step (psum_array_prog n) (f k) (f (Suc k)))"
    using sa.no_infinite_run [where n = n and q = q] pt_reach.init by metis
  fix s assume "pt_reach (psum_array_prog n) (psum_init (int q)) s"
  from sa.inevitable [OF this] assms
  show "\<exists>s'. (pt_step (psum_array_prog n))\<^sup>*\<^sup>* s s' \<and> mpc s' = Joined"
    by (auto simp: psum_array_prog_def)
qed

theorem psum_array_terminates_witness:
  "\<exists>s'. (pt_step (psum_array_prog 4))\<^sup>*\<^sup>* (pt_start (psum_init 8)) s' \<and> mpc s' = Joined"
  using psum_array_terminates [of 4 8] pt_reach.init [of "psum_array_prog 4" "psum_init 8"] by auto

text \<open>No signed overflow: in every reachable state of an accepted run each element of \<open>psum\<close>,
  each sum about to be stored, and the product of the final check are values of type \<open>long\<close>.\<close>

theorem psum_array_in_range:
  assumes "psum_array_args argv = PGo n nelems q" and "0 < n" and "n \<le> 32"
    and "pt_reach (psum_array_prog (nat n)) (psum_init q) s"
  shows "(\<forall>i < 32. long_range (psum (shared s) ! i)) \<and> long_range (nelems * (nelems - 1)) \<and>
    (\<forall>i me k e tmp. thr s i = Some (SA_Store me k e tmp) \<longrightarrow> long_range (tmp + k))"
proof -
  note go = psum_array_go [OF assms(1,2)]
  have r: "pt_reach (psum_array_prog (nat n)) (psum_init (int (nat q))) s" using assms(4) go(2) by simp
  from sa.reach_inv [OF r] have inv: "sa_inv (nat q) (shared s) (thr s)" and
    c: "pt_control (psum_array_prog (nat n)) (thr s) (mpc s)" by simp_all
  have top: "int i * q + q \<le> 2 ^ 31" if "thr s i = Some l" for i l
  proof -
    have "i < nat n" using sa.control_dom [OF c that] by (simp add: psum_array_prog_def)
    then have "int i + 1 \<le> n" by simp
    then have "(int i + 1) * q \<le> n * q" using go(2) by (intro mult_right_mono) simp_all
    then show ?thesis using go(1,4) by (simp add: algebra_simps)
  qed
  have bnd: "0 \<le> range_sum (int i * q) k \<and> range_sum (int i * q) k \<le> 2 ^ 62"
    if "k \<le> 2 ^ 31" for i k using range_sum_bounds [of "int i * q" k] that go(2) by simp
  have elem: "0 \<le> psum (shared s) ! i \<and> psum (shared s) ! i \<le> 2 ^ 62" if "i < 32" for i
  proof (cases "thr s i")
    case None
    then show ?thesis using inv that by (auto simp: sa_inv_def)
  next
    case (Some l)
    then have "sa_ok (nat q) (shared s) i l" using inv by (simp add: sa_inv_def)
    from sa_ok_elem [OF this] obtain x where x: "x \<le> int i * q + q"
      "psum (shared s) ! i = range_sum (int i * q) x" using go(2) by auto
    show ?thesis unfolding x(2) by (rule bnd) (use x(1) top [OF Some] in linarith)
  qed
  have st: "0 \<le> tmp + k \<and> tmp + k \<le> 2 ^ 62 + 2 ^ 31" if "thr s i = Some (SA_Store me k e tmp)" for i me k e tmp
  proof -
    have "sa_ok (nat q) (shared s) i (SA_Store me k e tmp)" "i < 32"
      using inv that unfolding sa_inv_def by blast+
    then have e: "tmp = psum (shared s) ! i" "k < int i * q + q" "int i * q \<le> k" "i < 32"
      using go(2) by simp_all
    have "0 \<le> int i * q" using go(2) by simp
    with e elem [OF e(4)] top [OF that] show ?thesis by linarith
  qed
  have "nelems * (nelems - 1) \<le> 2 ^ 31 * 2 ^ 31" using go by (intro mult_mono) simp_all
  moreover have "0 \<le> nelems * (nelems - 1)" using go by simp
  ultimately show ?thesis using elem st by (force simp: long_range_def)
qed

theorem psum_array_in_range_witness:
  "long_range (psum (shared (pt_start (psum_init 2) :: (psum_sh, sa_pc) psys)) ! 31)"
proof -
  have "pt_reach (psum_array_prog (nat 2)) (psum_init 2) (pt_start (psum_init 2))" by (rule pt_reach.init)
  from psum_array_in_range [OF psum_array_args_2_2 _ _ this] show ?thesis by simp
qed

text \<open>The number of threads is never checked against the size of the arrays: every accepted
  command line with more than 32 threads has an execution in which \<open>main\<close> writes past their end.\<close>

theorem psum_array_overruns_thread_arrays:
  assumes "psum_array_args argv = PGo n nelems q" and "32 < n"
  shows "\<exists>s. pt_reach (psum_array_prog (nat n)) (psum_init q) s \<and> mpc s = Faulted"
  by (rule reach_faulted) (use assms(2) in \<open>simp add: psum_array_prog_def\<close>)

theorem psum_array_overruns_thread_arrays_witness:
  "\<exists>s. pt_reach (psum_array_prog 64) (psum_init 1) s \<and> mpc s = Faulted"
proof -
  have "psum_array_args [''psum'', ''64'', ''6''] = PGo 64 64 1"
    by (simp add: psum_array_args_def atoi_def decimal_def isspace_def isdigit_def digits_val_def digit_val_def
        shift_one_def signed_divide_int_def signed_modulo_int_def)
  from psum_array_overruns_thread_arrays [OF this] show ?thesis by simp
qed

end
