(* ===== verification/PsumLocal.thy ===== *)
theory PsumLocal
  imports PsumCommon
begin

text \<open>
  \<open>psum-local.c\<close>: every thread sums its block into a local variable and writes its element of
  \<open>psum\<close> once, at the end. The call \<open>atio\<close> of the source is read as \<open>atoi\<close>; the usage message
  passes a string to the conversion of an \<open>int\<close>, which is undefined.
\<close>

section \<open>The program\<close>

definition psum_local_args :: "string list \<Rightarrow> psum_start" where
  "psum_local_args argv =
     (if length argv \<noteq> 3 then PUndef
      else
        (case atoi (argv ! 1) of None \<Rightarrow> PUndef | Some n \<Rightarrow>
        (case atoi (argv ! 2) of None \<Rightarrow> PUndef | Some log_nelems \<Rightarrow>
        (case shift_one log_nelems of None \<Rightarrow> PUndef | Some nelems \<Rightarrow>
          if n = 0 then PUndef
          else if nelems smod n \<noteq> 0 \<or> log_nelems > 31 then PInvalid
          else PGo n nelems (nelems sdiv n)))))"

text \<open>The routine \<open>sum_local\<close>; the head of the loop carries \<open>myid\<close>, \<open>i\<close>, \<open>end\<close> and the local \<open>sum\<close>.\<close>

datatype sl_pc = SL_Entry nat | SL_Loop int int int int | SL_Done

fun sum_local :: "psum_sh \<Rightarrow> sl_pc \<Rightarrow> (psum_sh \<times> sl_pc) option" where
  "sum_local sh (SL_Entry v) =
     (let me = myid sh ! v; start = me * nept sh; end = start + nept sh
      in Some (sh, SL_Loop me start end 0))"
| "sum_local sh (SL_Loop me i end acc) =
     (if i < end then Some (sh, SL_Loop me (i + 1) end (acc + i))
      else Some (sh\<lparr>psum := (psum sh)[nat me := acc]\<rparr>, SL_Done))"
| "sum_local sh SL_Done = None"

definition psum_local_prog :: "nat \<Rightarrow> (psum_sh, sl_pc) prog" where
  "psum_local_prog n = \<lparr>nthreads = n, maxthreads = MAXTHREADS, on_create = set_myid, start = SL_Entry,
     body = sum_local, final = (\<lambda>l. l = SL_Done)\<rparr>"

definition psum_local_report :: "psum_sh \<Rightarrow> nat \<Rightarrow> int \<Rightarrow> event list" where
  "psum_local_report sh n nelems = sum_report (add_up (psum sh) n) nelems"

section \<open>The invariant\<close>

fun sl_ok :: "nat \<Rightarrow> psum_sh \<Rightarrow> nat \<Rightarrow> sl_pc \<Rightarrow> bool" where
  "sl_ok q sh i (SL_Entry v) \<longleftrightarrow> v = i \<and> psum sh ! i = 0"
| "sl_ok q sh i (SL_Loop me k e acc) \<longleftrightarrow> me = int i \<and> e = int i * int q + int q \<and>
     int i * int q \<le> k \<and> k \<le> e \<and> psum sh ! i = 0 \<and> acc = range_sum (int i * int q) k"
| "sl_ok q sh i SL_Done \<longleftrightarrow> psum sh ! i = range_sum (int i * int q) (int i * int q + int q)"

definition sl_inv :: "nat \<Rightarrow> psum_sh \<Rightarrow> (nat \<Rightarrow> sl_pc option) \<Rightarrow> bool" where
  "sl_inv q sh t \<longleftrightarrow> length (psum sh) = 32 \<and> length (myid sh) = 32 \<and> nept sh = int q \<and>
     (\<forall>i l. t i = Some l \<longrightarrow> i < 32 \<and> myid sh ! i = int i \<and> sl_ok q sh i l) \<and>
     (\<forall>i < 32. t i = None \<longrightarrow> psum sh ! i = 0)"

fun sl_left :: "nat \<Rightarrow> sl_pc \<Rightarrow> nat" where
  "sl_left q (SL_Entry v) = q + 2"
| "sl_left q (SL_Loop me k e acc) = nat (e - k) + 1"
| "sl_left q SL_Done = 0"

lemma sl_ok_frame: "psum sh' ! i = psum sh ! i \<Longrightarrow> sl_ok q sh i l \<Longrightarrow> sl_ok q sh' i l"
  by (cases l) auto

lemma sl_inv_I:
  assumes "sl_inv q sh t" "t i = Some l" "length (psum sh') = 32" "myid sh' = myid sh" "nept sh' = nept sh"
    and "\<And>j. j \<noteq> i \<Longrightarrow> psum sh' ! j = psum sh ! j" and "sl_ok q sh' i l'"
  shows "sl_inv q sh' (t(i \<mapsto> l'))"
  using assms sl_ok_frame [of sh' _ sh q] by (auto simp: sl_inv_def)

lemma sum_local_moves: "l \<noteq> SL_Done \<Longrightarrow> sum_local sh l \<noteq> None"
  by (cases l) (auto simp: Let_def)

lemma sl_body:
  assumes "sl_inv q sh t" "t i = Some l" "sum_local sh l = Some (sh', l')"
  shows "sl_inv q sh' (t(i \<mapsto> l')) \<and> sl_left q l' < sl_left q l"
proof -
  have ok: "sl_ok q sh i l" "i < 32" "myid sh ! i = int i" "nept sh = int q" "length (psum sh) = 32"
    using assms(1,2) by (auto simp: sl_inv_def)
  show ?thesis
  proof (cases l)
    case (SL_Entry v)
    then have "sh' = sh" "l' = SL_Loop (int i) (int i * int q) (int i * int q + int q) 0"
      using assms(3) ok by (auto simp: Let_def)
    then show ?thesis using SL_Entry ok by (auto intro!: sl_inv_I [OF assms(1,2)])
  next
    case (SL_Loop me k e acc)
    then show ?thesis using assms(3) ok range_sum_Suc [of "int i * int q" k]
      by (auto intro!: sl_inv_I [OF assms(1,2)] split: if_splits simp: nat_less_iff)
  qed (use assms(3) in simp)
qed

interpretation sl: pt_live "psum_local_prog n" "psum_init (int q)" "sl_inv q" "sl_left q"
  for n q :: nat
proof unfold_locales
  show "sl_inv q (psum_init (int q)) Map.empty" by (simp add: sl_inv_def psum_init_def)
next
  fix sh t i
  assume "sl_inv q sh t" "dom t = {..<i}" "i < nthreads (psum_local_prog n)" "i < maxthreads (psum_local_prog n)"
  moreover then have "t i = None" by (auto simp: dom_def set_eq_iff)
  ultimately show "sl_inv q (on_create (psum_local_prog n) i sh) (t(i \<mapsto> start (psum_local_prog n) i))"
    using sl_ok_frame [of "set_myid i sh" _ sh q]
    by (auto simp: sl_inv_def psum_local_prog_def set_myid_def nth_list_update)
next
  fix sh t i l
  assume "sl_inv q sh t" and l: "t i = Some l" and "\<not> final (psum_local_prog n) l"
  then have "body (psum_local_prog n) sh l \<noteq> None"
    using sum_local_moves [of l sh] by (auto simp: psum_local_prog_def)
  with l show "\<exists>j k. t j = Some k \<and> body (psum_local_prog n) sh k \<noteq> None" by blast
qed (auto simp: psum_local_prog_def dest: sl_body)

section \<open>Properties\<close>

lemma psum_local_go:
  assumes "psum_local_args argv = PGo n nelems q" "0 < n"
  shows "q * n = nelems" "0 < q" "nelems \<le> 2 ^ 31"
proof -
  from assms(1) obtain lg where "shift_one lg = Some nelems" "nelems smod n = 0" "q = nelems sdiv n" "lg \<le> 31"
    by (auto simp: psum_local_args_def Let_def split: if_splits option.splits)
  then show "q * n = nelems" "0 < q" "nelems \<le> 2 ^ 31"
    using psum_go_div [of lg nelems n q] shift_one_le [of lg nelems] assms(2) by simp_all
qed

lemma psum_local_joined:
  assumes "psum_local_args argv = PGo n nelems q" "0 < n" "n \<le> 32"
    and "pt_reach (psum_local_prog (nat n)) (psum_init q) s" "mpc s = Joined"
  shows "psum_local_report (shared s) (nat n) nelems = []"
proof -
  note go = psum_local_go [OF assms(1,2)]
  have r: "pt_reach (psum_local_prog (nat n)) (psum_init (int (nat q))) s" using assms(4) go(2) by simp
  note j = sl.joined_final [OF r assms(5)]
  have "psum (shared s) ! i = range_sum (int i * q) (int i * q + q)" if "i < nat n" for i
    using j(1) j(2) [of i] that go(2) by (fastforce simp: psum_local_prog_def sl_inv_def)
  then show ?thesis unfolding psum_local_report_def
    by (rule blocks_report) (use go assms(2) in simp_all)
qed

text \<open>\<open>psum-local\<close> with 1 to 32 threads always reaches the point where all threads are joined,
  and whenever it does, in every interleaving, no error is printed.\<close>

theorem psum_local_correct:
  assumes "psum_local_args argv = PGo n nelems q" and "0 < n" and "n \<le> 32"
    and "pt_reach (psum_local_prog (nat n)) (psum_init q) s"
  shows "(\<exists>s'. (pt_step (psum_local_prog (nat n)))\<^sup>*\<^sup>* s s' \<and> mpc s' = Joined) \<and>
    (mpc s = Joined \<longrightarrow> psum_local_report (shared s) (nat n) nelems = [])"
proof (intro conjI impI)
  have r: "pt_reach (psum_local_prog (nat n)) (psum_init (int (nat q))) s"
    using assms(4) psum_local_go(2) [OF assms(1,2)] by simp
  have "nthreads (psum_local_prog (nat n)) \<le> maxthreads (psum_local_prog (nat n))"
    using assms(3) by (simp add: psum_local_prog_def)
  from sl.inevitable [OF r this]
  show "\<exists>s'. (pt_step (psum_local_prog (nat n)))\<^sup>*\<^sup>* s s' \<and> mpc s' = Joined" by blast
qed (rule psum_local_joined [OF assms])

lemma psum_local_args_4_3: "psum_local_args [''psum'', ''4'', ''3''] = PGo 4 8 2"
  by (simp add: psum_local_args_def atoi_def decimal_def isspace_def isdigit_def digits_val_def digit_val_def
      shift_one_def signed_divide_int_def signed_modulo_int_def)

theorem psum_local_correct_witness:
  "\<exists>s'. (pt_step (psum_local_prog 4))\<^sup>*\<^sup>* (pt_start (psum_init 2)) s' \<and> mpc s' = Joined"
  using psum_local_correct [OF psum_local_args_4_3, of "pt_start (psum_init 2)"]
    pt_reach.init [of "psum_local_prog 4" "psum_init 2"] by auto

text \<open>No partial sum is ever visible: in every reachable state an element of \<open>psum\<close> is still 0 or
  already the sum of its thread's whole block.\<close>

theorem psum_local_no_partial_sums:
  assumes "pt_reach (psum_local_prog n) (psum_init (int q)) s" and "i < 32"
  shows "psum (shared s) ! i \<in> {0, range_sum (int i * int q) (int i * int q + int q)}"
proof (cases "thr s i")
  case None
  then show ?thesis using sl.reach_inv [OF assms(1)] assms(2) by (auto simp: sl_inv_def)
next
  case (Some l)
  then have "sl_ok q (shared s) i l" using sl.reach_inv [OF assms(1)] by (auto simp: sl_inv_def)
  then show ?thesis by (cases l) auto
qed

theorem psum_local_no_partial_sums_witness:
  "psum (shared (pt_start (psum_init 5) :: (psum_sh, sl_pc) psys)) ! 1 \<in> {0, range_sum 5 10}"
  using psum_local_no_partial_sums [where n = 2 and q = 5 and i = 1 and s = "pt_start (psum_init 5)"]
    pt_reach.init [of "psum_local_prog 2" "psum_init 5"] by simp

end
