(* ===== verification/PsumMutex.thy ===== *)
theory PsumMutex
  imports PsumCommon
begin

text \<open>
  \<open>psum-mutex.c\<close>: all threads add into the global \<open>gsum\<close>, each addition between \<open>P\<close> and \<open>V\<close>
  of one semaphore. The semaphore is a parameter; \<open>atio\<close> is read as \<open>atoi\<close>. Unlike its two
  siblings the program does not check that the number of threads divides the number of elements,
  nor does it limit that number: beyond 2 to the 31st the product of its final check overflows, which
  leaves its outcome undefined.
\<close>

section \<open>The program\<close>

record 's mutex_sh =
  gsum :: int
  mutex :: 's
  myid :: "int list"
  nept :: int

definition psum_mutex_args :: "string list \<Rightarrow> psum_start" where
  "psum_mutex_args argv =
     (if length argv \<noteq> 3 then PUsage
      else
        (case atoi (argv ! 1) of None \<Rightarrow> PUndef | Some n \<Rightarrow>
        (case atoi (argv ! 2) of None \<Rightarrow> PUndef | Some log_nelems \<Rightarrow>
        (case shift_one log_nelems of None \<Rightarrow> PUndef | Some nelems \<Rightarrow>
          if n = 0 then PUndef else PGo n nelems (nelems sdiv n)))))"

definition psum_mutex_init :: "'s sem_api \<Rightarrow> int \<Rightarrow> 's mutex_sh" where
  "psum_mutex_init sa q =
     \<lparr>gsum = 0, mutex = sem_init sa 1, myid = replicate MAXTHREADS 0, nept = q\<rparr>"

definition set_mutex_myid :: "nat \<Rightarrow> 's mutex_sh \<Rightarrow> 's mutex_sh" where
  "set_mutex_myid i sh = sh\<lparr>myid := (myid sh)[i := int i]\<rparr>"

text \<open>
  The routine \<open>sum_mutex\<close>: just started, at the head of the loop with \<open>i\<close> and \<open>end\<close>, past
  \<open>P\<close>, with \<open>gsum\<close> read, with \<open>gsum\<close> written, returned.
\<close>

datatype sm_pc = SM_Entry nat | SM_Loop int int | SM_Locked int int | SM_Loaded int int int
  | SM_Stored int int | SM_Done

fun sum_mutex :: "'s sem_api \<Rightarrow> 's mutex_sh \<Rightarrow> sm_pc \<Rightarrow> ('s mutex_sh \<times> sm_pc) option" where
  "sum_mutex sa sh (SM_Entry v) =
     (let me = myid sh ! v; start = me * nept sh; end = start + nept sh
      in Some (sh, SM_Loop start end))"
| "sum_mutex sa sh (SM_Loop i end) =
     (if i < end then
        (case semP sa (mutex sh) of
           None \<Rightarrow> None
         | Some m \<Rightarrow> Some (sh\<lparr>mutex := m\<rparr>, SM_Locked i end))
      else Some (sh, SM_Done))"
| "sum_mutex sa sh (SM_Locked i end) = Some (sh, SM_Loaded i end (gsum sh))"
| "sum_mutex sa sh (SM_Loaded i end tmp) = Some (sh\<lparr>gsum := tmp + i\<rparr>, SM_Stored i end)"
| "sum_mutex sa sh (SM_Stored i end) =
     Some (sh\<lparr>mutex := semV sa (mutex sh)\<rparr>, SM_Loop (i + 1) end)"
| "sum_mutex sa sh SM_Done = None"

definition psum_mutex_prog :: "'s sem_api \<Rightarrow> nat \<Rightarrow> ('s mutex_sh, sm_pc) prog" where
  "psum_mutex_prog sa n = \<lparr>nthreads = n, maxthreads = MAXTHREADS, on_create = set_mutex_myid,
     start = SM_Entry, body = sum_mutex sa, final = (\<lambda>l. l = SM_Done)\<rparr>"

definition psum_mutex_report :: "'s mutex_sh \<Rightarrow> int \<Rightarrow> event list" where
  "psum_mutex_report sh nelems = sum_report (gsum sh) nelems"

section \<open>The invariant\<close>

text \<open>Whether a thread is between \<open>P\<close> and \<open>V\<close>, and how much it has added to \<open>gsum\<close> so far.\<close>

fun in_crit :: "sm_pc \<Rightarrow> bool" where
  "in_crit (SM_Locked i e) = True"
| "in_crit (SM_Loaded i e tmp) = True"
| "in_crit (SM_Stored i e) = True"
| "in_crit _ = False"

definition crit :: "nat \<Rightarrow> sm_pc \<Rightarrow> int" where
  "crit i l = (if in_crit l then 1 else 0)"

fun added :: "nat \<Rightarrow> nat \<Rightarrow> sm_pc \<Rightarrow> int" where
  "added q i (SM_Entry v) = 0"
| "added q i (SM_Loop k e) = range_sum (int i * int q) k"
| "added q i (SM_Locked k e) = range_sum (int i * int q) k"
| "added q i (SM_Loaded k e tmp) = range_sum (int i * int q) k"
| "added q i (SM_Stored k e) = range_sum (int i * int q) (k + 1)"
| "added q i SM_Done = range_sum (int i * int q) (int i * int q + int q)"

fun sm_ok :: "nat \<Rightarrow> int \<Rightarrow> nat \<Rightarrow> sm_pc \<Rightarrow> bool" where
  "sm_ok q g i (SM_Entry v) \<longleftrightarrow> v = i"
| "sm_ok q g i (SM_Loop k e) \<longleftrightarrow> e = int i * int q + int q \<and> int i * int q \<le> k \<and> k \<le> e"
| "sm_ok q g i (SM_Locked k e) \<longleftrightarrow> e = int i * int q + int q \<and> int i * int q \<le> k \<and> k < e"
| "sm_ok q g i (SM_Loaded k e tmp) \<longleftrightarrow>
     e = int i * int q + int q \<and> int i * int q \<le> k \<and> k < e \<and> tmp = g"
| "sm_ok q g i (SM_Stored k e) \<longleftrightarrow> e = int i * int q + int q \<and> int i * int q \<le> k \<and> k < e"
| "sm_ok q g i SM_Done \<longleftrightarrow> True"

definition sm_inv :: "('s \<Rightarrow> nat) \<Rightarrow> nat \<Rightarrow> nat \<Rightarrow> 's mutex_sh \<Rightarrow> (nat \<Rightarrow> sm_pc option) \<Rightarrow> bool" where
  "sm_inv val n q sh t \<longleftrightarrow> length (myid sh) = 32 \<and> nept sh = int q \<and>
     (\<forall>i l. t i = Some l \<longrightarrow> i < 32 \<and> i < n \<and> myid sh ! i = int i \<and> sm_ok q (gsum sh) i l) \<and>
     int (val (mutex sh)) + tsum crit t n = 1 \<and> gsum sh = tsum (added q) t n"

fun sm_left :: "nat \<Rightarrow> sm_pc \<Rightarrow> nat" where
  "sm_left q (SM_Entry v) = 4 * q + 2"
| "sm_left q (SM_Loop k e) = 4 * nat (e - k) + 1"
| "sm_left q (SM_Locked k e) = 4 * nat (e - k)"
| "sm_left q (SM_Loaded k e tmp) = 4 * nat (e - k) - 1"
| "sm_left q (SM_Stored k e) = 4 * nat (e - k) - 2"
| "sm_left q SM_Done = 0"

lemma crit_nonneg: "0 \<le> crit i l"
  by (simp add: crit_def)

lemma sm_ok_frame: "\<not> in_crit l \<or> g' = g \<Longrightarrow> sm_ok q g i l \<Longrightarrow> sm_ok q g' i l"
  by (cases l) auto

lemma tsum_ge2:
  assumes "i < n" "j < n" "i \<noteq> j" "t i = Some k" "t j = Some l" "\<And>j k. 0 \<le> f j k"
  shows "f i k + f j l \<le> tsum f t n"
proof -
  let ?g = "\<lambda>m. case t m of None \<Rightarrow> 0 | Some l \<Rightarrow> f m l"
  have "tsum f t n = f i k + sum ?g ({..<n} - {i})"
    using assms(1,4) by (simp add: tsum_def sum.remove)
  moreover have "sum ?g ({..<n} - {i}) = f j l + sum ?g ({..<n} - {i} - {j})"
    using assms(2,3,5) by (simp add: sum.remove [of "{..<n} - {i}" j])
  moreover have "0 \<le> sum ?g ({..<n} - {i} - {j})"
    using assms(6) by (intro sum_nonneg) (auto split: option.split)
  ultimately show ?thesis by simp
qed

text \<open>At most one thread is between \<open>P\<close> and \<open>V\<close>.\<close>

lemma sm_exclusive:
  assumes "sm_inv val n q sh t" "t i = Some k" "t j = Some l" "in_crit k" "in_crit l"
  shows "i = j"
proof (rule ccontr)
  assume "i \<noteq> j"
  moreover have "i < n" "j < n" using assms(1-3) by (auto simp: sm_inv_def)
  ultimately have "crit i k + crit j l \<le> tsum crit t n"
    using assms(2,3) crit_nonneg by (intro tsum_ge2) auto
  then show False using assms(1,4,5) by (simp add: crit_def sm_inv_def)
qed

lemma sm_inv_I:
  assumes "sm_inv val n q sh t" "t i = Some l" "myid sh' = myid sh" "nept sh' = nept sh"
    and "gsum sh' = gsum sh + (added q i l' - added q i l)"
    and "int (val (mutex sh')) = int (val (mutex sh)) - (crit i l' - crit i l)"
    and "in_crit l \<or> gsum sh' = gsum sh" and "sm_ok q (gsum sh') i l'"
  shows "sm_inv val n q sh' (t(i \<mapsto> l'))"
proof -
  have i: "i < n" using assms(1,2) by (auto simp: sm_inv_def)
  have frame: "sm_ok q (gsum sh') j m" if "t j = Some m" "j \<noteq> i" for j m
  proof -
    have "\<not> in_crit m \<or> gsum sh' = gsum sh" using sm_exclusive [OF assms(1) that(1) assms(2)] that(2) assms(7) by auto
    moreover have "sm_ok q (gsum sh) j m" using assms(1) that(1) unfolding sm_inv_def by blast
    ultimately show ?thesis by (rule sm_ok_frame)
  qed
  show ?thesis
    using assms(1-6,8) frame by (auto simp: sm_inv_def tsum_upd [OF i])
qed

context semaphore
begin

lemma sm_body:
  assumes "sm_inv val n q sh t" "t i = Some l" "sum_mutex sa sh l = Some (sh', l')"
  shows "sm_inv val n q sh' (t(i \<mapsto> l')) \<and> sm_left q l' < sm_left q l"
proof -
  have ok: "sm_ok q (gsum sh) i l" "myid sh ! i = int i" "nept sh = int q"
    using assms(1,2) by (auto simp: sm_inv_def)
  show ?thesis
  proof (cases l)
    case (SM_Entry v)
    then show ?thesis using assms(3) ok
      by (auto simp: Let_def crit_def intro!: sm_inv_I [OF assms(1,2)])
  next
    case (SM_Loop k e)
    then show ?thesis using assms(3) ok P_val [of "mutex sh"]
      by (auto simp: crit_def intro!: sm_inv_I [OF assms(1,2)] split: if_splits option.splits)
  next
    case (SM_Locked k e)
    then show ?thesis using assms(3) ok
      by (auto simp: crit_def intro!: sm_inv_I [OF assms(1,2)])
  next
    case (SM_Loaded k e tmp)
    then show ?thesis using assms(3) ok range_sum_Suc [of "int i * int q" k]
      by (auto simp: crit_def intro!: sm_inv_I [OF assms(1,2)])
  next
    case (SM_Stored k e)
    then show ?thesis using assms(3) ok V_val [of "mutex sh"]
      by (auto simp: crit_def intro!: sm_inv_I [OF assms(1,2)])
  qed (use assms(3) in simp)
qed

lemma sm_some_moves:
  assumes inv: "sm_inv val n q sh t" and l: "t i = Some l" "l \<noteq> SM_Done"
  shows "\<exists>j k. t j = Some k \<and> sum_mutex sa sh k \<noteq> None"
proof (cases "sum_mutex sa sh l = None")
  case True
  then obtain k e where "l = SM_Loop k e" "semP sa (mutex sh) = None"
    using l(2) by (cases l) (auto simp: Let_def split: if_splits option.splits)
  then have "val (mutex sh) = 0" by (simp add: P_blocks)
  then have "0 < tsum crit t n" using inv by (simp add: sm_inv_def)
  from tsum_pos [OF this] obtain j m where "t j = Some m" "in_crit m" by (auto simp: crit_def split: if_splits)
  then show ?thesis by (intro exI [of _ j] exI [of _ m]) (cases m, auto)
qed (use l in blast)

lemma sm_live: "pt_live (psum_mutex_prog sa n) (psum_mutex_init sa (int q)) (sm_inv val n q) (sm_left q)"
proof unfold_locales
  show "sm_inv val n q (psum_mutex_init sa (int q)) Map.empty"
    by (simp add: sm_inv_def psum_mutex_init_def init_val)
next
  fix sh t i
  assume inv: "sm_inv val n q sh t" and d: "dom t = {..<i}" and
    i: "i < nthreads (psum_mutex_prog sa n)" "i < maxthreads (psum_mutex_prog sa n)"
  have "t i = None" using d by (auto simp: dom_def set_eq_iff)
  then show "sm_inv val n q (on_create (psum_mutex_prog sa n) i sh) (t(i \<mapsto> start (psum_mutex_prog sa n) i))"
    using inv i by (auto simp: sm_inv_def psum_mutex_prog_def set_mutex_myid_def nth_list_update
        tsum_upd crit_def)
next
  fix sh t i l
  assume "sm_inv val n q sh t" "t i = Some l" "\<not> final (psum_mutex_prog sa n) l"
  then show "\<exists>j k. t j = Some k \<and> body (psum_mutex_prog sa n) sh k \<noteq> None"
    using sm_some_moves by (simp add: psum_mutex_prog_def)
qed (auto simp: psum_mutex_prog_def dest: sm_body)

end

interpretation sm: pt_live "psum_mutex_prog posix_sem n" "psum_mutex_init posix_sem (int q)"
  "sm_inv (\<lambda>s. s) n q" "sm_left q" for n q :: nat
  by (rule posix.sm_live)

section \<open>Properties\<close>

text \<open>The sum the joined threads leave behind.\<close>

lemma mutex_joined_sum:
  assumes "semaphore sa val" "pt_reach (psum_mutex_prog sa n) (psum_mutex_init sa (int q)) s"
    and "mpc s = Joined"
  shows "gsum (shared s) = range_sum 0 (int n * int q)"
proof -
  note L = semaphore.sm_live [OF assms(1), of n q]
  note j = pt_inv.joined_final [OF _ assms(2,3)]
  have I: "pt_inv (psum_mutex_prog sa n) (psum_mutex_init sa (int q)) (sm_inv val n q)"
    using L by (simp add: pt_live_def pt_term_def)
  have "gsum (shared s) = tsum (added q) (thr s) n"
    using j(1) [OF I] by (simp add: sm_inv_def)
  also have "\<dots> = (\<Sum>i < n. range_sum (int i * int q) (int i * int q + int q))"
    unfolding tsum_def
  proof (rule sum.cong)
    fix i assume "i \<in> {..<n}"
    then have "thr s i = Some SM_Done" using j(2) [OF I, of i] by (auto simp: psum_mutex_prog_def)
    then show "(case thr s i of None \<Rightarrow> 0 | Some l \<Rightarrow> added q i l) =
        range_sum (int i * int q) (int i * int q + int q)" by simp
  qed simp
  finally show ?thesis using range_sum_blocks [of "int q" n] by simp
qed

lemma psum_mutex_go:
  assumes "psum_mutex_args argv = PGo n nelems q" "0 < n"
  shows "q = nelems div n" "0 < nelems" "0 \<le> q"
proof -
  from assms(1) obtain lg where s: "shift_one lg = Some nelems" and q: "q = nelems sdiv n"
    by (auto simp: psum_mutex_args_def Let_def split: if_splits option.splits)
  show "0 < nelems" by (rule shift_one_pos [OF s])
  then show "q = nelems div n" "0 \<le> q"
    using q assms(2) by (simp_all add: signed_divide_int_def pos_imp_zdiv_nonneg_iff)
qed

text \<open>Mutual exclusion: with any semaphore that meets the contract of \<open>P\<close> and \<open>V\<close>, in no
  reachable state are two threads between \<open>P\<close> and \<open>V\<close>.\<close>

theorem psum_mutex_exclusion:
  assumes "semaphore sa val"
    and "pt_reach (psum_mutex_prog sa n) (psum_mutex_init sa (int q)) s"
    and "thr s i = Some k" and "in_crit k" and "thr s j = Some l" and "in_crit l"
  shows "i = j"
proof -
  have "pt_inv (psum_mutex_prog sa n) (psum_mutex_init sa (int q)) (sm_inv val n q)"
    using semaphore.sm_live [OF assms(1), of n q] by (simp add: pt_live_def pt_term_def)
  from pt_inv.reach_inv [OF this assms(2)] have "sm_inv val n q (shared s) (thr s)" by simp
  then show ?thesis using assms(3-6) by (auto intro: sm_exclusive)
qed

lemma mutex_crit_reachable:
  "\<exists>s. pt_reach (psum_mutex_prog posix_sem 2) (psum_mutex_init posix_sem 1) s \<and>
     thr s 0 = Some (SM_Locked 0 1)"
proof -
  let ?p = "psum_mutex_prog posix_sem 2" and ?s0 = "psum_mutex_init posix_sem 1"
  let ?sh = "set_mutex_myid 0 ?s0"
  define s1 where "s1 = \<lparr>shared = ?sh, thr = [0 \<mapsto> SM_Entry 0], mpc = Creating 1\<rparr>"
  define s2 where "s2 = s1\<lparr>shared := ?sh, thr := (thr s1)(0 \<mapsto> SM_Loop 0 1)\<rparr>"
  define s3 where "s3 = s2\<lparr>shared := ?sh\<lparr>mutex := 0\<rparr>, thr := (thr s2)(0 \<mapsto> SM_Locked 0 1)\<rparr>"
  have "pt_step ?p (pt_start ?s0) s1"
    using pt_step.create [of "pt_start ?s0" 0 ?p] by (simp add: pt_start_def s1_def psum_mutex_prog_def)
  moreover have "pt_step ?p s1 s2"
    unfolding s2_def by (rule pt_step.run [of _ _ "SM_Entry 0"])
      (simp_all add: s1_def psum_mutex_prog_def psum_mutex_init_def set_mutex_myid_def numeral_eq_Suc)
  moreover have "pt_step ?p s2 s3"
    unfolding s3_def by (rule pt_step.run [of _ _ "SM_Loop 0 1"])
      (simp_all add: s2_def psum_mutex_prog_def psum_mutex_init_def set_mutex_myid_def posix_sem_def)
  ultimately have "pt_reach ?p ?s0 s3" by (blast intro: pt_reach.init pt_reach.step)
  then show ?thesis by (intro exI [of _ s3]) (simp add: s3_def)
qed

theorem psum_mutex_exclusion_witness:
  "\<exists>s. pt_reach (psum_mutex_prog posix_sem 2) (psum_mutex_init posix_sem 1) s \<and>
     {j. \<exists>l. thr s j = Some l \<and> in_crit l} = {0}"
proof -
  obtain s where s: "pt_reach (psum_mutex_prog posix_sem 2) (psum_mutex_init posix_sem 1) s"
    "thr s 0 = Some (SM_Locked 0 1)" using mutex_crit_reachable by blast
  have r: "pt_reach (psum_mutex_prog posix_sem 2) (psum_mutex_init posix_sem (int 1)) s" using s(1) by simp
  have "{j. \<exists>l. thr s j = Some l \<and> in_crit l} = {0}"
    using psum_mutex_exclusion [OF posix.semaphore_axioms r s(2)] s(2) by auto
  with s(1) show ?thesis by blast
qed

lemma psum_mutex_joined:
  assumes "semaphore sa val" "psum_mutex_args argv = PGo n nelems q" "0 < n" "nelems mod n = 0"
    and "pt_reach (psum_mutex_prog sa (nat n)) (psum_mutex_init sa q) s" "mpc s = Joined"
  shows "psum_mutex_report (shared s) nelems = []"
proof -
  note go = psum_mutex_go [OF assms(2,3)]
  have r: "pt_reach (psum_mutex_prog sa (nat n)) (psum_mutex_init sa (int (nat q))) s"
    using assms(5) go(3) by simp
  have "n * q = nelems" using go(1) assms(4) by (auto simp: mod_eq_0_iff_dvd)
  then have "gsum (shared s) = range_sum 0 (int (nat nelems))"
    using mutex_joined_sum [OF assms(1) r assms(6)] go assms(3) by simp
  then show ?thesis using sum_report_gauss [of "nat nelems"] go(2) by (simp add: psum_mutex_report_def)
qed

text \<open>When the number of threads divides the number of elements, no addition is lost: whenever
  all threads are joined, in every interleaving, the sum is right and no error is printed.\<close>

theorem psum_mutex_correct:
  assumes "semaphore sa val" and "psum_mutex_args argv = PGo n nelems q" and "0 < n"
    and "nelems mod n = 0"
    and "pt_reach (psum_mutex_prog sa (nat n)) (psum_mutex_init sa q) s" and "mpc s = Joined"
  shows "psum_mutex_report (shared s) nelems = []"
  using assms by (rule psum_mutex_joined)

text \<open>Without that check the program reports an error on a run that lost nothing: for every
  command line with more than one element whose number of threads does not divide it, whenever all
  threads are joined the sum is short of the last elements and the error is printed.\<close>

theorem psum_mutex_false_error:
  assumes "semaphore sa val" and "psum_mutex_args argv = PGo n nelems q" and "0 < n"
    and "nelems mod n \<noteq> 0" and "1 < nelems"
    and "pt_reach (psum_mutex_prog sa (nat n)) (psum_mutex_init sa q) s" and "mpc s = Joined"
  shows "psum_mutex_report (shared s) nelems \<noteq> []"
proof -
  note go = psum_mutex_go [OF assms(2,3)]
  have r: "pt_reach (psum_mutex_prog sa (nat n)) (psum_mutex_init sa (int (nat q))) s"
    using assms(6) go(3) by simp
  have lt: "n * q < nelems" using go(1) assms(3,4) by (metis mod_mult_div_eq mult.commute
      add.commute less_add_same_cancel1 order_le_less pos_mod_sign)
  have nq: "0 \<le> n * q" using assms(3) go(3) by simp
  have g: "gsum (shared s) = range_sum 0 (n * q)"
    using mutex_joined_sum [OF assms(1) r assms(7)] go assms(3) by simp
  have "range_sum 0 (n * q) + range_sum (n * q) nelems = range_sum 0 nelems"
    using lt nq by (intro range_sum_append) simp_all
  moreover have "range_sum (n * q) nelems = range_sum (n * q) (nelems - 1) + (nelems - 1)"
    using range_sum_Suc [of "n * q" "nelems - 1"] lt by simp
  moreover have "0 \<le> range_sum (n * q) (nelems - 1)"
    unfolding range_sum_def using nq by (intro sum_nonneg) auto
  ultimately have "range_sum 0 (n * q) < range_sum 0 nelems" using assms(5) by simp
  moreover have "(nelems * (nelems - 1)) sdiv 2 = range_sum 0 nelems"
    using range_sum_gauss [of "nat nelems"] go(2) by (simp add: sdiv_two_nonneg)
  ultimately show ?thesis using g by (simp add: psum_mutex_report_def sum_report_def)
qed

text \<open>No deadlock and no livelock: with at most 32 threads no interleaving runs forever, and from
  every reachable state the program gets to the point where all threads are joined.\<close>

theorem psum_mutex_terminates:
  assumes "semaphore sa val" and "n \<le> 32"
  shows "(\<nexists>f. f 0 = pt_start (psum_mutex_init sa (int q)) \<and>
        (\<forall>k. pt_step (psum_mutex_prog sa n) (f k) (f (Suc k)))) \<and>
    (\<forall>s. pt_reach (psum_mutex_prog sa n) (psum_mutex_init sa (int q)) s \<longrightarrow>
       (\<exists>s'. (pt_step (psum_mutex_prog sa n))\<^sup>*\<^sup>* s s' \<and> mpc s' = Joined))"
proof (intro conjI allI impI)
  note L = semaphore.sm_live [OF assms(1), of n q]
  then have T: "pt_term (psum_mutex_prog sa n) (psum_mutex_init sa (int q)) (sm_inv val n q) (sm_left q)"
    by (simp add: pt_live_def)
  show "\<nexists>f. f 0 = pt_start (psum_mutex_init sa (int q)) \<and>
      (\<forall>k. pt_step (psum_mutex_prog sa n) (f k) (f (Suc k)))"
    using pt_term.no_infinite_run [OF T] pt_reach.init by metis
  fix s assume r: "pt_reach (psum_mutex_prog sa n) (psum_mutex_init sa (int q)) s"
  have "nthreads (psum_mutex_prog sa n) \<le> maxthreads (psum_mutex_prog sa n)"
    using assms(2) by (simp add: psum_mutex_prog_def)
  from pt_live.inevitable [OF L r this]
  show "\<exists>s'. (pt_step (psum_mutex_prog sa n))\<^sup>*\<^sup>* s s' \<and> mpc s' = Joined" by blast
qed

theorem psum_mutex_terminates_witness:
  "\<exists>s'. (pt_step (psum_mutex_prog posix_sem 4))\<^sup>*\<^sup>* (pt_start (psum_mutex_init posix_sem 8)) s' \<and> mpc s' = Joined"
  using psum_mutex_terminates [OF posix.semaphore_axioms, of 4 8]
    pt_reach.init [of "psum_mutex_prog posix_sem 4" "psum_mutex_init posix_sem 8"] by auto

lemma mutex_run_joins:
  assumes "n \<le> 32"
  shows "\<exists>s. pt_reach (psum_mutex_prog posix_sem n) (psum_mutex_init posix_sem (int q)) s \<and> mpc s = Joined"
  using sm.inevitable [of n q, OF pt_reach.init] assms by (auto simp: psum_mutex_prog_def)

lemma psum_mutex_args_examples:
  "psum_mutex_args [''psum'', ''2'', ''2''] = PGo 2 4 2"
  "psum_mutex_args [''psum'', ''3'', ''2''] = PGo 3 4 1"
  by (simp_all add: psum_mutex_args_def atoi_def decimal_def isspace_def isdigit_def digits_val_def digit_val_def
      shift_one_def signed_divide_int_def)

theorem psum_mutex_correct_witness:
  "\<exists>s. pt_reach (psum_mutex_prog posix_sem 2) (psum_mutex_init posix_sem 2) s \<and> mpc s = Joined \<and>
     psum_mutex_report (shared s) 4 = []"
proof -
  obtain s where s: "pt_reach (psum_mutex_prog posix_sem 2) (psum_mutex_init posix_sem 2) s" "mpc s = Joined"
    using mutex_run_joins [of 2 2] by auto
  then show ?thesis
    using psum_mutex_correct [OF posix.semaphore_axioms psum_mutex_args_examples(1), of s] by auto
qed

theorem psum_mutex_false_error_witness:
  "\<exists>s. pt_reach (psum_mutex_prog posix_sem 3) (psum_mutex_init posix_sem 1) s \<and> mpc s = Joined \<and>
     psum_mutex_report (shared s) 4 \<noteq> []"
proof -
  obtain s where s: "pt_reach (psum_mutex_prog posix_sem 3) (psum_mutex_init posix_sem 1) s" "mpc s = Joined"
    using mutex_run_joins [of 3 1] by auto
  then show ?thesis
    using psum_mutex_false_error [OF posix.semaphore_axioms psum_mutex_args_examples(2), of s] by auto
qed

end
