(* ===== verification/PsumAgree.thy ===== *)
theory PsumAgree
  imports PsumArray PsumLocal PsumMutex
begin

text \<open>
  The three parallel sums as whole programs: from the command line to the message and the exit
  status. A program that runs several threads may end in several ways, so it is a relation
  between its arguments and its outcome. \<open>psum_spec\<close> is the sequential function that two of them are
  compared with, \<open>psum_mutex_spec\<close> that of the third, which checks less.
\<close>

section \<open>The whole programs\<close>

definition invalid_nelems :: "unit run" where
  "invalid_nelems = Exits [Stdout (''Error: invalid nelems'' @ [LF])] (ExitStatus 0)"

definition psum_array_main :: "string list \<Rightarrow> unit run \<Rightarrow> bool" where
  "psum_array_main argv r =
     (case psum_array_args argv of
        PUsage \<Rightarrow> r = Exits [Stderr (''Usage: '' @ hd argv @ '' <nthreads><log_nelems>'' @ [LF])] (ExitStatus 0)
      | PUndef \<Rightarrow> r = Undef [] BadOperand
      | PInvalid \<Rightarrow> r = invalid_nelems
      | PGo n nelems q \<Rightarrow> pt_outcome (psum_array_prog (nat n)) (psum_init q)
          (\<lambda>sh. final_check (psum_array_report sh (nat n) nelems) nelems) r)"

definition psum_local_main :: "string list \<Rightarrow> unit run \<Rightarrow> bool" where
  "psum_local_main argv r =
     (case psum_local_args argv of
        PUsage \<Rightarrow> False
      | PUndef \<Rightarrow> r = Undef [] BadOperand
      | PInvalid \<Rightarrow> r = invalid_nelems
      | PGo n nelems q \<Rightarrow> pt_outcome (psum_local_prog (nat n)) (psum_init q)
          (\<lambda>sh. final_check (psum_local_report sh (nat n) nelems) nelems) r)"

definition psum_mutex_main :: "'s sem_api \<Rightarrow> string list \<Rightarrow> unit run \<Rightarrow> bool" where
  "psum_mutex_main sa argv r =
     (case psum_mutex_args argv of
        PUsage \<Rightarrow> r = Exits [Stdout (''Usage: '' @ hd argv @ '' <nthreads> <log_nelems>'' @ [LF])] (ExitStatus 0)
      | PUndef \<Rightarrow> r = Undef [] BadOperand
      | PInvalid \<Rightarrow> False
      | PGo n nelems q \<Rightarrow> pt_outcome (psum_mutex_prog sa (nat n)) (psum_mutex_init sa q)
          (\<lambda>sh. final_check (psum_mutex_report sh nelems) nelems) r)"

text \<open>\<open>psum_local_args\<close> never gives \<open>PUsage\<close> and \<open>psum_mutex_args\<close> never \<open>PInvalid\<close>.\<close>

lemma psum_args_range: "psum_local_args argv \<noteq> PUsage" "psum_mutex_args argv \<noteq> PInvalid"
  by (auto simp: psum_local_args_def psum_mutex_args_def Let_def split: option.split)

section \<open>The sequential references\<close>

text \<open>
  What two arguments mean: a number of threads and a number of elements, when both numerals fit an
  \<open>int\<close>, the shift is defined and the division is not one by zero.
\<close>

definition psum_numbers :: "string list \<Rightarrow> (int \<times> int) option" where
  "psum_numbers argv =
     (case (atoi (argv ! 1), atoi (argv ! 2)) of
        (Some n, Some lg) \<Rightarrow> if n = 0 \<or> lg < 0 \<or> 63 \<le> lg then None else Some (n, 2 ^ nat lg)
      | _ \<Rightarrow> None)"

text \<open>\<open>psum-array\<close> and \<open>psum-local\<close>: without threads the sum is 0 and the message appears.\<close>

definition psum_spec :: "string list \<Rightarrow> unit run" where
  "psum_spec argv =
     (case psum_numbers argv of
        None \<Rightarrow> Undef [] BadOperand
      | Some (n, nelems) \<Rightarrow>
          if nelems smod n \<noteq> 0 \<or> 2 ^ 31 < nelems then invalid_nelems
          else if 32 < n then Undef [] Overrun
          else if 0 < n then Exits [] (ExitStatus 0)
          else Exits (sum_report 0 nelems) (ExitStatus 0))"

text \<open>
  \<open>psum-mutex\<close>: the threads add the first \<open>n * (nelems div n)\<close> numbers, all of them only when \<open>n\<close> is a
  divisor; beyond 2 to the 31st elements the product it compares with overflows.
\<close>

definition psum_mutex_spec :: "string list \<Rightarrow> unit run" where
  "psum_mutex_spec argv =
     (case psum_numbers argv of
        None \<Rightarrow> Undef [] BadOperand
      | Some (n, nelems) \<Rightarrow>
          if 32 < n then Undef [] Overrun
          else if 2 ^ 31 < nelems then Undef [] BadOperand
          else Exits (sum_report (if 0 < n then range_sum 0 (n * (nelems div n)) else 0) nelems) (ExitStatus 0))"

lemma psum_numbers_cases:
  obtains "psum_numbers argv = None" "atoi (argv ! 1) = None"
  | "psum_numbers argv = None" "atoi (argv ! 2) = None"
  | n lg where "psum_numbers argv = None" "atoi (argv ! 1) = Some n" "atoi (argv ! 2) = Some lg" "shift_one lg = None"
  | n lg m where "psum_numbers argv = None" "atoi (argv ! 1) = Some n" "atoi (argv ! 2) = Some lg" "shift_one lg = Some m" "n = 0"
  | n lg m where "psum_numbers argv = Some (n, m)" "atoi (argv ! 1) = Some n" "atoi (argv ! 2) = Some lg"
      "shift_one lg = Some m" "n \<noteq> 0" "0 < m" "lg \<le> 31 \<longleftrightarrow> m \<le> 2 ^ 31"
proof (cases "atoi (argv ! 1)")
  case None
  then show thesis using that(1) by (simp add: psum_numbers_def)
next
  case n: (Some n)
  show thesis
  proof (cases "atoi (argv ! 2)")
    case None
    then show thesis using that(2) n by (simp add: psum_numbers_def)
  next
    case lg: (Some lg)
    show thesis
    proof (cases "shift_one lg")
      case None
      then have "psum_numbers argv = None" using n lg by (auto simp: psum_numbers_def shift_one_def split: if_splits)
      from that(3) [OF this n lg None] show thesis .
    next
      case (Some m)
      then have "psum_numbers argv = (if n = 0 then None else Some (n, m))"
        using n lg by (auto simp: psum_numbers_def shift_one_def split: if_splits)
      with that(4,5) [OF _ n lg Some] shift_one_pos [OF Some] shift_one_le_iff [OF Some] show thesis
        by (simp split: if_splits)
    qed
  qed
qed

lemma psum_array_args_numbers:
  assumes "length argv = 3"
  shows "psum_array_args argv =
    (case psum_numbers argv of None \<Rightarrow> PUndef
     | Some (n, nelems) \<Rightarrow> if nelems smod n \<noteq> 0 \<or> 2 ^ 31 < nelems then PInvalid else PGo n nelems (nelems sdiv n))"
  by (cases argv rule: psum_numbers_cases) (use assms in \<open>auto simp: psum_array_args_def split: option.split\<close>)

lemma psum_mutex_args_numbers:
  assumes "length argv = 3"
  shows "psum_mutex_args argv =
    (case psum_numbers argv of None \<Rightarrow> PUndef | Some (n, nelems) \<Rightarrow> PGo n nelems (nelems sdiv n))"
  by (cases argv rule: psum_numbers_cases) (use assms in \<open>auto simp: psum_mutex_args_def split: option.split\<close>)

text \<open>The local version decodes its arguments as the array version does.\<close>

lemma psum_local_args_3: "length argv = 3 \<Longrightarrow> psum_local_args argv = psum_array_args argv"
  by (simp add: psum_local_args_def psum_array_args_def)

lemma psum_mutex_go_product:
  assumes "psum_mutex_args argv = PGo n nelems q"
  shows "long_range (nelems * (nelems - 1)) \<longleftrightarrow> nelems \<le> 2 ^ 31" "0 < nelems"
proof -
  from assms obtain lg where s: "shift_one lg = Some nelems"
    by (auto simp: psum_mutex_args_def split: if_splits option.splits)
  show "0 < nelems" by (rule shift_one_pos [OF s])
  show "long_range (nelems * (nelems - 1)) \<longleftrightarrow> nelems \<le> 2 ^ 31"
    using final_product_iff [OF s] shift_one_le_iff [OF s] by simp
qed

section \<open>What the programs do\<close>

text \<open>What a program does once it has computed its blocks, in the three ranges of \<open>nthreads\<close>.\<close>

definition psum_run_spec :: "int \<Rightarrow> int \<Rightarrow> unit run" where
  "psum_run_spec n nelems =
     (if 32 < n then Undef [] Overrun
      else if 0 < n then Exits [] (ExitStatus 0)
      else Exits (sum_report 0 nelems) (ExitStatus 0))"

lemma psum_array_outcome:
  assumes go: "psum_array_args argv = PGo n nelems q" and m: "0 < nelems" "nelems \<le> 2 ^ 31"
  shows "psum_array_main argv r \<longleftrightarrow> r = psum_run_spec n nelems"
proof (cases "0 < n")
  case True
  then have q: "int (nat q) = q" using psum_array_go(2) [OF go] by simp
  have "final_check (psum_array_report (shared s) (nat n) nelems) nelems = Exits [] (ExitStatus 0)"
    if "nat n \<le> 32" "pt_reach (psum_array_prog (nat n)) (psum_init q) s" "mpc s = Joined" for s
    using psum_array_joined [OF go True _ that(2,3)] that(1) final_product [OF m] by (simp add: final_check_def)
  then show ?thesis
    using sa.outcome_at [where n = "nat n" and q = "nat q" and r = r and res = "Exits [] (ExitStatus 0)" and
        report = "\<lambda>sh. final_check (psum_array_report sh (nat n) nelems) nelems", unfolded q] True
    by (auto simp: psum_array_main_def go psum_run_spec_def psum_array_prog_def nat_le_iff)
next
  case False
  then show ?thesis
    by (simp add: psum_array_main_def go no_threads_outcome psum_array_prog_def psum_run_spec_def
        psum_array_report_def add_up_def final_check_def final_product [OF m])
qed

lemma psum_local_outcome:
  assumes go: "psum_local_args argv = PGo n nelems q" and m: "0 < nelems" "nelems \<le> 2 ^ 31"
  shows "psum_local_main argv r \<longleftrightarrow> r = psum_run_spec n nelems"
proof (cases "0 < n")
  case True
  then have q: "int (nat q) = q" using psum_local_go(2) [OF go] by simp
  have "final_check (psum_local_report (shared s) (nat n) nelems) nelems = Exits [] (ExitStatus 0)"
    if "nat n \<le> 32" "pt_reach (psum_local_prog (nat n)) (psum_init q) s" "mpc s = Joined" for s
    using psum_local_joined [OF go True _ that(2,3)] that(1) final_product [OF m] by (simp add: final_check_def)
  then show ?thesis
    using sl.outcome_at [where n = "nat n" and q = "nat q" and r = r and res = "Exits [] (ExitStatus 0)" and
        report = "\<lambda>sh. final_check (psum_local_report sh (nat n) nelems) nelems", unfolded q] True
    by (auto simp: psum_local_main_def go psum_run_spec_def psum_local_prog_def nat_le_iff)
next
  case False
  then show ?thesis
    by (simp add: psum_local_main_def go no_threads_outcome psum_local_prog_def psum_run_spec_def
        psum_local_report_def add_up_def final_check_def final_product [OF m])
qed

lemma psum_mutex_outcome:
  assumes sem: "semaphore sa val" and go: "psum_mutex_args argv = PGo n nelems q"
  shows "psum_mutex_main sa argv r \<longleftrightarrow> r =
    (if 32 < n then Undef [] Overrun
     else if 2 ^ 31 < nelems then Undef [] BadOperand
     else Exits (sum_report (if 0 < n then range_sum 0 (n * (nelems div n)) else 0) nelems) (ExitStatus 0))"
proof (cases "0 < n")
  case True
  note g = psum_mutex_go [OF go True]
  then have q: "int (nat q) = q" by simp
  let ?es = "sum_report (range_sum 0 (n * (nelems div n))) nelems"
  have "final_check (psum_mutex_report (shared s) nelems) nelems = final_check ?es nelems"
    if "pt_reach (psum_mutex_prog sa (nat n)) (psum_mutex_init sa q) s" "mpc s = Joined" for s
    using mutex_joined_sum [OF sem, of "nat n" "nat q" s] that True g by (simp add: psum_mutex_report_def)
  then have "psum_mutex_main sa argv r \<longleftrightarrow>
      r = (if nat n \<le> 32 then final_check ?es nelems else Undef [] Overrun)"
    using pt_live.outcome_at [OF semaphore.sm_live [OF sem, of "nat n" "nat q"], where r = r and
        report = "\<lambda>sh. final_check (psum_mutex_report sh nelems) nelems", unfolded q]
    by (simp add: psum_mutex_main_def go psum_mutex_prog_def)
  then show ?thesis using True psum_mutex_go_product [OF go] by (auto simp: final_check_def)
next
  case False
  then show ?thesis using psum_mutex_go_product [OF go]
    by (simp add: psum_mutex_main_def go no_threads_outcome psum_mutex_prog_def
        psum_mutex_report_def psum_mutex_init_def final_check_def)
qed

lemma psum_spec_cases:
  assumes "length argv = 3"
    and "\<And>n nelems q. psum_array_args argv = PGo n nelems q \<Longrightarrow> 0 < nelems \<Longrightarrow> nelems \<le> 2 ^ 31 \<Longrightarrow>
      R \<longleftrightarrow> r = psum_run_spec n nelems"
    and "psum_array_args argv = PUndef \<Longrightarrow> R \<longleftrightarrow> r = Undef [] BadOperand"
    and "psum_array_args argv = PInvalid \<Longrightarrow> R \<longleftrightarrow> r = invalid_nelems"
  shows "R \<longleftrightarrow> r = psum_spec argv"
proof (cases argv rule: psum_numbers_cases)
  case (5 n lg m)
  then show ?thesis using assms(2) [of n m "m sdiv n"] assms(4)
    by (auto simp: psum_array_args_numbers [OF assms(1)] psum_spec_def psum_run_spec_def)
qed (use assms(3) in \<open>simp_all add: psum_array_args_numbers [OF assms(1)] psum_spec_def\<close>)

text \<open>Where the others reject nothing, the check that \<open>psum-mutex\<close> does not make is one that holds.\<close>

lemma psum_mutex_spec_eq:
  assumes "psum_spec argv \<noteq> invalid_nelems"
  shows "psum_mutex_spec argv = psum_spec argv"
proof (cases argv rule: psum_numbers_cases)
  case (5 n lg m)
  then have a: "m smod n = 0" "m \<le> 2 ^ 31" using assms by (auto simp: psum_spec_def split: if_splits)
  have "sum_report (range_sum 0 (n * (m div n))) m = []" if "0 < n"
  proof -
    have "m mod n = 0" using a(1) 5(6) that by (simp add: signed_modulo_int_def)
    then have "n * (m div n) = int (nat m)" using 5(6) by (auto simp: mod_eq_0_iff_dvd)
    then show ?thesis using sum_report_gauss [of "nat m"] 5(6) by simp
  qed
  then show ?thesis using a 5 by (simp add: psum_spec_def psum_mutex_spec_def)
qed (simp_all add: psum_spec_def psum_mutex_spec_def)

section \<open>The programs agree\<close>

text \<open>C7: each of the three programs has, over all interleavings, exactly one outcome, that of a sequential
  function of its two arguments (and always has it: no run is lost): \<open>psum-array\<close> and \<open>psum-local\<close>
  that of \<open>psum_spec\<close>, \<open>psum-mutex\<close>, with any semaphore that meets its contract, that of \<open>psum_mutex_spec\<close>.
  The two functions agree, and so do the three programs, on every command line that the first two do not
  reject as invalid; there \<open>psum-mutex\<close> goes on, and reports an error, or nothing is known of it.\<close>

theorem psum_programs_agree:
  assumes "length argv = 3" and "semaphore sa val"
  shows "(psum_array_main argv r \<longleftrightarrow> r = psum_spec argv) \<and>
    (psum_local_main argv r \<longleftrightarrow> r = psum_spec argv) \<and>
    (psum_mutex_main sa argv r \<longleftrightarrow> r = psum_mutex_spec argv) \<and>
    (psum_spec argv \<noteq> invalid_nelems \<longrightarrow> psum_mutex_spec argv = psum_spec argv)"
proof (intro conjI impI psum_mutex_spec_eq)
  show "psum_array_main argv r \<longleftrightarrow> r = psum_spec argv"
    by (rule psum_spec_cases [OF assms(1) psum_array_outcome]) (simp_all add: psum_array_main_def)
  show "psum_local_main argv r \<longleftrightarrow> r = psum_spec argv"
    using psum_local_args_3 [OF assms(1)]
    by (intro psum_spec_cases [OF assms(1)] psum_local_outcome) (simp_all add: psum_local_main_def)
  note args = psum_mutex_args_numbers [OF assms(1)]
  show "psum_mutex_main sa argv r \<longleftrightarrow> r = psum_mutex_spec argv"
  proof (cases "psum_numbers argv")
    case None
    then show ?thesis by (simp add: psum_mutex_main_def psum_mutex_spec_def args)
  next
    case (Some p)
    then show ?thesis using psum_mutex_outcome [OF assms(2), of argv "fst p" "snd p"] args
      by (cases p) (simp add: psum_mutex_spec_def)
  qed
qed

text \<open>Four threads for eight elements; three threads for eight elements, which two of the programs reject
  while the third sums up 0 to 5; and a number of threads that is no \<open>int\<close>.\<close>

theorem psum_programs_agree_witness:
  "psum_array_main [''psum'', ''4'', ''3''] (Exits [] (ExitStatus 0)) \<and>
   psum_mutex_main posix_sem [''psum'', ''4'', ''3''] (Exits [] (ExitStatus 0)) \<and>
   psum_local_main [''psum'', ''3'', ''3''] invalid_nelems \<and>
   psum_mutex_main posix_sem [''psum'', ''3'', ''3''] (Exits [Stdout (''Error: result=15'' @ [LF])] (ExitStatus 0)) \<and>
   psum_array_main [''psum'', ''4294967297'', ''3''] (Undef [] BadOperand)"
proof -
  have rs: "range_sum 0 6 = 15" using range_sum_gauss [of 6] by simp
  have dec: "int_dec 15 = ''15''" by (simp add: int_dec_def nat_dec.simps digit_char_def char_of_def bit_0)
  have num: "psum_numbers [''psum'', ''4'', ''3''] = Some (4, 8)" "psum_numbers [''psum'', ''3'', ''3''] = Some (3, 8)"
    "psum_numbers [''psum'', ''4294967297'', ''3''] = None"
    by (simp_all add: psum_numbers_def atoi_def decimal_def isspace_def isdigit_def digits_val_def digit_val_def)
  have "psum_spec [''psum'', ''4'', ''3''] = Exits [] (ExitStatus 0)"
    "psum_mutex_spec [''psum'', ''4'', ''3''] = psum_spec [''psum'', ''4'', ''3'']"
    "psum_spec [''psum'', ''3'', ''3''] = invalid_nelems"
    "psum_mutex_spec [''psum'', ''3'', ''3''] = Exits [Stdout (''Error: result=15'' @ [LF])] (ExitStatus 0)"
    "psum_spec [''psum'', ''4294967297'', ''3''] = Undef [] BadOperand"
    using sum_report_gauss [of 8]
    by (simp_all add: psum_spec_def psum_mutex_spec_def num sum_report_def signed_modulo_int_def rs dec
        signed_divide_int_def)
  then show ?thesis
    using psum_programs_agree [OF _ posix.semaphore_axioms, of "[''psum'', ''4'', ''3'']"]
      psum_programs_agree [OF _ posix.semaphore_axioms, of "[''psum'', ''3'', ''3'']"]
      psum_programs_agree [OF _ posix.semaphore_axioms, of "[''psum'', ''4294967297'', ''3'']"]
    by simp
qed

end
