(* ===== verification/PsumRanges.thy ===== *)
theory PsumRanges
  imports PsumAgree
begin

text \<open>
  No signed overflow in the parallel sums: the models compute with integers, and here it is shown that
  every value the three programs compute fits a \<open>long\<close>, up to the bound of 2 to the 31st elements that
  two of them enforce; and that the third, which does not enforce it, overflows beyond it.
\<close>

section \<open>The values of a thread\<close>

text \<open>The variables of a thread, and what its next step computes from them.\<close>

fun sa_values :: "sa_pc \<Rightarrow> int list" where
  "sa_values (SA_Loop me i e) = [me, i, e]"
| "sa_values (SA_Store me i e tmp) = [me, i, e, tmp, tmp + i, i + 1]"
| "sa_values _ = []"

fun sl_values :: "sl_pc \<Rightarrow> int list" where
  "sl_values (SL_Loop me i e acc) = [me, i, e, acc] @ (if i < e then [acc + i, i + 1] else [])"
| "sl_values _ = []"

fun sm_values :: "sm_pc \<Rightarrow> int list" where
  "sm_values (SM_Loop i e) = [i, e]"
| "sm_values (SM_Locked i e) = [i, e]"
| "sm_values (SM_Loaded i e tmp) = [i, e, tmp, tmp + i]"
| "sm_values (SM_Stored i e) = [i, e, i + 1]"
| "sm_values _ = []"

definition small :: "int \<Rightarrow> bool" where
  "small x \<longleftrightarrow> 0 \<le> x \<and> x \<le> 2 ^ 62 + 2 ^ 31"

lemma small_long: "small x \<Longrightarrow> long_range x"
  by (simp add: small_def long_range_def)

lemma small_range_sum: "0 \<le> a \<Longrightarrow> b \<le> 2 ^ 31 \<Longrightarrow> small (range_sum a b)"
  using range_sum_bounds [of a b] by (simp add: small_def)

lemma block_top:
  assumes "i < nat n" "0 \<le> q" "q * n = nelems" "nelems \<le> 2 ^ 31"
  shows "int i * q + q \<le> 2 ^ 31" "0 \<le> int i * q"
proof -
  have "int i + 1 \<le> n" using assms(1) by simp
  then have "(int i + 1) * q \<le> n * q" using assms(2) by (intro mult_right_mono) simp_all
  then show "int i * q + q \<le> 2 ^ 31" using assms(3,4) by (simp add: algebra_simps)
qed (use assms(2) in simp)

lemma small_index: "0 \<le> a \<Longrightarrow> a \<le> k \<Longrightarrow> k \<le> 2 ^ 31 \<Longrightarrow> small k \<and> small (k + 1)"
  by (simp add: small_def)

lemma range_sum_step: "0 \<le> a \<Longrightarrow> a \<le> k \<Longrightarrow> k < b \<Longrightarrow> b \<le> 2 ^ 31 \<Longrightarrow> small (range_sum a k + k)"
  using range_sum_Suc [of a k] small_range_sum [of a "k + 1"] by simp

section \<open>The programs\<close>

lemma sa_values_small:
  assumes "sa_ok q sh i l" "int i * int q + int q \<le> 2 ^ 31" "i < 32"
  shows "small (psum sh ! i)" "list_all small (sa_values l)"
proof -
  have nn: "0 \<le> int i * int q" by simp
  show "small (psum sh ! i)" using assms(1,2) nn small_range_sum [of "int i * int q"]
    by (cases l) (auto simp: small_def [of 0])
  show "list_all small (sa_values l)"
  proof (cases l)
    case (SA_Loop me k e)
    then show ?thesis using assms small_index [OF nn, of k] small_index [OF nn, of e] by (simp add: small_def [of "int i"])
  next
    case (SA_Store me k e tmp)
    then show ?thesis using assms small_index [OF nn, of k] small_index [OF nn, of e]
        small_range_sum [OF nn, of k] range_sum_step [OF nn, of k e] by (simp add: small_def [of "int i"])
  qed simp_all
qed

lemma zero_small: "small 0"
  by (simp add: small_def)

lemma sa_state_small:
  assumes "sa_inv q sh t" "\<And>i pc. t i = Some pc \<Longrightarrow> int i * int q + int q \<le> 2 ^ 31"
  shows "list_all small (psum sh)" "t i = Some pc \<Longrightarrow> list_all small (sa_values pc)"
proof -
  have "small (psum sh ! i)" if i: "i < 32" for i
  proof (cases "t i")
    case (Some pc)
    then have "sa_ok q sh i pc" using assms(1) unfolding sa_inv_def by blast
    then show ?thesis using assms(2) [OF Some] i by (rule sa_values_small(1))
  qed (use assms(1) i zero_small in \<open>simp add: sa_inv_def\<close>)
  then show "list_all small (psum sh)" using assms(1) by (simp add: list_all_length sa_inv_def)
  show "list_all small (sa_values pc)" if "t i = Some pc"
    using assms(1) that sa_values_small(2) [OF _ assms(2) [OF that]] unfolding sa_inv_def by blast
qed

lemma sl_values_small:
  assumes "sl_ok q sh i l" "int i * int q + int q \<le> 2 ^ 31" "i < 32"
  shows "small (psum sh ! i)" "list_all small (sl_values l)"
proof -
  have nn: "0 \<le> int i * int q" by simp
  show "small (psum sh ! i)" using assms(1,2) nn small_range_sum [of "int i * int q"]
    by (cases l) (auto simp: small_def [of 0])
  show "list_all small (sl_values l)"
  proof (cases l)
    case (SL_Loop me k e acc)
    then show ?thesis using assms small_index [OF nn, of k] small_index [OF nn, of e]
        small_range_sum [OF nn, of k] range_sum_step [OF nn, of k e] by (simp add: small_def [of "int i"])
  qed simp_all
qed

lemma sl_state_small:
  assumes "sl_inv q sh t" "\<And>i pc. t i = Some pc \<Longrightarrow> int i * int q + int q \<le> 2 ^ 31"
  shows "list_all small (psum sh)" "t i = Some pc \<Longrightarrow> list_all small (sl_values pc)"
proof -
  have "small (psum sh ! i)" if i: "i < 32" for i
  proof (cases "t i")
    case (Some pc)
    then have "sl_ok q sh i pc" using assms(1) unfolding sl_inv_def by blast
    then show ?thesis using assms(2) [OF Some] i by (rule sl_values_small(1))
  qed (use assms(1) i zero_small in \<open>simp add: sl_inv_def\<close>)
  then show "list_all small (psum sh)" using assms(1) by (simp add: list_all_length sl_inv_def)
  show "list_all small (sl_values pc)" if "t i = Some pc"
    using assms(1) that sl_values_small(2) [OF _ assms(2) [OF that]] unfolding sl_inv_def by blast
qed

lemma sm_values_small:
  assumes "sm_ok q g i l" "int i * int q + int q \<le> 2 ^ 31" "0 \<le> g" "g \<le> 2 ^ 62"
  shows "list_all small (sm_values l)"
proof (cases l)
  case (SM_Loaded k e tmp)
  then have "0 \<le> k" "k \<le> 2 ^ 31" using assms order_trans [of 0 "int i * int q" k] by simp_all
  with SM_Loaded show ?thesis using assms small_index [of "int i * int q"] by (simp add: small_def)
next
  case (SM_Loop k e)
  then show ?thesis using assms small_index [of "int i * int q" k] small_index [of "int i * int q" e] by simp
next
  case (SM_Locked k e)
  then show ?thesis using assms small_index [of "int i * int q" k] small_index [of "int i * int q" e] by simp
next
  case (SM_Stored k e)
  then show ?thesis using assms small_index [of "int i * int q" k] small_index [of "int i * int q" e] by simp
qed simp_all

text \<open>The shared sum never exceeds the sum of all elements.\<close>

lemma range_sum_nonneg: "0 \<le> a \<Longrightarrow> 0 \<le> range_sum a b"
  unfolding range_sum_def by (intro sum_nonneg) auto

lemma range_sum_mono: "0 \<le> a \<Longrightarrow> b \<le> c \<Longrightarrow> range_sum a b \<le> range_sum a c"
  unfolding range_sum_def by (intro sum_mono2) auto

lemma added_bounds:
  assumes "sm_ok q g i l"
  shows "0 \<le> added q i l" "added q i l \<le> range_sum (int i * int q) (int i * int q + int q)"
proof -
  have nn: "0 \<le> int i * int q" by simp
  have pos: "0 \<le> range_sum (int i * int q) k" for k by (rule range_sum_nonneg [OF nn])
  show "0 \<le> added q i l" using pos by (cases l) simp_all
  show "added q i l \<le> range_sum (int i * int q) (int i * int q + int q)"
    using assms range_sum_mono [OF nn] pos by (cases l) simp_all
qed

lemma gsum_bounds:
  assumes "sm_inv val n q sh t" "int n * int q \<le> 2 ^ 31"
  shows "0 \<le> gsum sh" "gsum sh \<le> 2 ^ 62"
proof -
  have g: "gsum sh = tsum (added q) t n" using assms(1) by (simp add: sm_inv_def)
  have ok: "sm_ok q (gsum sh) i l" if "t i = Some l" for i l
    using assms(1) that unfolding sm_inv_def by blast
  have pos: "0 \<le> range_sum (int i * int q) k" for i k by (rule range_sum_nonneg) simp
  show "0 \<le> gsum sh" unfolding g tsum_def
    by (intro sum_nonneg) (auto split: option.split dest: added_bounds(1) [OF ok])
  have "gsum sh \<le> (\<Sum>i < n. range_sum (int i * int q) (int i * int q + int q))" unfolding g tsum_def
    by (intro sum_mono) (auto split: option.split dest: added_bounds(2) [OF ok] simp: pos)
  also have "\<dots> = range_sum 0 (int n * int q)" by (rule range_sum_blocks) simp
  also have "\<dots> \<le> 2 ^ 62" by (rule range_sum_bounds(2)) (use assms(2) in simp_all)
  finally show "gsum sh \<le> 2 ^ 62" .
qed

section \<open>The values of a program\<close>

text \<open>
  All that a program computes in a state: the variables of the threads and what their next steps compute, the
  numbers of \<open>main\<close> that depend on the arguments, and when the threads are joined the values that \<open>result\<close> takes.
\<close>

definition thread_values :: "('l \<Rightarrow> int list) \<Rightarrow> ('sh, 'l) psys \<Rightarrow> int set" where
  "thread_values values s = (\<Union>pc \<in> ran (thr s). set (values pc))"

definition main_values :: "int \<Rightarrow> int \<Rightarrow> int set" where
  "main_values nelems q = {nelems, q, nelems - 1, nelems * (nelems - 1)}"

definition partial_results :: "nat \<Rightarrow> (psum_sh, 'l) psys \<Rightarrow> int set" where
  "partial_results n s = (if mpc s = Joined then add_up (psum (shared s)) ` {..n} else {})"

definition array_values :: "int \<Rightarrow> int \<Rightarrow> int \<Rightarrow> (psum_sh, sa_pc) psys \<Rightarrow> int set" where
  "array_values n nelems q s =
     set (psum (shared s)) \<union> thread_values sa_values s \<union> partial_results (nat n) s \<union> main_values nelems q"

definition local_values :: "int \<Rightarrow> int \<Rightarrow> int \<Rightarrow> (psum_sh, sl_pc) psys \<Rightarrow> int set" where
  "local_values n nelems q s =
     set (psum (shared s)) \<union> thread_values sl_values s \<union> partial_results (nat n) s \<union> main_values nelems q"

definition mutex_values :: "int \<Rightarrow> int \<Rightarrow> ('s mutex_sh, sm_pc) psys \<Rightarrow> int set" where
  "mutex_values nelems q s = {gsum (shared s)} \<union> thread_values sm_values s \<union> main_values nelems q"

lemma abs_sdiv: "0 < m \<Longrightarrow> n \<noteq> 0 \<Longrightarrow> \<bar>(m :: int) sdiv n\<bar> \<le> m"
proof -
  assume m: "0 < m" "n \<noteq> 0"
  have "m div \<bar>n\<bar> \<le> m" "0 \<le> m div \<bar>n\<bar>"
    using m zdiv_mono2 [of m 1 "\<bar>n\<bar>"] by (simp_all add: pos_imp_zdiv_nonneg_iff)
  then show ?thesis using m by (cases "0 < n") (simp_all add: signed_divide_int_def abs_mult sgn_if)
qed

lemma main_values_long:
  assumes "0 < nelems" "nelems \<le> 2 ^ 31" "n \<noteq> 0" "q = nelems sdiv n"
  shows "Ball (main_values nelems q) long_range"
proof -
  have "\<bar>q\<bar> \<le> 2 ^ 31" using abs_sdiv [OF assms(1,3)] assms(2,4) by simp
  then show ?thesis using final_product [OF assms(1,2)] assms(1,2) by (auto simp: main_values_def long_range_def)
qed

lemma thread_values_long: "(\<And>i pc. thr s i = Some pc \<Longrightarrow> list_all small (f pc)) \<Longrightarrow> Ball (thread_values f s) long_range"
  unfolding thread_values_def ran_def by (auto simp: list_all_iff small_long)

lemma no_threads_values: "thr s = Map.empty \<Longrightarrow> thread_values f s = {}"
  by (simp add: thread_values_def)

lemma psum_long: "list_all small (psum sh) \<Longrightarrow> Ball (set (psum sh)) long_range"
  by (auto simp: list_all_iff small_long)

lemma partial_results_long:
  assumes "\<And>i. mpc s = Joined \<Longrightarrow> i < n \<Longrightarrow> psum (shared s) ! i = range_sum (int i * q) (int i * q + q)"
    and "0 \<le> q" "q * int n \<le> 2 ^ 31"
  shows "Ball (partial_results n s) long_range"
proof -
  have "long_range (add_up (psum (shared s)) j)" if "mpc s = Joined" "j \<le> n" for j
  proof -
    have "add_up (psum (shared s)) j = range_sum 0 (int j * q)"
      using assms(1) [OF that(1)] that(2) range_sum_blocks [OF assms(2), of j] by (simp add: add_up_sum)
    moreover have "int j * q \<le> int n * q" using that(2) assms(2) by (intro mult_right_mono) simp_all
    ultimately show ?thesis using small_range_sum [of 0 "int j * q"] assms(3) small_long by (simp add: mult.commute)
  qed
  then show ?thesis by (auto simp: partial_results_def)
qed

text \<open>Without threads nothing is added up.\<close>

lemma no_threads_long:
  assumes "pt_reach p (psum_init q) s" "nthreads p = 0"
  shows "Ball (set (psum (shared s))) long_range" "Ball (thread_values f s) long_range"
    "Ball (partial_results 0 s) long_range"
  using no_threads_reach [OF assms] small_long [OF zero_small]
  by (simp_all add: psum_init_def no_threads_values partial_results_def add_up_def)

lemma psum_args_go:
  assumes "psum_array_args argv = PGo n nelems q \<or> psum_local_args argv = PGo n nelems q"
  shows "n \<noteq> 0" "q = nelems sdiv n" "0 < nelems" "nelems \<le> 2 ^ 31"
proof -
  from assms obtain lg where "shift_one lg = Some nelems" "q = nelems sdiv n" "lg \<le> 31" "n \<noteq> 0"
    by (auto simp: psum_array_args_def psum_local_args_def split: if_splits option.splits)
  then show "n \<noteq> 0" "q = nelems sdiv n" "0 < nelems" "nelems \<le> 2 ^ 31"
    using shift_one_le [of lg nelems] shift_one_pos [of lg nelems] by simp_all
qed

lemma array_values_long:
  assumes go: "psum_array_args argv = PGo n nelems q" and r: "pt_reach (psum_array_prog (nat n)) (psum_init q) s"
  shows "Ball (array_values n nelems q s) long_range"
proof -
  have "Ball (set (psum (shared s))) long_range \<and> Ball (thread_values sa_values s) long_range \<and>
    Ball (partial_results (nat n) s) long_range"
  proof (cases "0 < n")
    case True
    note g = psum_array_go [OF go True]
    define k where "k = nat q"
    have q: "q = int k" using g(2) by (simp add: k_def)
    note r = r [unfolded q]
    have inv: "sa_inv k (shared s) (thr s)" "\<And>i pc. thr s i = Some pc \<Longrightarrow> i < nat n"
      using sa.reach_inv [OF r] sa.control_dom [of "nat n" "thr s" "mpc s"] by (auto simp: psum_array_prog_def)
    have top: "int i * int k + int k \<le> 2 ^ 31" if "thr s i = Some pc" for i pc
      using block_top(1) [OF inv(2) [OF that], of q nelems] g q by simp
    have "list_all small (psum (shared s))" by (rule sa_state_small(1) [OF inv(1)]) (rule top)
    then have psums: "Ball (set (psum (shared s))) long_range" by (rule psum_long)
    have "list_all small (sa_values pc)" if "thr s i = Some pc" for i pc
      by (rule sa_state_small(2) [OF inv(1) _ that]) (rule top)
    then have threads: "Ball (thread_values sa_values s) long_range" by (rule thread_values_long)
    have "psum (shared s) ! i = range_sum (int i * q) (int i * q + q)" if "mpc s = Joined" "i < nat n" for i
    proof -
      have "thr s i = Some SA_Done" using sa.joined_final(2) [OF r that(1), of i] that(2) by (auto simp: psum_array_prog_def)
      then have "sa_ok k (shared s) i SA_Done" using inv(1) unfolding sa_inv_def by blast
      then show ?thesis by (simp add: q)
    qed
    moreover have "0 \<le> q" "q * int (nat n) \<le> 2 ^ 31" using g(1,2) True psum_args_go(4) [of argv n nelems q] go by simp_all
    ultimately have "Ball (partial_results (nat n) s) long_range" by (rule partial_results_long)
    with psums threads show ?thesis by simp
  next
    case False
    then show ?thesis using no_threads_long [OF r] by (simp add: psum_array_prog_def)
  qed
  moreover have "psum_array_args argv = PGo n nelems q \<or> psum_local_args argv = PGo n nelems q" using go by simp
  note a = psum_args_go [OF this]
  have "Ball (main_values nelems q) long_range" by (rule main_values_long [OF a(3,4,1,2)])
  ultimately show ?thesis unfolding array_values_def by blast
qed

lemma local_values_long:
  assumes go: "psum_local_args argv = PGo n nelems q" and r: "pt_reach (psum_local_prog (nat n)) (psum_init q) s"
  shows "Ball (local_values n nelems q s) long_range"
proof -
  have "Ball (set (psum (shared s))) long_range \<and> Ball (thread_values sl_values s) long_range \<and>
    Ball (partial_results (nat n) s) long_range"
  proof (cases "0 < n")
    case True
    note g = psum_local_go [OF go True]
    define k where "k = nat q"
    have q: "q = int k" using g(2) by (simp add: k_def)
    note r = r [unfolded q]
    have inv: "sl_inv k (shared s) (thr s)" "\<And>i pc. thr s i = Some pc \<Longrightarrow> i < nat n"
      using sl.reach_inv [OF r] sl.control_dom [of "nat n" "thr s" "mpc s"] by (auto simp: psum_local_prog_def)
    have top: "int i * int k + int k \<le> 2 ^ 31" if "thr s i = Some pc" for i pc
      using block_top(1) [OF inv(2) [OF that], of q nelems] g q by simp
    have "list_all small (psum (shared s))" by (rule sl_state_small(1) [OF inv(1)]) (rule top)
    then have psums: "Ball (set (psum (shared s))) long_range" by (rule psum_long)
    have "list_all small (sl_values pc)" if "thr s i = Some pc" for i pc
      by (rule sl_state_small(2) [OF inv(1) _ that]) (rule top)
    then have threads: "Ball (thread_values sl_values s) long_range" by (rule thread_values_long)
    have "psum (shared s) ! i = range_sum (int i * q) (int i * q + q)" if "mpc s = Joined" "i < nat n" for i
    proof -
      have "thr s i = Some SL_Done" using sl.joined_final(2) [OF r that(1), of i] that(2) by (auto simp: psum_local_prog_def)
      then have "sl_ok k (shared s) i SL_Done" using inv(1) unfolding sl_inv_def by blast
      then show ?thesis by (simp add: q)
    qed
    moreover have "0 \<le> q" "q * int (nat n) \<le> 2 ^ 31" using g(1,2) True psum_args_go(4) [of argv n nelems q] go by simp_all
    ultimately have "Ball (partial_results (nat n) s) long_range" by (rule partial_results_long)
    with psums threads show ?thesis by simp
  next
    case False
    then show ?thesis using no_threads_long [OF r] by (simp add: psum_local_prog_def)
  qed
  moreover have "psum_array_args argv = PGo n nelems q \<or> psum_local_args argv = PGo n nelems q" using go by simp
  note a = psum_args_go [OF this]
  have "Ball (main_values nelems q) long_range" by (rule main_values_long [OF a(3,4,1,2)])
  ultimately show ?thesis unfolding local_values_def by blast
qed

lemma mutex_values_long:
  assumes sem: "semaphore sa val" and go: "psum_mutex_args argv = PGo n nelems q" and le: "nelems \<le> 2 ^ 31"
    and r: "pt_reach (psum_mutex_prog sa (nat n)) (psum_mutex_init sa q) s"
  shows "Ball (mutex_values nelems q s) long_range"
proof -
  have "long_range (gsum (shared s)) \<and> Ball (thread_values sm_values s) long_range"
  proof (cases "0 < n")
    case True
    note g = psum_mutex_go [OF go True]
    define k where "k = nat q"
    have q: "q = int k" using g(3) by (simp add: k_def)
    have nq: "int (nat n) * int k \<le> 2 ^ 31"
    proof -
      have "n * (nelems div n) \<le> nelems"
        using mult_div_mod_eq [of n nelems] pos_mod_sign [OF True, of nelems] by linarith
      then show ?thesis using q g(1) le True by simp
    qed
    have P: "pt_inv (psum_mutex_prog sa (nat n)) (psum_mutex_init sa (int k)) (sm_inv val (nat n) k)"
      using semaphore.sm_live [OF sem, of "nat n" k] by (simp add: pt_live_def pt_term_def)
    have M: "sm_inv val (nat n) k (shared s) (thr s)" using pt_inv.reach_inv [OF P] r q by simp
    note gs = gsum_bounds [OF M nq]
    have "list_all small (sm_values pc)" if t: "thr s i = Some pc" for i pc
    proof -
      have ok: "sm_ok k (gsum (shared s)) i pc" "i < nat n" using M t unfolding sm_inv_def by blast+
      have "(int i + 1) * int k \<le> int (nat n) * int k" by (rule mult_right_mono) (use ok(2) in linarith, simp)
      then have "int i * int k + int k \<le> int (nat n) * int k" by (simp only: distrib_right mult_1)
      then show ?thesis using sm_values_small [OF ok(1) _ gs] nq by simp
    qed
    then have "Ball (thread_values sm_values s) long_range" by (rule thread_values_long)
    then show ?thesis using gs by (simp add: long_range_def)
  next
    case False
    then show ?thesis using no_threads_reach [OF r] small_long [OF zero_small]
      by (simp add: psum_mutex_prog_def psum_mutex_init_def no_threads_values)
  qed
  moreover have "n \<noteq> 0" "q = nelems sdiv n"
    using go by (auto simp: psum_mutex_args_def split: if_splits option.splits)
  then have "Ball (main_values nelems q) long_range"
    by (rule main_values_long [OF psum_mutex_go_product(2) [OF go] le])
  ultimately show ?thesis unfolding mutex_values_def by blast
qed

section \<open>Property\<close>

text \<open>C37: no signed overflow: each program with arguments of its own that pass its own checks, whatever the number
  of threads, in every state of every interleaving. The elements of \<open>psum\<close> or \<open>gsum\<close>, the variables of every thread
  and what its next step computes, the numbers of \<open>main\<close> up to the product of the final check and every
  value \<open>result\<close> takes are values of type \<open>long\<close>: of \<open>psum-array\<close> and \<open>psum-local\<close> always, of \<open>psum-mutex\<close> up to 2 to
  the 31st elements. \<open>psum-mutex\<close> accepts more, and then the product of its check always overflows.\<close>

theorem psum_no_overflow:
  assumes "semaphore sa val"
    and "psum_array_args argv = PGo n nelems q" and "pt_reach (psum_array_prog (nat n)) (psum_init q) s"
    and "psum_local_args argv' = PGo n' nelems' q'" and "pt_reach (psum_local_prog (nat n')) (psum_init q') s'"
    and "psum_mutex_args argv'' = PGo n'' nelems'' q''"
    and "pt_reach (psum_mutex_prog sa (nat n'')) (psum_mutex_init sa q'') s''"
  shows "Ball (array_values n nelems q s) long_range \<and> Ball (local_values n' nelems' q' s') long_range \<and>
    (nelems'' \<le> 2 ^ 31 \<longrightarrow> Ball (mutex_values nelems'' q'' s'') long_range) \<and>
    (long_range (nelems'' * (nelems'' - 1)) \<longleftrightarrow> nelems'' \<le> 2 ^ 31)"
  using array_values_long [OF assms(2,3)] local_values_long [OF assms(4,5)]
    mutex_values_long [OF assms(1,6) _ assms(7)] psum_mutex_go_product(1) [OF assms(6)] by blast

text \<open>Two, minus one and two threads; the second command line leaves \<open>nelems_per_thread\<close> negative.\<close>

theorem psum_no_overflow_witness:
  "array_values 2 4 2 (pt_start (psum_init 2)) \<subseteq> Collect long_range \<and>
   local_values (- 1) 8 (- 8) (pt_start (psum_init (- 8))) \<subseteq> Collect long_range \<and>
   mutex_values 4 2 (pt_start (psum_mutex_init posix_sem 2)) \<subseteq> Collect long_range"
proof -
  have "psum_local_args [''psum'', ''-1'', ''3''] = PGo (- 1) 8 (- 8)"
    by (simp add: psum_local_args_def atoi_def decimal_def isspace_def isdigit_def digits_val_def digit_val_def
        shift_one_def signed_divide_int_def signed_modulo_int_def)
  from psum_no_overflow [OF posix.semaphore_axioms psum_array_args_2_2 pt_reach.init this pt_reach.init
      psum_mutex_args_examples(1) pt_reach.init]
  show ?thesis unfolding subset_eq by simp
qed

text \<open>\<open>psum-mutex\<close> does not limit the number of elements: the product of its final check fits exactly
  up to 2 to the 31st, although it accepts up to 2 to the 62nd.\<close>

lemma psum_mutex_check_overflows:
  assumes "psum_mutex_args argv = PGo n nelems q"
  shows "long_range (nelems * (nelems - 1)) \<longleftrightarrow> nelems \<le> 2 ^ 31"
  by (rule psum_mutex_go_product(1) [OF assms])

end
