(* ===== verification/EchoIterative.thy ===== *)
theory EchoIterative
  imports Csapp
begin

text \<open>
  \<open>echo1.c\<close> and \<open>echo3.c\<close>: the iterative echo server and its variant that also reads commands from
  standard input through \<open>Select\<close>. \<open>echo\<close> is not in the repository and is a parameter; the
  loops are run over the list of what \<open>Accept\<close> and \<open>Select\<close> answer.
\<close>

section \<open>The iterative server\<close>

definition echo1_connection :: "(int \<Rightarrow> unit run) \<Rightarrow> int \<Rightarrow> string \<Rightarrow> string \<Rightarrow> unit run" where
  "echo1_connection echo connfd host port =
     emit [Accepted connfd] (block [
       printf (''Connected to ('' @ host @ '', '' @ port @ '')'' @ [LF]),
       echo connfd,
       Close connfd])"

fun echo1_loop :: "(int \<Rightarrow> unit run) \<Rightarrow> (int \<times> string \<times> string) list \<Rightarrow> unit run" where
  "echo1_loop echo [] = Ret [] ()"
| "echo1_loop echo ((connfd, host, port) # conns) =
     bindE (echo1_connection echo connfd host port) (\<lambda>_. echo1_loop echo conns)"

definition echo1_main :: "(int \<Rightarrow> unit run) \<Rightarrow> string list \<Rightarrow> (int \<times> string \<times> string) list \<Rightarrow> unit run" where
  "echo1_main echo argv conns =
     (if length argv \<noteq> 2 then Exits [Stderr (''usage: '' @ hd argv @ '' <port>'' @ [LF])] (ExitStatus 0)
      else echo1_loop echo conns)"

text \<open>The descriptors of a trace that are accepted and closed, in order.\<close>

fun opens_closes :: "event list \<Rightarrow> (int + int) list" where
  "opens_closes [] = []"
| "opens_closes (Accepted fd # es) = Inl fd # opens_closes es"
| "opens_closes (Closed fd # es) = Inr fd # opens_closes es"
| "opens_closes (_ # es) = opens_closes es"

lemma opens_closes_append [simp]: "opens_closes (xs @ ys) = opens_closes xs @ opens_closes ys"
  by (induction xs rule: opens_closes.induct) auto

section \<open>The server with a command line\<close>

text \<open>\<open>command\<close>: \<open>Fgets\<close> reads a line of at most \<open>MAXLINE - 1\<close> bytes; at end of input the program
  exits. The result is what remains of the input.\<close>

definition command :: "bytes \<Rightarrow> bytes run" where
  "command stdin =
     (if stdin = [] then Exits [] (ExitStatus 0)
      else emit [Stdout (cstr (take_line (MAXLINE - 1) stdin))] (Ret [] (rest_line (MAXLINE - 1) stdin)))"

text \<open>\<open>main\<close> up to its loop: standard input (0) and the listening descriptor are watched.\<close>

definition echo3_start :: "string list \<Rightarrow> int \<Rightarrow> int set run" where
  "echo3_start argv listenfd =
     (if length argv \<noteq> 2 then Exits [Stderr (''usage: '' @ hd argv @ '' <port>'' @ [LF])] (ExitStatus 0)
      else Ret [] (insert listenfd (insert 0 {})))"

text \<open>A turn: whether standard input is ready, and the connection if the listening descriptor is.\<close>

definition echo3_turn :: "(int \<Rightarrow> unit run) \<Rightarrow> bool \<Rightarrow> int option \<Rightarrow> bytes \<Rightarrow> bytes run" where
  "echo3_turn echo stdin_ready conn stdin =
     bindE (if stdin_ready then command stdin else Ret [] stdin) (\<lambda>stdin.
       case conn of
         None \<Rightarrow> Ret [] stdin
       | Some connfd \<Rightarrow> emit [Accepted connfd] (bindE (block [echo connfd, Close connfd]) (\<lambda>_. Ret [] stdin)))"

fun echo3_loop :: "(int \<Rightarrow> unit run) \<Rightarrow> (bool \<times> int option) list \<Rightarrow> bytes \<Rightarrow> bytes run" where
  "echo3_loop echo [] stdin = Ret [] stdin"
| "echo3_loop echo ((ready, conn) # turns) stdin = bindE (echo3_turn echo ready conn stdin) (echo3_loop echo turns)"

fun printed :: "event list \<Rightarrow> string" where
  "printed [] = []"
| "printed (Stdout s # es) = s @ printed es"
| "printed (_ # es) = printed es"

lemma printed_append [simp]: "printed (xs @ ys) = printed xs @ printed ys"
  by (induction xs rule: printed.induct) auto

lemma set_take_line: "set (take_line m bs) \<subseteq> set bs"
  by (induction m bs rule: take_line.induct) auto

section \<open>What the servers do\<close>

text \<open>An \<open>echo\<close> that returns and leaves the descriptors and the terminal alone.\<close>

definition echo_calm :: "(int \<Rightarrow> unit run) \<Rightarrow> bool" where
  "echo_calm echo \<longleftrightarrow> (\<forall>fd. \<exists>es. echo fd = Ret es () \<and> opens_closes es = [] \<and> printed es = [])"

text \<open>
  What a run has to do when \<open>echo fd\<close> returns with the events \<open>ee fd\<close>: a connection is served between its
  \<open>Accept\<close> and its \<open>Close\<close>; the first turn that finds standard input ready prints the first line of it, the
  second one the second line, and so on.
\<close>

definition serves :: "(int \<Rightarrow> event list) \<Rightarrow> int option \<Rightarrow> event list" where
  "serves ee conn = (case conn of None \<Rightarrow> [] | Some fd \<Rightarrow> Accepted fd # ee fd @ [Closed fd])"

definition ready_turns :: "(bool \<times> int option) list \<Rightarrow> nat \<Rightarrow> nat" where
  "ready_turns turns m = length (filter fst (take m turns))"

definition turn_trace :: "(int \<Rightarrow> event list) \<Rightarrow> bytes list \<Rightarrow> (bool \<times> int option) list \<Rightarrow> nat \<Rightarrow> event list" where
  "turn_trace ee ls turns i =
     (if fst (turns ! i) then [Stdout (cstr (ls ! ready_turns turns i))] else []) @ serves ee (snd (turns ! i))"

lemma ready_turns_simps [simp]:
  "ready_turns turns 0 = 0"
  "ready_turns (t # turns) (Suc m) = (if fst t then 1 else 0) + ready_turns turns m"
  by (simp_all add: ready_turns_def)

lemma turn_trace_simps [simp]:
  "turn_trace ee ls ((False, conn) # turns) 0 = serves ee conn"
  "turn_trace ee (l # ls) ((True, conn) # turns) 0 = Stdout (cstr l) # serves ee conn"
  "turn_trace ee ls ((False, conn) # turns) (Suc i) = turn_trace ee ls turns i"
  "turn_trace ee (l # ls) ((True, conn) # turns) (Suc i) = turn_trace ee ls turns i"
  by (simp_all add: turn_trace_def)

lemma traces_Suc:
  "concat (map (turn_trace ee ls turns) [0..<Suc m]) =
     turn_trace ee ls turns 0 @ concat (map (\<lambda>i. turn_trace ee ls turns (Suc i)) [0..<m])"
  by (simp add: upt_conv_Cons map_Suc_upt [symmetric] comp_def del: upt_Suc)

lemma turn_done:
  assumes "\<And>fd. echo fd = Ret (ee fd) ()" "\<forall>fd. conn = Some fd \<longrightarrow> 0 \<le> fd"
  shows "echo3_turn echo False conn bs = Ret (serves ee conn) bs"
    "echo3_turn echo True conn [] = Exits [] (ExitStatus 0)"
    "bs \<noteq> [] \<Longrightarrow> echo3_turn echo True conn bs =
       Ret (Stdout (cstr (take_line 8191 bs)) # serves ee conn) (rest_line 8191 bs)"
  using assms by (cases conn; simp add: echo3_turn_def serves_def command_def Close_def)+

lemma lines_of_cases:
  obtains "bs = []" "lines_of 8191 bs = []"
  | l ls where "bs \<noteq> []" "lines_of 8191 bs = l # ls" "take_line 8191 bs = l" "lines_of 8191 (rest_line 8191 bs) = ls"
  using lines_of.simps [of 8191 bs] by (cases "bs = []") auto

lemma echo3_run:
  assumes "\<And>fd. echo fd = Ret (ee fd) ()"
  shows "(\<And>r fd. (r, Some fd) \<in> set turns \<Longrightarrow> 0 \<le> fd) \<Longrightarrow>
    \<exists>m. let ls = lines_of 8191 bs; es = concat (map (turn_trace ee ls turns) [0..<m]) in
      m = length turns \<and> ready_turns turns m \<le> length ls \<and>
        echo3_loop echo turns bs = Ret es (concat (drop (ready_turns turns m) ls)) \<or>
      m < length turns \<and> fst (turns ! m) \<and> ready_turns turns m = length ls \<and>
        echo3_loop echo turns bs = Exits es (ExitStatus 0)"
proof (induction turns arbitrary: bs)
  case Nil
  show ?case by (intro exI [of _ 0]) (simp add: concat_lines_of)
next
  case (Cons t turns)
  obtain ready conn where t: "t = (ready, conn)" by (cases t)
  have fd: "\<forall>fd. conn = Some fd \<longrightarrow> 0 \<le> fd" using Cons.prems t by auto
  note turn = turn_done [of echo ee conn, OF assms fd]
  let ?ran = "\<lambda>bs m. let ls = lines_of 8191 bs; es = concat (map (turn_trace ee ls turns) [0..<m]) in
      m = length turns \<and> ready_turns turns m \<le> length ls \<and>
        echo3_loop echo turns bs = Ret es (concat (drop (ready_turns turns m) ls)) \<or>
      m < length turns \<and> fst (turns ! m) \<and> ready_turns turns m = length ls \<and>
        echo3_loop echo turns bs = Exits es (ExitStatus 0)"
  have ih: "\<exists>m. ?ran bs m" for bs
    by (rule Cons.IH) (use Cons.prems in auto)
  show ?case
  proof (cases ready)
    case False
    obtain m where "?ran bs m" using ih by blast
    then show ?thesis
      by (intro exI [of _ "Suc m"]) (auto simp: Let_def t False turn traces_Suc simp del: upt_Suc)
  next
    case True
    show ?thesis
    proof (cases rule: lines_of_cases [of bs])
      case 1
      then show ?thesis by (intro exI [of _ 0]) (simp add: t True turn)
    next
      case (2 l ls)
      obtain m where "?ran (rest_line 8191 bs) m" using ih by blast
      then show ?thesis using 2 turn(3) [OF 2(1)]
        by (intro exI [of _ "Suc m"]) (auto simp: Let_def t True traces_Suc simp del: upt_Suc)
    qed
  qed
qed

lemma echo1_run:
  assumes "\<And>fd. echo fd = Ret (ee fd) ()"
  shows "(\<And>fd h p. (fd, h, p) \<in> set conns \<Longrightarrow> 0 \<le> fd) \<Longrightarrow>
    echo1_loop echo conns = Ret (concat (map (\<lambda>(fd, h, p).
      [Accepted fd, Stdout (''Connected to ('' @ h @ '', '' @ p @ '')'' @ [LF])] @ ee fd @ [Closed fd]) conns)) ()"
proof (induction conns)
  case (Cons c conns)
  obtain fd h p where c: "c = (fd, h, p)" by (cases c)
  have "0 \<le> fd" using Cons.prems c by auto
  moreover have "echo1_loop echo conns = Ret (concat (map (\<lambda>(fd, h, p).
      [Accepted fd, Stdout (''Connected to ('' @ h @ '', '' @ p @ '')'' @ [LF])] @ ee fd @ [Closed fd]) conns)) ()"
    by (rule Cons.IH) (use Cons.prems in auto)
  ultimately show ?case using c by (simp add: assms [of fd] echo1_connection_def printf_def Close_def)
qed simp

section \<open>Property\<close>

text \<open>C30: the two iterative servers serve in turn: when \<open>echo\<close> returns, the run of \<open>echo1\<close> is, one connection
  after the other, its \<open>Accept\<close>, the line that announces it, what \<open>echo\<close> does and its \<open>Close\<close>. \<open>echo3\<close>
  prints in the turns that find standard input ready its lines, one in each, of at most \<open>MAXLINE - 1\<close> bytes, and
  then serves the connection of the turn if there is one. It is still running after the turns when there was a
  line for every turn that needed one, and the rest of the lines is unread; otherwise it has exited with
  status 0 in the first turn that found no line left, and has done all the turns before that and nothing of this one.\<close>

theorem iterative_servers_in_turn:
  assumes "\<And>fd. echo fd = Ret (ee fd) ()" and "length argv = 2"
    and "list_all (\<lambda>(fd, h, p). 0 \<le> fd) conns" and "list_all (\<lambda>(r, conn). conn = None \<or> 0 \<le> the conn) turns"
  shows "echo1_main echo argv conns = Ret (concat (map (\<lambda>(fd, h, p).
      [Accepted fd, Stdout (''Connected to ('' @ h @ '', '' @ p @ '')'' @ [LF])] @ ee fd @ [Closed fd]) conns)) () \<and>
    (\<exists>m. let ls = lines_of (MAXLINE - 1) stdin; es = concat (map (turn_trace ee ls turns) [0..<m]) in
      m = length turns \<and> ready_turns turns m \<le> length ls \<and>
        echo3_loop echo turns stdin = Ret es (concat (drop (ready_turns turns m) ls)) \<or>
      m < length turns \<and> fst (turns ! m) \<and> ready_turns turns m = length ls \<and>
        echo3_loop echo turns stdin = Exits es (ExitStatus 0))"
proof -
  have "0 \<le> fd" if "(fd, h, p) \<in> set conns" for fd h p using assms(3) that by (auto simp: list_all_iff)
  moreover have "0 \<le> fd" if "(r, Some fd) \<in> set turns" for r fd using assms(4) that by (auto simp: list_all_iff)
  ultimately show ?thesis
    using echo1_run [of echo ee conns, OF assms(1)] echo3_run [of echo ee turns stdin, OF assms(1)] assms(2)
    by (simp add: echo1_main_def)
qed

text \<open>One line on standard input and two turns that find it ready: the second one ends \<open>echo3\<close>, and its
  connection is not served.\<close>

theorem iterative_servers_in_turn_witness:
  "echo1_main (\<lambda>fd. Ret [Writen fd ''x''] ()) [''echo1'', ''80''] [(4, ''a'', ''1''), (4, ''b'', ''2'')] =
     Ret [Accepted 4, Stdout (''Connected to (a, 1)'' @ [LF]), Writen 4 ''x'', Closed 4,
       Accepted 4, Stdout (''Connected to (b, 2)'' @ [LF]), Writen 4 ''x'', Closed 4] () \<and>
   echo3_loop (\<lambda>fd. Ret [Writen fd ''x''] ()) [(True, Some 5), (True, Some 5), (False, Some 5)] (''ls'' @ [LF]) =
     Exits [Stdout (''ls'' @ [LF]), Accepted 5, Writen 5 ''x'', Closed 5] (ExitStatus 0)"
proof -
  let ?turns = "[(True, Some 5), (True, Some 5), (False, Some 5)] :: (bool \<times> int option) list"
  have "take_line 8191 (''ls'' @ LF # []) = ''ls'' @ [LF]" by (rule take_line_line) simp_all
  then have l: "lines_of (MAXLINE - 1) (''ls'' @ [LF]) = [''ls'' @ [LF]]"
    using lines_of.simps [of 8191 "''ls'' @ [LF]"] lines_of.simps [of 8191 "[]"] by simp
  have p: "list_all (\<lambda>(fd, h, p). 0 \<le> fd) [(4 :: int, ''a'', ''1''), (4, ''b'', ''2'')]"
    "list_all (\<lambda>(r, conn). conn = None \<or> 0 \<le> the conn) ?turns" by simp_all
  have a: "length [''echo1'', ''80''] = 2" by simp
  note i = iterative_servers_in_turn [of "\<lambda>fd. Ret [Writen fd ''x''] ()" "\<lambda>fd. [Writen fd ''x'']" "[''echo1'', ''80'']"
      "[(4, ''a'', ''1''), (4, ''b'', ''2'')]" ?turns "''ls'' @ [LF]", OF refl a p]
  from conjunct1 [OF i] have i1: "echo1_main (\<lambda>fd. Ret [Writen fd ''x''] ()) [''echo1'', ''80''] [(4, ''a'', ''1''), (4, ''b'', ''2'')] =
     Ret [Accepted 4, Stdout (''Connected to (a, 1)'' @ [LF]), Writen 4 ''x'', Closed 4,
       Accepted 4, Stdout (''Connected to (b, 2)'' @ [LF]), Writen 4 ''x'', Closed 4] ()" by simp
  have r3: "ready_turns ?turns (length ?turns) = 2" by simp
  from conjunct2 [OF i] obtain m where m: "m < length ?turns" "fst (?turns ! m)" "ready_turns ?turns m = 1"
      "echo3_loop (\<lambda>fd. Ret [Writen fd ''x''] ()) ?turns (''ls'' @ [LF]) =
        Exits (concat (map (turn_trace (\<lambda>fd. [Writen fd ''x'']) [''ls'' @ [LF]] ?turns) [0..<m])) (ExitStatus 0)"
    unfolding Let_def l
  proof (elim conjE exE disjE)
    fix m assume "m = length ?turns" "ready_turns ?turns m \<le> length [''ls'' @ [LF]]"
    then show thesis using r3 by simp
  qed (auto intro: that)
  then have "m = 1" by (cases m; cases "m - 1") (auto simp: less_Suc_eq)
  with m(4) i1 show ?thesis by (simp add: serves_def)
qed

end
