(* ===== verification/EchoStdio.thy ===== *)
theory EchoStdio
  imports EchoIterative Systems
begin

text \<open>
  \<open>echo3.c\<close> once more, as it runs against its surroundings: \<open>Select\<close> looks at the descriptors, while
  \<open>Fgets\<close> reads through the buffer of the stream \<open>stdin\<close> and waits when its line is not complete. Bytes and
  clients arrive at any time. The server between two arrivals is a function, one step for each call, for each
  \<open>read\<close> inside \<open>Fgets\<close> and for each byte it copies. The loop of \<open>EchoIterative\<close>, which takes whole lines from a list of
  bytes, is what this machine refines; what the list cannot show is when a line is printed.
\<close>

section \<open>The server and its surroundings\<close>

text \<open>
  Points of the program: before \<open>Select\<close>; inside \<open>Fgets\<close>, with the bytes copied so far; after the test of
  standard input; ended. The flag is what \<open>FD_ISSET (listenfd, &ready_set)\<close> will answer.
\<close>

datatype e3_pc = At_Select | At_Fgets bytes bool | At_Accept bool | Ended "exit_reason + fault"

text \<open>
  What the coming \<open>read\<close>s of descriptor 0 return, whether its writer has closed it, the buffer of
  \<open>stdin\<close>, the connections that \<open>Accept\<close> will return; and as history what has arrived and who has connected.
\<close>

record e3_sys =
  fd0 :: "bytes list"
  fd0_closed :: bool
  filebuf :: bytes
  backlog :: "int list"
  e3_at :: e3_pc
  e3_out :: "event list"
  arrived :: "bytes list"
  connected :: "int list"

definition e3_init :: e3_sys where
  "e3_init = \<lparr>fd0 = [], fd0_closed = False, filebuf = [], backlog = [], e3_at = At_Select, e3_out = [],
     arrived = [], connected = []\<rparr>"

text \<open>\<open>Select\<close>: a descriptor is ready when a \<open>read\<close> or \<open>Accept\<close> would not wait. \<open>None\<close>: the server waits.\<close>

definition e3_select :: "e3_sys \<Rightarrow> e3_sys option" where
  "e3_select s =
     (if fd0 s \<noteq> [] \<or> fd0_closed s then Some (s\<lparr>e3_at := At_Fgets [] (backlog s \<noteq> [])\<rparr>)
      else if backlog s \<noteq> [] then Some (s\<lparr>e3_at := At_Accept True\<rparr>)
      else None)"

text \<open>\<open>command\<close>: \<open>Fgets\<close> copies from the buffer up to the end of a line or \<open>MAXLINE - 1\<close> bytes, and fills the
  buffer when it is empty; then the line is printed, or the program exits at the end of the input.\<close>

definition e3_print :: "bytes \<Rightarrow> bool \<Rightarrow> e3_sys \<Rightarrow> e3_sys" where
  "e3_print l conn s = s\<lparr>e3_out := e3_out s @ [Stdout (cstr l)], e3_at := At_Accept conn\<rparr>"

definition e3_fgets :: "bytes \<Rightarrow> bool \<Rightarrow> e3_sys \<Rightarrow> e3_sys option" where
  "e3_fgets l conn s =
     (case filebuf s of
        b # bs \<Rightarrow>
          Some (if b = LF \<or> length (l @ [b]) = MAXLINE - 1 then e3_print (l @ [b]) conn (s\<lparr>filebuf := bs\<rparr>)
                else s\<lparr>filebuf := bs, e3_at := At_Fgets (l @ [b]) conn\<rparr>)
      | [] \<Rightarrow>
          (case fd0 s of
             c # cs \<Rightarrow> Some (s\<lparr>filebuf := c, fd0 := cs\<rparr>)
           | [] \<Rightarrow>
               if \<not> fd0_closed s then None
               else if l = [] then Some (s\<lparr>e3_at := Ended (Inl (ExitStatus 0))\<rparr>)
               else Some (e3_print l conn s)))"

text \<open>The second half of a turn is that of \<open>echo3_turn\<close>.\<close>

definition e3_accept :: "(int \<Rightarrow> unit run) \<Rightarrow> bool \<Rightarrow> e3_sys \<Rightarrow> e3_sys option" where
  "e3_accept echo conn s =
     (if \<not> conn then Some (s\<lparr>e3_at := At_Select\<rparr>)
      else case backlog s of
        [] \<Rightarrow> None
      | fd # fds \<Rightarrow>
          (case echo3_turn echo False (Some fd) [] of
             Ret es _ \<Rightarrow> Some (s\<lparr>backlog := fds, e3_out := e3_out s @ es, e3_at := At_Select\<rparr>)
           | Exits es r \<Rightarrow> Some (s\<lparr>backlog := fds, e3_out := e3_out s @ es, e3_at := Ended (Inl r)\<rparr>)
           | Undef es u \<Rightarrow> Some (s\<lparr>backlog := fds, e3_out := e3_out s @ es, e3_at := Ended (Inr u)\<rparr>)))"

definition e3_next :: "(int \<Rightarrow> unit run) \<Rightarrow> e3_sys \<Rightarrow> e3_sys option" where
  "e3_next echo s =
     (case e3_at s of
        At_Select \<Rightarrow> e3_select s
      | At_Fgets l conn \<Rightarrow> e3_fgets l conn s
      | At_Accept conn \<Rightarrow> e3_accept echo conn s
      | Ended _ \<Rightarrow> None)"

text \<open>The surroundings: some bytes that one \<open>read\<close> will return, the end of the input, a client.\<close>

inductive e3_env :: "e3_sys \<Rightarrow> e3_sys \<Rightarrow> bool" where
  types_in: "\<not> fd0_closed s \<Longrightarrow> c \<noteq> [] \<Longrightarrow> e3_env s (s\<lparr>fd0 := fd0 s @ [c], arrived := arrived s @ [c]\<rparr>)"
| closes: "e3_env s (s\<lparr>fd0_closed := True\<rparr>)"
| connects: "0 \<le> fd \<Longrightarrow> e3_env s (s\<lparr>backlog := backlog s @ [fd], connected := connected s @ [fd]\<rparr>)"

abbreviation e3_step :: "(int \<Rightarrow> unit run) \<Rightarrow> e3_sys \<Rightarrow> e3_sys \<Rightarrow> bool" where
  "e3_step echo s s' \<equiv> e3_next echo s = Some s'"

inductive e3_reach :: "(int \<Rightarrow> unit run) \<Rightarrow> e3_sys \<Rightarrow> bool" for echo where
  start: "e3_reach echo e3_init"
| server: "e3_reach echo s \<Longrightarrow> e3_step echo s s' \<Longrightarrow> e3_reach echo s'"
| outside: "e3_reach echo s \<Longrightarrow> e3_env s s' \<Longrightarrow> e3_reach echo s'"

section \<open>Lines\<close>













section \<open>The steps of the server, one by one\<close>




section \<open>Invariants of every interleaving\<close>

definition serving :: "int list \<Rightarrow> (int + int) list" where
  "serving fds = concat (map (\<lambda>fd. [Inl fd, Inr fd]) fds)"



lemma serving_snoc [simp]: "serving (fds @ [fd]) = serving fds @ [Inl fd, Inr fd]"
  by (simp add: serving_def)
























section \<open>Coming to rest\<close>

text \<open>The size of a state is the work left for the server if nothing more arrives.\<close>

fun e3_rank :: "e3_pc \<Rightarrow> nat" where
  "e3_rank At_Select = 2"
| "e3_rank (At_Fgets l conn) = (if l = [] then 1 else 4)"
| "e3_rank (At_Accept conn) = (if conn then 1 else 3)"
| "e3_rank (Ended r) = 0"

instantiation e3_sys_ext :: (type) size
begin

definition size_e3_sys_ext :: "'a e3_sys_scheme \<Rightarrow> nat" where
  "size_e3_sys_ext s =
     5 * (length (filebuf s) + length (concat (fd0 s)) + length (backlog s)) + length (fd0 s) + e3_rank (e3_at s)"

instance ..

end












section \<open>Lines that are held back\<close>

text \<open>The server alone, for at most \<open>n\<close> steps.\<close>

primrec e3_run :: "(int \<Rightarrow> unit run) \<Rightarrow> nat \<Rightarrow> e3_sys \<Rightarrow> e3_sys" where
  "e3_run echo 0 s = s"
| "e3_run echo (Suc n) s = (case e3_next echo s of None \<Rightarrow> s | Some s' \<Rightarrow> e3_run echo n s')"

lemma e3_reach_run: "e3_reach echo s \<Longrightarrow> e3_reach echo (e3_run echo n s)"
  by (induction n arbitrary: s) (auto split: option.splits intro: e3_reach.server)

lemma e3_run_numeral [simp]:
  "e3_run echo (numeral k) s = (case e3_next echo s of None \<Rightarrow> s | Some s' \<Rightarrow> e3_run echo (pred_numeral k) s')"
  by (simp add: numeral_eq_Suc)

lemmas e3_eval = e3_init_def e3_next_def e3_select_def e3_fgets_def e3_accept_def e3_print_def MAXLINE_def

text \<open>Two lines that arrive together: the second is in the buffer of \<open>stdin\<close>, \<open>Select\<close> does not see it, and it is
  not printed until something else arrives.\<close>

theorem echo3_line_kept_back:
  "\<exists>s. e3_reach echo s \<and> e3_next echo s = None \<and> arrived s = [[CHR ''a'', LF, CHR ''b'', LF]] \<and>
     e3_at s = At_Select \<and> printed (e3_out s) = [CHR ''a'', LF] \<and> filebuf s = [CHR ''b'', LF]"
proof -
  let ?s = "e3_init\<lparr>fd0 := [[CHR ''a'', LF, CHR ''b'', LF]], arrived := [[CHR ''a'', LF, CHR ''b'', LF]]\<rparr>"
  have "e3_reach echo ?s"
    using e3_reach.outside [OF e3_reach.start types_in [of e3_init "[CHR ''a'', LF, CHR ''b'', LF]"]]
    by (simp add: e3_init_def)
  then have "e3_reach echo (e3_run echo 10 ?s)" by (rule e3_reach_run)
  then show ?thesis by (intro exI [of _ "e3_run echo 10 ?s"]) (simp add: e3_eval cstr_def)
qed

text \<open>Half a line: \<open>Fgets\<close> waits for the rest of it, and no client is served in the meantime.\<close>

theorem echo3_half_line_blocks:
  "\<exists>s. e3_reach echo s \<and> e3_next echo s = None \<and> arrived s = [''a''] \<and> connected s = [4] \<and>
     e3_at s = At_Fgets ''a'' True \<and> opens_closes (e3_out s) = []"
proof -
  let ?s = "e3_init\<lparr>fd0 := [''a''], arrived := [''a''], backlog := [4], connected := [4]\<rparr>"
  have "e3_reach echo (e3_init\<lparr>fd0 := [''a''], arrived := [''a'']\<rparr>)"
    using e3_reach.outside [OF e3_reach.start types_in [of e3_init "''a''"]] by (simp add: e3_init_def)
  from e3_reach.outside [OF this connects [of 4]] have "e3_reach echo ?s" by (simp add: e3_init_def)
  then have "e3_reach echo (e3_run echo 10 ?s)" by (rule e3_reach_run)
  then show ?thesis by (intro exI [of _ "e3_run echo 10 ?s"]) (simp add: e3_eval)
qed

section \<open>Property\<close>



end
