(* ===== verification/EchoPool.thy ===== *)
theory EchoPool
  imports Csapp
begin

text \<open>
  \<open>echo4.c\<close>: the event-driven echo server. One process keeps a pool of connected descriptors,
  waits in \<open>Select\<close> and serves the ready ones. The descriptor sets are sets of descriptors
  below \<open>FD_SETSIZE\<close> (1024 on Linux), on which \<open>FD_SET\<close> and \<open>FD_CLR\<close> are defined. The calls
  \<open>check_clients\<close> and \<open>DF_CLR\<close> of the source, which name no function, are read as
  \<open>check_client\<close> and \<open>FD_CLR\<close>.
\<close>

section \<open>The pool\<close>

definition FD_SETSIZE :: nat where "FD_SETSIZE = 1024"

lemma FD_SETSIZE [simp]: "FD_SETSIZE = 1024"
  by (simp add: FD_SETSIZE_def)

record 'r pool =
  maxfd :: int
  read_set :: "int set"
  ready_set :: "int set"
  nready :: int
  maxi :: int
  clientfd :: "int list"
  clientrio :: "'r list"

definition FD_SET :: "int \<Rightarrow> int set \<Rightarrow> int set run" where
  "FD_SET fd s = (if 0 \<le> fd \<and> fd < int FD_SETSIZE then Ret [] (insert fd s) else Undef [] Overrun)"

definition FD_CLR :: "int \<Rightarrow> int set \<Rightarrow> int set run" where
  "FD_CLR fd s = (if 0 \<le> fd \<and> fd < int FD_SETSIZE then Ret [] (s - {fd}) else Undef [] Overrun)"

definition init_pool :: "int \<Rightarrow> 'r pool \<Rightarrow> 'r pool run" where
  "init_pool listenfd p =
     (let p = p\<lparr>maxi := -1\<rparr>;
          p = p\<lparr>clientfd := map (\<lambda>_. -1) [0..<FD_SETSIZE]\<rparr>;
          p = p\<lparr>maxfd := listenfd\<rparr>
      in bindE (FD_SET listenfd {}) (\<lambda>s. Ret [] (p\<lparr>read_set := s\<rparr>)))"

text \<open>The search for a free slot, from slot \<open>i\<close> on.\<close>

function add_loop :: "('r, 'k) rio_api \<Rightarrow> int \<Rightarrow> nat \<Rightarrow> 'r pool \<Rightarrow> 'r pool run" where
  "add_loop api connfd i p =
     (if i < FD_SETSIZE then
        (if clientfd p ! i < 0 then
           (let p = p\<lparr>clientfd := (clientfd p)[i := connfd],
                      clientrio := (clientrio p)[i := readinitb api connfd]\<rparr>
            in bindE (FD_SET connfd (read_set p)) (\<lambda>s.
               let p = p\<lparr>read_set := s\<rparr>;
                   p = (if connfd > maxfd p then p\<lparr>maxfd := connfd\<rparr> else p);
                   p = (if int i > maxi p then p\<lparr>maxi := int i\<rparr> else p)
               in Ret [] p))
         else add_loop api connfd (Suc i) p)
      else Exits [] WrapperError)"
  by pat_completeness auto
termination
  by (relation "measure (\<lambda>(api, connfd, i, p). FD_SETSIZE - i)") auto

declare add_loop.simps [simp del]

definition add_client :: "('r, 'k) rio_api \<Rightarrow> int \<Rightarrow> 'r pool \<Rightarrow> 'r pool run" where
  "add_client api connfd p = add_loop api connfd 0 (p\<lparr>nready := nready p - 1\<rparr>)"

text \<open>
  The scan of the pool, from slot \<open>i\<close> on. The reader \<open>rio\<close> is a local copy: reading moves bytes
  out of the kernel and changes the copy, not the pool. The \<open>else\<close> belongs to the test for a
  ready descriptor. \<open>cnt\<close> is the global \<open>byte_cnt\<close>.
\<close>

definition recv_message :: "nat \<Rightarrow> 32 word \<Rightarrow> int \<Rightarrow> string" where
  "recv_message n cnt connfd = ''Server received '' @ int_dec (int n) @ '' ('' @ int_dec (sint cnt) @
     '' total) bytes on fd '' @ int_dec connfd @ [LF]"

function check_loop ::
  "('r, 'k) rio_api \<Rightarrow> (int \<Rightarrow> bytes \<Rightarrow> bool) \<Rightarrow> nat \<Rightarrow> 'r pool \<Rightarrow> 'k \<Rightarrow> 32 word \<Rightarrow>
     ('r pool \<times> 'k \<times> 32 word) run" where
  "check_loop api up i p k cnt =
     (if int i \<le> maxi p \<and> nready p > 0 then
        (let connfd = clientfd p ! i; rio = clientrio p ! i in
         if connfd > 0 \<and> connfd \<in> ready_set p then
           (let p = p\<lparr>nready := nready p - 1\<rparr> in
            case readlineb api rio k MAXLINE of (res, rio', k') \<Rightarrow>
            (case res of
               Line buf \<Rightarrow>
                 (let n = length buf; cnt = cnt + of_nat n in
                  bindE (printf (recv_message n cnt connfd)) (\<lambda>_.
                  bindE (Rio_writen up connfd buf) (\<lambda>_.
                  check_loop api up (Suc i) p k' cnt)))
             | Eof \<Rightarrow> check_loop api up (Suc i) p k' cnt
             | ReadErr \<Rightarrow> Exits [] WrapperError))
         else
           bindE (Close connfd) (\<lambda>_.
           bindE (FD_CLR connfd (read_set p)) (\<lambda>s.
           check_loop api up (Suc i) (p\<lparr>read_set := s, clientfd := (clientfd p)[i := -1]\<rparr>) k cnt)))
      else Ret [] (p, k, cnt))"
  by pat_completeness auto
termination
  by (relation "measure (\<lambda>(api, up, i, p, k, cnt). nat (maxi p + 1 - int i))") auto

declare check_loop.simps [simp del]

definition check_client ::
  "('r, 'k) rio_api \<Rightarrow> (int \<Rightarrow> bytes \<Rightarrow> bool) \<Rightarrow> 'r pool \<Rightarrow> 'k \<Rightarrow> 32 word \<Rightarrow>
     ('r pool \<times> 'k \<times> 32 word) run" where
  "check_client api up p k cnt = check_loop api up 0 p k cnt"

text \<open>
  One turn of the loop in \<open>main\<close>: \<open>ready\<close> and \<open>n\<close> are what \<open>Select\<close> answers, \<open>connfd\<close> what
  \<open>Accept\<close> returns.
\<close>

definition pool_turn ::
  "('r, 'k) rio_api \<Rightarrow> (int \<Rightarrow> bytes \<Rightarrow> bool) \<Rightarrow> int \<Rightarrow> int set \<Rightarrow> int \<Rightarrow> int \<Rightarrow>
     'r pool \<times> 'k \<times> 32 word \<Rightarrow> ('r pool \<times> 'k \<times> 32 word) run" where
  "pool_turn api up listenfd ready n connfd = (\<lambda>(p, k, cnt).
     let p = p\<lparr>ready_set := read_set p\<rparr>;
         p = p\<lparr>ready_set := ready, nready := n\<rparr>
     in bindE (if listenfd \<in> ready_set p
               then emit [Accepted connfd] (add_client api connfd p) else Ret [] p)
          (\<lambda>p. check_client api up p k cnt))"

section \<open>The invariant\<close>

text \<open>
  Free slots hold -1 and lie, with the used ones, at or below \<open>maxi\<close>; the used slots hold
  different descriptors that can be members of a descriptor set; \<open>read_set\<close> is the listening
  descriptor and the clients, and \<open>maxfd\<close> bounds it.
\<close>

definition pool_fds :: "'r pool \<Rightarrow> int set" where
  "pool_fds p = {fd. fd \<in> set (clientfd p) \<and> 0 \<le> fd}"

definition wf_pool :: "int \<Rightarrow> 'r pool \<Rightarrow> bool" where
  "wf_pool listenfd p \<longleftrightarrow>
     length (clientfd p) = 1024 \<and> length (clientrio p) = 1024 \<and>
     (\<forall>fd \<in> set (clientfd p). fd = -1 \<or> 0 < fd \<and> fd < 1024 \<and> fd \<noteq> listenfd) \<and>
     (\<forall>i j. i < 1024 \<longrightarrow> j < 1024 \<longrightarrow> clientfd p ! i = clientfd p ! j \<longrightarrow> 0 \<le> clientfd p ! i \<longrightarrow> i = j) \<and>
     (\<forall>i < 1024. maxi p < int i \<longrightarrow> clientfd p ! i = -1) \<and> -1 \<le> maxi p \<and> maxi p < 1024 \<and>
     read_set p = insert listenfd (pool_fds p) \<and> (\<forall>fd \<in> read_set p. fd \<le> maxfd p)"

lemma wf_pool_init:
  assumes "0 \<le> listenfd" "listenfd < 1024" "length (clientrio p) = 1024"
  shows "\<exists>p'. init_pool listenfd p = Ret [] p' \<and> wf_pool listenfd p' \<and> pool_fds p' = {}"
proof -
  have "init_pool listenfd p = Ret [] (p\<lparr>maxi := -1, clientfd := map (\<lambda>_. -1) [0..<1024],
      maxfd := listenfd, read_set := {listenfd}\<rparr>)"
    using assms by (simp add: init_pool_def FD_SET_def)
  then show ?thesis using assms(3) by (auto simp: wf_pool_def pool_fds_def)
qed

text \<open>The slot \<open>add_client\<close> uses.\<close>

lemma add_loop_slot:
  assumes "i \<le> j" "j < 1024" "clientfd p ! j < 0" "\<And>m. i \<le> m \<Longrightarrow> m < j \<Longrightarrow> 0 \<le> clientfd p ! m"
  shows "add_loop api connfd i p = add_loop api connfd j p"
  using assms
proof (induction "j - i" arbitrary: i)
  case 0
  then show ?case by simp
next
  case (Suc d)
  then have "0 \<le> clientfd p ! i" "i < 1024" by auto
  then have "add_loop api connfd i p = add_loop api connfd (Suc i) p"
    by (simp add: add_loop.simps [of api connfd i p])
  also have "\<dots> = add_loop api connfd j p" using Suc by (intro Suc.hyps(1)) auto
  finally show ?case .
qed

lemma add_loop_full:
  assumes "\<And>m. i \<le> m \<Longrightarrow> m < 1024 \<Longrightarrow> 0 \<le> clientfd p ! m"
  shows "add_loop api connfd i p = Exits [] WrapperError"
  using assms
proof (induction "1024 - i" arbitrary: i)
  case 0
  then show ?case by (simp add: add_loop.simps [of api connfd i p])
next
  case (Suc d)
  then have "0 \<le> clientfd p ! i" "i < 1024" by auto
  then have "add_loop api connfd i p = add_loop api connfd (Suc i) p"
    by (simp add: add_loop.simps [of api connfd i p])
  also have "\<dots> = Exits [] WrapperError" using Suc by (intro Suc.hyps(1)) auto
  finally show ?case .
qed

definition added_pool :: "('r, 'k) rio_api \<Rightarrow> int \<Rightarrow> nat \<Rightarrow> 'r pool \<Rightarrow> 'r pool" where
  "added_pool api connfd j p = p\<lparr>nready := nready p - 1, clientfd := (clientfd p)[j := connfd],
     clientrio := (clientrio p)[j := readinitb api connfd],
     read_set := insert connfd (read_set p), maxfd := max connfd (maxfd p),
     maxi := max (int j) (maxi p)\<rparr>"

lemma add_client_slot:
  assumes "j < 1024" "clientfd p ! j < 0" "\<And>m. m < j \<Longrightarrow> 0 \<le> clientfd p ! m"
    and "0 \<le> connfd" "connfd < 1024"
  shows "add_client api connfd p = Ret [] (added_pool api connfd j p)"
  using add_loop_slot [of 0 j "p\<lparr>nready := nready p - 1\<rparr>" api connfd] assms
  by (simp add: add_client_def add_loop.simps [of api connfd j] FD_SET_def added_pool_def max_def)

lemma wf_added_pool:
  assumes "wf_pool listenfd p" "j < 1024" "clientfd p ! j < 0"
    and "0 < connfd" "connfd < 1024" "connfd \<notin> read_set p"
  shows "wf_pool listenfd (added_pool api connfd j p)"
proof -
  have m1: "clientfd p ! j = -1" using assms(1-3) by (force simp: wf_pool_def)
  have nin: "connfd \<notin> set (clientfd p)" "connfd \<noteq> listenfd"
    using assms(1,4,6) by (auto simp: wf_pool_def pool_fds_def)
  then have ne: "clientfd p ! m \<noteq> connfd" if "m < 1024" for m
    using that assms(1) nth_mem [of m "clientfd p"] by (auto simp: wf_pool_def)
  have fds: "pool_fds (added_pool api connfd j p) = insert connfd (pool_fds p)"
  proof -
    have "set ((clientfd p)[j := connfd]) \<subseteq> insert connfd (set (clientfd p))" by (rule set_update_subset_insert)
    moreover have "connfd \<in> set ((clientfd p)[j := connfd])"
      using assms(1,2) by (intro set_update_memI) (simp add: wf_pool_def)
    moreover have "fd \<in> set ((clientfd p)[j := connfd])" if "fd \<in> set (clientfd p)" "0 \<le> fd" for fd
    proof -
      obtain m where m: "m < length (clientfd p)" "clientfd p ! m = fd"
        using \<open>fd \<in> set (clientfd p)\<close> by (auto simp: in_set_conv_nth)
      with m1 that(2) have "(clientfd p)[j := connfd] ! m = fd" by (cases "m = j") auto
      then show ?thesis using m(1) nth_mem [of m "(clientfd p)[j := connfd]"] by simp
    qed
    ultimately show ?thesis using assms(4) by (auto simp: pool_fds_def added_pool_def)
  qed
  show ?thesis
    using assms nin ne fds unfolding wf_pool_def
    by (auto simp: added_pool_def nth_list_update le_max_iff_disj
        dest!: subsetD [OF set_update_subset_insert])
qed

definition removed_pool :: "nat \<Rightarrow> 'r pool \<Rightarrow> 'r pool" where
  "removed_pool i p = p\<lparr>read_set := read_set p - {clientfd p ! i}, clientfd := (clientfd p)[i := -1]\<rparr>"

lemma pool_fds_removed:
  assumes "wf_pool listenfd p" "i < 1024" "0 \<le> clientfd p ! i"
  shows "pool_fds (removed_pool i p) = pool_fds p - {clientfd p ! i}"
proof -
  have len: "length (clientfd p) = 1024" using assms(1) by (simp add: wf_pool_def)
  have uniq: "m = i" if "m < 1024" "clientfd p ! m = clientfd p ! i" for m
    using assms that unfolding wf_pool_def by metis
  show ?thesis
  proof (intro set_eqI iffI)
    fix fd assume "fd \<in> pool_fds (removed_pool i p)"
    then obtain m where m: "m < 1024" "(clientfd p)[i := -1] ! m = fd" "0 \<le> fd"
      by (auto simp: pool_fds_def removed_pool_def in_set_conv_nth len)
    then have "m \<noteq> i" by (auto simp: len)
    with m uniq show "fd \<in> pool_fds p - {clientfd p ! i}"
      using nth_mem [of m "clientfd p"] by (auto simp: pool_fds_def len)
  next
    fix fd assume "fd \<in> pool_fds p - {clientfd p ! i}"
    then obtain m where m: "m < 1024" "clientfd p ! m = fd" "0 \<le> fd" "fd \<noteq> clientfd p ! i"
      by (auto simp: pool_fds_def in_set_conv_nth len)
    then have "(clientfd p)[i := -1] ! m = fd" by (cases "m = i") auto
    then show "fd \<in> pool_fds (removed_pool i p)"
      using m(1,3) nth_mem [of m "(clientfd p)[i := -1]"] by (simp add: pool_fds_def removed_pool_def len)
  qed
qed

lemma wf_removed_pool:
  assumes "wf_pool listenfd p" "i < 1024" "0 \<le> clientfd p ! i"
  shows "wf_pool listenfd (removed_pool i p)"
proof -
  have "clientfd p ! i \<in> set (clientfd p)" using assms(1,2) by (simp add: wf_pool_def)
  then have "clientfd p ! i \<noteq> listenfd" using assms(1,3) unfolding wf_pool_def by auto
  with assms pool_fds_removed [OF assms] show ?thesis
    unfolding wf_pool_def
    by (auto simp: removed_pool_def nth_list_update dest!: subsetD [OF set_update_subset_insert])
qed

lemma wf_nready [simp]: "wf_pool listenfd (p\<lparr>nready := n\<rparr>) = wf_pool listenfd p"
  by (simp add: wf_pool_def pool_fds_def)

lemma wf_ready_set [simp]: "wf_pool listenfd (p\<lparr>ready_set := s\<rparr>) = wf_pool listenfd p"
  by (simp add: wf_pool_def pool_fds_def)

text \<open>The two ways one iteration of the scan can go.\<close>

lemma check_loop_stop:
  "\<not> (int i \<le> maxi p \<and> nready p > 0) \<Longrightarrow> check_loop api up i p k cnt = Ret [] (p, k, cnt)"
  by (subst check_loop.simps) (simp only: if_False)

lemma check_loop_ready:
  assumes "int i \<le> maxi p" "nready p > 0" "clientfd p ! i > 0" "clientfd p ! i \<in> ready_set p"
    and "readlineb api (clientrio p ! i) k 8192 = (res, rio', k')"
  shows "check_loop api up i p k cnt =
    (case res of
       Line buf \<Rightarrow> emit [Stdout (recv_message (length buf) (cnt + of_nat (length buf)) (clientfd p ! i))]
         (bindE (Rio_writen up (clientfd p ! i) buf) (\<lambda>_.
           check_loop api up (Suc i) (p\<lparr>nready := nready p - 1\<rparr>) k' (cnt + of_nat (length buf))))
     | Eof \<Rightarrow> check_loop api up (Suc i) (p\<lparr>nready := nready p - 1\<rparr>) k' cnt
     | ReadErr \<Rightarrow> Exits [] WrapperError)"
  using assms
  by (simp add: check_loop.simps [of api up i p] printf_def Let_def split: rl.split)

lemma check_loop_other:
  assumes "int i \<le> maxi p" "nready p > 0" "\<not> (clientfd p ! i > 0 \<and> clientfd p ! i \<in> ready_set p)"
  shows "check_loop api up i p k cnt =
    (if clientfd p ! i < 0 then Exits [] WrapperError
     else if clientfd p ! i < 1024
       then emit [Closed (clientfd p ! i)] (check_loop api up (Suc i) (removed_pool i p) k cnt)
     else Undef [Closed (clientfd p ! i)] Overrun)"
  using assms
  by (auto simp: check_loop.simps [of api up i p] Close_def FD_CLR_def removed_pool_def Let_def)

text \<open>
  What a returning scan keeps: any predicate of the pool, the total and the trace that survives
  counting down \<open>nready\<close>, echoing a line, and removing the client of a slot.
\<close>

lemma check_loop_run:
  assumes "check_loop api up i p k cnt = Ret es (p', k', cnt')" "Q p cnt es0"
    and "\<And>p cnt es n. Q p cnt es \<Longrightarrow> Q (p\<lparr>nready := n\<rparr>) cnt es"
    and "\<And>p cnt es s fd buf. Q p cnt es \<Longrightarrow> Q p (cnt + of_nat (length buf)) (es @ [Stdout s, Writen fd buf])"
    and "\<And>p cnt es j. Q p cnt es \<Longrightarrow> int j \<le> maxi p \<Longrightarrow> 0 \<le> clientfd p ! j \<Longrightarrow>
      Q (removed_pool j p) cnt (es @ [Closed (clientfd p ! j)])"
  shows "Q p' cnt' (es0 @ es)"
  using assms(1,2)
proof (induction "nat (maxi p + 1 - int i)" arbitrary: i p k cnt es es0 rule: less_induct)
  case less
  show ?case
  proof (cases "int i \<le> maxi p \<and> nready p > 0")
    case False
    then show ?thesis using less.prems by (simp add: check_loop_stop)
  next
    case go: True
    show ?thesis
    proof (cases "clientfd p ! i > 0 \<and> clientfd p ! i \<in> ready_set p")
      case True
      obtain res rio' k1 where rd: "readlineb api (clientrio p ! i) k 8192 = (res, rio', k1)"
        by (metis prod_cases3)
      obtain es1 es2 cnt1 where
        rest: "check_loop api up (Suc i) (p\<lparr>nready := nready p - 1\<rparr>) k1 cnt1 = Ret es2 (p', k', cnt')"
        and es: "es = es1 @ es2" and q: "Q p cnt1 (es0 @ es1)"
      proof (cases res)
        case (Line buf)
        with less.prems(1) go True check_loop_ready [of i p api k res rio' k1 up cnt] rd
        obtain es2 where "check_loop api up (Suc i) (p\<lparr>nready := nready p - 1\<rparr>) k1 (cnt + of_nat (length buf))
            = Ret es2 (p', k', cnt')"
          "es = [Stdout (recv_message (length buf) (cnt + of_nat (length buf)) (clientfd p ! i)),
             Writen (clientfd p ! i) buf] @ es2"
          by (auto simp: emit_eq_Ret_iff bindE_eq_Ret_iff Rio_writen_def split: if_splits)
        with assms(4) [OF less.prems(2)] show thesis by (intro that)
      qed (use less.prems go True check_loop_ready [of i p api k res rio' k1 up cnt] rd that [of cnt es "[]"] in auto)
      from assms(3) [OF q] go show ?thesis
        using less.hyps [OF _ rest, of "es0 @ es1"] es by simp
    next
      case False
      then obtain es' where c: "0 \<le> clientfd p ! i"
        "check_loop api up (Suc i) (removed_pool i p) k cnt = Ret es' (p', k', cnt')"
        "es = [Closed (clientfd p ! i)] @ es'"
        using less.prems(1) go check_loop_other [of i p api up k cnt]
        by (auto simp: emit_eq_Ret_iff split: if_splits)
      from assms(5) [OF less.prems(2) _ c(1)] go show ?thesis
        using less.hyps [OF _ c(2), of "es0 @ [Closed (clientfd p ! i)]"] c(3) by (simp add: removed_pool_def)
    qed
  qed
qed

lemma check_loop_keeps:
  assumes "check_loop api up i p k cnt = Ret es (p', k', cnt')" "Q p"
    and "\<And>p n. Q p \<Longrightarrow> Q (p\<lparr>nready := n\<rparr>)"
    and "\<And>p j. Q p \<Longrightarrow> int j \<le> maxi p \<Longrightarrow> 0 \<le> clientfd p ! j \<Longrightarrow> Q (removed_pool j p)"
  shows "Q p'"
  using check_loop_run [OF assms(1), where Q = "\<lambda>p cnt es. Q p" and ?es0.0 = "[]"] assms(2-4) by simp

lemma check_loop_wf:
  assumes "check_loop api up i p k cnt = Ret es (p', k', cnt')" "wf_pool listenfd p"
  shows "wf_pool listenfd p'"
proof (rule check_loop_keeps [OF assms(1), where Q = "wf_pool listenfd"])
  fix p :: "'a pool" and j
  assume "wf_pool listenfd p" "int j \<le> maxi p" "0 \<le> clientfd p ! j"
  then show "wf_pool listenfd (removed_pool j p)"
    by (intro wf_removed_pool) (auto simp: wf_pool_def)
qed (use assms(2) in simp_all)

section \<open>Properties\<close>

lemma add_client_find:
  assumes "0 \<le> connfd" "connfd < 1024"
  shows "add_client api connfd p =
    (case find (\<lambda>i. clientfd p ! i < 0) [0..<1024] of
       None \<Rightarrow> Exits [] WrapperError | Some j \<Rightarrow> Ret [] (added_pool api connfd j p))"
proof (cases "find (\<lambda>i. clientfd p ! i < 0) [0..<1024]")
  case None
  have "\<not> (\<exists>m. m \<in> set [0..<1024] \<and> clientfd p ! m < 0)"
    using None unfolding find_None_iff .
  then have "0 \<le> clientfd p ! m" if "m < 1024" for m
    using that not_less [of "clientfd p ! m" 0] by auto
  then have "add_loop api connfd 0 (p\<lparr>nready := nready p - 1\<rparr>) = Exits [] WrapperError"
    by (intro add_loop_full) simp
  with None show ?thesis by (simp add: add_client_def)
next
  case (Some j)
  then obtain m where "m < 1024" "clientfd p ! m < 0" "j = m" "\<forall>n < m. \<not> clientfd p ! n < 0"
    by (auto simp: find_Some_iff)
  with Some show ?thesis using add_client_slot [of j p connfd api] assms by (simp add: not_less)
qed

lemma find_slot_bound: "find P [0..<n] = Some j \<Longrightarrow> j < n \<and> P j"
  by (auto simp: find_Some_iff)

text \<open>The pool stays well formed: \<open>init_pool\<close> establishes the invariant, and every turn of the
  server loop that returns keeps it, whatever \<open>Select\<close> answers and whichever connection it
  accepts, as long as a new descriptor is not already in use.\<close>

theorem pool_turn_wf:
  assumes "wf_pool listenfd p"
    and "listenfd \<in> ready \<Longrightarrow> 0 < connfd \<and> connfd < 1024 \<and> connfd \<notin> read_set p"
    and "pool_turn api up listenfd ready n connfd (p, k, cnt) = Ret es (p', k', cnt')"
  shows "wf_pool listenfd p'"
proof -
  let ?p = "p\<lparr>ready_set := ready, nready := n\<rparr>"
  have w: "wf_pool listenfd ?p" using assms(1) by simp
  show ?thesis
  proof (cases "listenfd \<in> ready")
    case False
    with assms(3) have "check_loop api up 0 ?p k cnt = Ret es (p', k', cnt')"
      by (simp add: pool_turn_def Let_def check_client_def)
    from check_loop_wf [OF this w] show ?thesis .
  next
    case True
    with assms(2) have c: "0 < connfd" "connfd < 1024" "connfd \<notin> read_set p" by simp_all
    then have "add_client api connfd ?p =
        (case find (\<lambda>i. clientfd ?p ! i < 0) [0..<1024] of
           None \<Rightarrow> Exits [] WrapperError | Some j \<Rightarrow> Ret [] (added_pool api connfd j ?p))"
      by (intro add_client_find) simp_all
    with True assms(3) obtain j es' where j: "find (\<lambda>i. clientfd ?p ! i < 0) [0..<1024] = Some j"
      and r: "check_loop api up 0 (added_pool api connfd j ?p) k cnt = Ret es' (p', k', cnt')"
      by (auto simp: pool_turn_def Let_def check_client_def emit_eq_Ret_iff split: option.splits)
    have "wf_pool listenfd (added_pool api connfd j ?p)"
      using find_slot_bound [OF j] c by (intro wf_added_pool [OF w]) simp_all
    from check_loop_wf [OF r this] show ?thesis .
  qed
qed

text \<open>\<open>add_client\<close> puts the connection into the lowest free slot, with a fresh reader, and
  updates the set, \<open>maxfd\<close> and \<open>maxi\<close>; when no slot is free it stops the server.\<close>

theorem add_client_lowest_slot:
  assumes "0 \<le> connfd" and "connfd < 1024"
  shows "add_client api connfd p =
    (case find (\<lambda>i. clientfd p ! i < 0) [0..<1024] of
       None \<Rightarrow> Exits [] WrapperError
     | Some j \<Rightarrow> Ret [] (p\<lparr>nready := nready p - 1, clientfd := (clientfd p)[j := connfd],
         clientrio := (clientrio p)[j := readinitb api connfd],
         read_set := insert connfd (read_set p), maxfd := max connfd (maxfd p),
         maxi := max (int j) (maxi p)\<rparr>))"
  using add_client_find [OF assms, of api p] by (simp add: added_pool_def split: option.splits)

definition pool_zero :: "rio_t pool" where
  "pool_zero = \<lparr>maxfd = 0, read_set = {}, ready_set = {}, nready = 0, maxi = 0, clientfd = [],
     clientrio = map (\<lambda>_. readinitb rio_ref 0) [0..<1024]\<rparr>"

definition pool_one :: "rio_t pool" where
  "pool_one = added_pool rio_ref 4 0 (pool_zero\<lparr>maxi := -1, clientfd := map (\<lambda>_. -1) [0..<1024],
     maxfd := 3, read_set := {3}\<rparr>)"

lemma init_pool_zero:
  "init_pool 3 pool_zero = Ret [] (pool_zero\<lparr>maxi := -1, clientfd := map (\<lambda>_. -1) [0..<1024],
     maxfd := 3, read_set := {3}\<rparr>)"
  by (simp add: init_pool_def FD_SET_def)

lemma wf_pool_one: "wf_pool 3 pool_one"
proof -
  have "length (clientrio pool_zero) = 1024" by (simp add: pool_zero_def)
  from wf_pool_init [OF _ _ this, of 3] obtain p' where
    p': "init_pool 3 pool_zero = Ret [] p'" "wf_pool 3 p'" "pool_fds p' = {}" by auto
  then have e: "p' = pool_zero\<lparr>maxi := -1, clientfd := map (\<lambda>_. -1) [0..<1024], maxfd := 3, read_set := {3}\<rparr>"
    by (simp add: init_pool_zero)
  have "wf_pool 3 (added_pool rio_ref 4 0 p')"
    by (rule wf_added_pool [OF p'(2)]) (simp_all add: e)
  then show ?thesis by (simp add: pool_one_def e)
qed

lemma pool_one_simps:
  "maxi pool_one = 0" "clientfd pool_one ! 0 = 4" "clientrio pool_one ! 0 = readinitb rio_ref 4"
  "read_set pool_one = {3, 4}" "nready pool_one = -1" "0 < length (clientfd pool_one)"
  by (auto simp: pool_one_def added_pool_def pool_zero_def)

theorem add_client_lowest_slot_witness:
  "\<exists>p j. add_client rio_ref 4 pool_one = Ret [] p \<and> clientfd p = (clientfd pool_one)[j := 4]"
proof (cases "find (\<lambda>i. clientfd pool_one ! i < 0) [0..<1024]")
  case None
  then have "\<not> clientfd pool_one ! 1 < 0" by (auto simp: find_None_iff)
  then show ?thesis by (simp add: pool_one_def added_pool_def pool_zero_def)
next
  case (Some j)
  then show ?thesis using add_client_lowest_slot [of 4 rio_ref pool_one] by auto
qed

theorem pool_turn_wf_witness:
  "\<exists>p'. pool_turn rio_ref (\<lambda>fd bs. True) 3 {} 0 0 (pool_one, on_wire 4 '''', 0) =
      Ret [] (p', on_wire 4 '''', 0) \<and> wf_pool 3 p'"
proof -
  have t: "pool_turn rio_ref (\<lambda>fd bs. True) 3 {} 0 0 (pool_one, on_wire 4 '''', 0) =
      Ret [] (pool_one\<lparr>ready_set := {}, nready := 0\<rparr>, on_wire 4 '''', 0)"
    by (simp add: pool_turn_def Let_def check_client_def check_loop_stop)
  show ?thesis using t pool_turn_wf [OF wf_pool_one _ t] by auto
qed

section \<open>What a scan sends\<close>

text \<open>
  The slots from \<open>i\<close> up to \<open>m\<close> hold clients that are ready, each with a reader of its own that is
  bound to its descriptor.
\<close>

definition ready_slots :: "('r \<Rightarrow> int) \<Rightarrow> 'r pool \<Rightarrow> nat \<Rightarrow> nat \<Rightarrow> bool" where
  "ready_slots fd_of p i m \<longleftrightarrow>
     (\<forall>j. i \<le> j \<longrightarrow> j < m \<longrightarrow> 0 < clientfd p ! j \<and> clientfd p ! j \<in> ready_set p \<and>
        fd_of (clientrio p ! j) = clientfd p ! j) \<and>
     inj_on (\<lambda>j. clientfd p ! j) {i..<m}"

lemma ready_slots_nready [simp]: "ready_slots f (p\<lparr>nready := n\<rparr>) i m = ready_slots f p i m"
  by (simp add: ready_slots_def)

lemma ready_slots_Suc:
  assumes "ready_slots f p i m" "i < m"
  shows "ready_slots f p (Suc i) m" "0 < clientfd p ! i" "clientfd p ! i \<in> ready_set p"
    "f (clientrio p ! i) = clientfd p ! i"
    "\<And>j. Suc i \<le> j \<Longrightarrow> j < m \<Longrightarrow> f (clientrio p ! j) \<noteq> clientfd p ! i"
proof -
  show "ready_slots f p (Suc i) m" "0 < clientfd p ! i" "clientfd p ! i \<in> ready_set p"
    "f (clientrio p ! i) = clientfd p ! i"
    using assms by (auto simp: ready_slots_def intro: inj_on_subset)
  fix j assume "Suc i \<le> j" "j < m"
  then show "f (clientrio p ! j) \<noteq> clientfd p ! i"
    using assms inj_onD [of "\<lambda>j. clientfd p ! j" "{i..<m}" i j] by (auto simp: ready_slots_def)
qed

context rio_reader
begin

abbreviation echo_of :: "'r pool \<Rightarrow> 'k \<Rightarrow> nat \<Rightarrow> bytes" where
  "echo_of p k j \<equiv> take_line 8191 (pending (clientrio p ! j) k)"

lemma scan_ready:
  assumes "ready_slots fd_of p i m" "i \<le> m" "int m \<le> maxi p + 1" "int m - int i \<le> nready p"
    and "\<And>j bs. j < m \<Longrightarrow> up (clientfd p ! j) bs"
  shows "\<exists>es k'. check_loop api up i p k cnt =
      emit es (check_loop api up m (p\<lparr>nready := nready p - (int m - int i)\<rparr>) k'
        (cnt + of_nat (\<Sum>j = i..<m. length (echo_of p k j)))) \<and>
    (\<forall>j. i \<le> j \<longrightarrow> j < m \<longrightarrow> sent (clientfd p ! j) es = echo_of p k j) \<and>
    (\<forall>fd. (\<forall>j. i \<le> j \<longrightarrow> j < m \<longrightarrow> clientfd p ! j \<noteq> fd) \<longrightarrow> sent fd es = [] \<and> wire k' fd = wire k fd) \<and>
    (\<forall>fd. Closed fd \<notin> set es)"
  using assms
proof (induction "m - i" arbitrary: i p k cnt)
  case 0
  then have "m = i" by simp
  then show ?case by (intro exI [of _ "[]"] exI [of _ k]) simp
next
  case (Suc d)
  let ?p = "p\<lparr>nready := nready p - 1\<rparr>" and ?fd = "clientfd p ! i" and ?l = "echo_of p k i"
  have im: "i < m" using Suc.hyps(2) by simp
  note rs = ready_slots_Suc [OF Suc.prems(1) im]
  obtain res rio' k1 where rd: "readlineb api (clientrio p ! i) k 8192 = (res, rio', k1)"
    by (metis prod_cases3)
  have pend: "echo_of ?p k1 j = echo_of p k j" if "Suc i \<le> j" "j < m" for j
    using pending_frame [OF rd, of "clientrio p ! j"] rs(4) rs(5) [OF that] by simp
  have "d = m - Suc i" using Suc.hyps(2) by simp
  from Suc.hyps(1) [OF this, of ?p k1 "cnt + of_nat (length ?l)"] rs(1) Suc.prems im
  obtain es k' where IH: "check_loop api up (Suc i) ?p k1 (cnt + of_nat (length ?l)) =
      emit es (check_loop api up m (?p\<lparr>nready := nready ?p - (int m - int (Suc i))\<rparr>) k'
        (cnt + of_nat (length ?l) + of_nat (\<Sum>j = Suc i..<m. length (echo_of ?p k1 j))))"
    and es: "\<forall>j. Suc i \<le> j \<longrightarrow> j < m \<longrightarrow> sent (clientfd ?p ! j) es = echo_of ?p k1 j"
      "\<forall>fd. (\<forall>j. Suc i \<le> j \<longrightarrow> j < m \<longrightarrow> clientfd ?p ! j \<noteq> fd) \<longrightarrow> sent fd es = [] \<and> wire k' fd = wire k1 fd"
      "\<forall>fd. Closed fd \<notin> set es"
    by auto
  have "(\<Sum>j = Suc i..<m. length (echo_of ?p k1 j)) = (\<Sum>j = Suc i..<m. length (echo_of p k j))"
    using pend by (intro sum.cong) auto
  then have total: "length ?l + (\<Sum>j = Suc i..<m. length (echo_of ?p k1 j)) = (\<Sum>j = i..<m. length (echo_of p k j))"
    using im by (simp add: sum.atLeast_Suc_lessThan)
  have nr: "?p\<lparr>nready := nready ?p - (int m - int (Suc i))\<rparr> = p\<lparr>nready := nready p - (int m - int i)\<rparr>"
    by simp
  have run: "check_loop api up (Suc i) ?p k1 (cnt + of_nat (length ?l)) =
      emit es (check_loop api up m (p\<lparr>nready := nready p - (int m - int i)\<rparr>) k'
        (cnt + of_nat (\<Sum>j = i..<m. length (echo_of p k j))))"
    using IH unfolding nr total [symmetric] by (simp add: add.assoc)
  have step: "check_loop api up i p k cnt = emit (if ?l = [] then [] else
       [Stdout (recv_message (length ?l) (cnt + of_nat (length ?l)) ?fd), Writen ?fd ?l])
     (check_loop api up (Suc i) ?p k1 (cnt + of_nat (length ?l)))"
  proof (cases "pending (clientrio p ! i) k = []")
    case True
    then have "res = Eof" using eof [of 8192 "clientrio p ! i" k] rd by auto
    with True show ?thesis
      using check_loop_ready [of i p api k res rio' k1 up cnt] rd rs Suc.prems im by simp
  next
    case False
    then have "res = Line ?l" "?l \<noteq> []"
      using line [of 8192 "clientrio p ! i" k] rd take_line_nonempty [of 8191] by auto
    then show ?thesis
      using check_loop_ready [of i p api k res rio' k1 up cnt] rd rs Suc.prems im by simp
  qed
  have fdj: "clientfd p ! j \<noteq> ?fd" if "Suc i \<le> j" "j < m" for j
    using rs(5) [OF that] Suc.prems(1) that by (auto simp: ready_slots_def)
  let ?es = "(if ?l = [] then [] else
       [Stdout (recv_message (length ?l) (cnt + of_nat (length ?l)) ?fd), Writen ?fd ?l]) @ es"
  have own: "sent ?fd es = []" using es(2) fdj by auto
  have "sent (clientfd p ! j) ?es = echo_of p k j" if "i \<le> j" "j < m" for j
    using that own es(1) pend fdj [of j] by (cases "j = i") auto
  moreover have "sent fd ?es = [] \<and> wire k' fd = wire k fd" if "\<forall>j. i \<le> j \<longrightarrow> j < m \<longrightarrow> clientfd p ! j \<noteq> fd" for fd
    using that im es(2) frame [OF rd, of fd] rs(4) by auto
  moreover have "Closed fd \<notin> set ?es" for fd using es(3) by auto
  ultimately show ?case using step run by (intro exI [of _ ?es] exI [of _ k']) simp
qed

end

text \<open>C25: a turn on which every client of the pool is ready echoes to each of them the next line
  it sent (at most 8191 bytes; nothing to a client that has closed its end), adds the number of bytes
  to the total, closes nothing and leaves the clients where they were.\<close>

theorem check_client_echoes:
  assumes "rio_reader api fd_of pending wire"
    and "ready_slots fd_of p 0 (nat (maxi p + 1))" and "-1 \<le> maxi p" and "nready p = maxi p + 1"
    and "\<And>fd bs. up fd bs"
  shows "\<exists>es k'. check_client api up p k cnt = Ret es (p\<lparr>nready := 0\<rparr>, k',
        cnt + of_nat (\<Sum>j = 0..<nat (maxi p + 1). length (take_line 8191 (pending (clientrio p ! j) k)))) \<and>
    (\<forall>j < nat (maxi p + 1). sent (clientfd p ! j) es = take_line 8191 (pending (clientrio p ! j) k)) \<and>
    (\<forall>fd. Closed fd \<notin> set es)"
proof -
  let ?m = "nat (maxi p + 1)"
  from rio_reader.scan_ready [OF assms(1,2), of up k cnt] assms(3-5)
  obtain es k' where r: "check_loop api up 0 p k cnt = emit es (check_loop api up ?m (p\<lparr>nready := 0\<rparr>) k'
        (cnt + of_nat (\<Sum>j = 0..<?m. length (take_line 8191 (pending (clientrio p ! j) k)))))"
    and es: "\<forall>j < ?m. sent (clientfd p ! j) es = take_line 8191 (pending (clientrio p ! j) k)"
      "\<forall>fd. Closed fd \<notin> set es"
    by auto
  have "check_loop api up ?m (p\<lparr>nready := 0\<rparr>) k' c = Ret [] (p\<lparr>nready := 0\<rparr>, k', c)" for c
    by (simp add: check_loop_stop)
  with r es show ?thesis by (auto simp: check_client_def)
qed

text \<open>A client that is not ready loses its connection as soon as a scan reaches its slot while
  ready clients are still to be counted: the descriptor is closed and is no member of \<open>read_set\<close>
  when the scan returns. Nothing was read from it: the \<open>else\<close> that should follow the end of file
  belongs to the test for a ready descriptor.\<close>

theorem check_client_closes_idle:
  assumes "rio_reader api fd_of pending wire" and "wf_pool listenfd p"
    and "ready_slots fd_of p 0 m" and "int m \<le> maxi p" and "int m < nready p"
    and "0 < clientfd p ! m" and "clientfd p ! m \<notin> ready_set p" and "\<And>fd bs. up fd bs"
  shows "Closed (clientfd p ! m) \<in> set (trace_of (check_client api up p k cnt)) \<and>
    (\<forall>es p' k' cnt'. check_client api up p k cnt = Ret es (p', k', cnt') \<longrightarrow>
       clientfd p ! m \<notin> read_set p')"
proof -
  let ?fd = "clientfd p ! m"
  from rio_reader.scan_ready [OF assms(1,3), of up k cnt] assms(4,5,8)
  obtain es k1 cnt1 where r: "check_loop api up 0 p k cnt =
      emit es (check_loop api up m (p\<lparr>nready := nready p - int m\<rparr>) k1 cnt1)"
    by auto
  have m: "m < 1024" using assms(2,4) by (auto simp: wf_pool_def)
  then have "?fd \<in> set (clientfd p)" using assms(2) by (simp add: wf_pool_def)
  then have fd: "?fd < 1024" using assms(2,6) unfolding wf_pool_def by auto
  let ?q = "removed_pool m (p\<lparr>nready := nready p - int m\<rparr>)"
  have s: "check_client api up p k cnt = emit (es @ [Closed ?fd]) (check_loop api up (Suc m) ?q k1 cnt1)"
    using r check_loop_other [of m "p\<lparr>nready := nready p - int m\<rparr>" api up k1 cnt1] assms(4-7) fd
    by (simp add: check_client_def)
  have "?fd \<notin> read_set p'" if run: "check_client api up p k cnt = Ret es' (p', k', cnt')" for es' p' k' cnt'
  proof -
    obtain vs where "check_loop api up (Suc m) ?q k1 cnt1 = Ret vs (p', k', cnt')"
      using run [unfolded s] by (auto simp: emit_eq_Ret_iff)
    then show ?thesis
      by (rule check_loop_keeps [where Q = "\<lambda>p. ?fd \<notin> read_set p"]) (auto simp: removed_pool_def)
  qed
  with s show ?thesis by simp
qed

text \<open>A free slot below the high-water mark stops the server: when a scan reaches it with a ready
  client still to come, the program closes descriptor -1 and exits in the error wrapper.\<close>

theorem check_client_gap_exits:
  assumes "rio_reader api fd_of pending wire" and "ready_slots fd_of p 0 m"
    and "int m \<le> maxi p" and "int m < nready p" and "clientfd p ! m = -1" and "\<And>fd bs. up fd bs"
  shows "\<exists>es. check_client api up p k cnt = Exits es WrapperError"
proof -
  from rio_reader.scan_ready [OF assms(1,2), of up k cnt] assms(3,4,6)
  obtain es k1 cnt1 where "check_loop api up 0 p k cnt =
      emit es (check_loop api up m (p\<lparr>nready := nready p - int m\<rparr>) k1 cnt1)"
    by auto
  then show ?thesis
    using check_loop_other [of m "p\<lparr>nready := nready p - int m\<rparr>" api up k1 cnt1] assms(3-5)
    by (simp add: check_client_def)
qed

text \<open>\<open>rio = p->clientrio[i]\<close> is a copy, so what the reader took from the kernel beyond the first
  line is lost: a client that sends two lines in one packet gets the first one back, and the
  second is then neither in the kernel nor in the reader the pool keeps.\<close>

theorem check_client_loses_second_line:
  "\<exists>es p' k' cnt'. check_client rio_ref (\<lambda>fd bs. True) (pool_one\<lparr>ready_set := {4}, nready := 1\<rparr>)
      (on_wire 4 (''a'' @ [LF] @ ''b'' @ [LF])) 0 = Ret es (p', k', cnt') \<and>
    sent 4 es = ''a'' @ [LF] \<and> ref_pending (clientrio p' ! 0) k' = []"
proof -
  let ?p = "pool_one\<lparr>ready_set := {4}, nready := 1\<rparr>" and ?k = "on_wire 4 (''a'' @ [LF] @ ''b'' @ [LF])"
  obtain rio' where rd: "readlineb rio_ref (readinitb rio_ref 4) ?k 8192 =
      (Line (''a'' @ [LF]), rio', on_wire 4 [])"
  proof
    have "rio_take_line (Suc (Suc n)) (readinitb rio_ref 4) ?k = (''a'' @ [LF],
        \<lparr>rio_fd = 4, rio_cnt = 2, rio_bufptr = 2, rio_buf = ''a'' @ [LF] @ ''b'' @ [LF]\<rparr>, on_wire 4 [])" for n
      by (simp add: rio_ref_def rio_fill_def unread_def on_wire_def)
    from this [of 8189] show "readlineb rio_ref (readinitb rio_ref 4) ?k 8192 = (Line (''a'' @ [LF]),
        \<lparr>rio_fd = 4, rio_cnt = 2, rio_bufptr = 2, rio_buf = ''a'' @ [LF] @ ''b'' @ [LF]\<rparr>, on_wire 4 [])"
      by (simp add: rio_ref_def)
  qed
  have "check_client rio_ref (\<lambda>fd bs. True) ?p ?k 0 =
      Ret [Stdout (recv_message (length (''a'' @ [LF])) 2 4), Writen 4 (''a'' @ [LF])] (?p\<lparr>nready := 0\<rparr>, on_wire 4 [], 2)"
    using check_loop_ready [of 0 ?p rio_ref ?k _ _ _ "\<lambda>fd bs. True" 0] rd
    by (simp add: check_client_def pool_one_simps check_loop_stop)
  then show ?thesis
    by (auto simp: pool_one_simps rio_ref_def ref_pending_def unread_def on_wire_def)
qed

section \<open>Witnesses of the scan\<close>

definition pool_two :: "rio_t pool" where
  "pool_two = added_pool rio_ref 5 1 pool_one"

lemma wf_pool_two: "wf_pool 3 pool_two"
  unfolding pool_two_def
  by (rule wf_added_pool [OF wf_pool_one]) (auto simp: pool_one_def added_pool_def pool_zero_def)

lemma pool_two_simps:
  "maxi pool_two = 1" "clientfd pool_two ! 0 = 4" "clientfd pool_two ! Suc 0 = 5"
  "clientrio pool_two ! 0 = readinitb rio_ref 4" "clientrio pool_two ! Suc 0 = readinitb rio_ref 5"
  "length (clientfd pool_two) = 1024"
  by (auto simp: pool_two_def pool_one_def added_pool_def pool_zero_def)

theorem check_client_echoes_witness:
  "\<exists>es k'. check_client rio_ref (\<lambda>fd bs. True) (pool_two\<lparr>ready_set := {4, 5}, nready := 2\<rparr>)
      (on_wire 5 [LF]) 0 = Ret es (pool_two\<lparr>ready_set := {4, 5}, nready := 0\<rparr>, k', 1) \<and>
    sent 4 es = [] \<and> sent 5 es = [LF]"
proof -
  let ?p = "pool_two\<lparr>ready_set := {4, 5}, nready := 2\<rparr>"
  have two: "nat (maxi ?p + 1) = 2" by (simp add: pool_two_simps)
  have "ready_slots rio_fd ?p 0 (nat (maxi ?p + 1))"
    unfolding two ready_slots_def
    by (auto simp: pool_two_simps less_2_cases_iff rio_ref_def inj_on_def)
  from check_client_echoes [OF ref.rio_reader_axioms this, of "\<lambda>fd bs. True" "on_wire 5 [LF]" 0]
  obtain es k' where "check_client rio_ref (\<lambda>fd bs. True) ?p (on_wire 5 [LF]) 0 = Ret es (?p\<lparr>nready := 0\<rparr>, k',
        0 + of_nat (\<Sum>j = 0..<2. length (take_line 8191 (ref_pending (clientrio ?p ! j) (on_wire 5 [LF])))))"
    and "\<forall>j < 2. sent (clientfd ?p ! j) es = take_line 8191 (ref_pending (clientrio ?p ! j) (on_wire 5 [LF]))"
    unfolding two by (auto simp: pool_two_simps)
  moreover have "take_line 8191 (ref_pending (clientrio ?p ! 0) (on_wire 5 [LF])) = []"
    "take_line 8191 (ref_pending (clientrio ?p ! 1) (on_wire 5 [LF])) = [LF]"
    using take_line_line [of "[]" 8191 "[]"]
    by (simp_all add: pool_two_simps rio_ref_def ref_pending_def unread_def on_wire_def)
  ultimately show ?thesis by (auto simp: pool_two_simps numeral_2_eq_2)
qed

theorem check_client_closes_idle_witness:
  "Closed 4 \<in> set (trace_of (check_client rio_ref (\<lambda>fd bs. True)
      (pool_two\<lparr>ready_set := {5}, nready := 1\<rparr>) (on_wire 5 [LF]) 0))"
  using check_client_closes_idle [OF ref.rio_reader_axioms, of 3 "pool_two\<lparr>ready_set := {5}, nready := 1\<rparr>" 0
      "\<lambda>fd bs. True" "on_wire 5 [LF]" 0]
  by (simp add: wf_pool_two pool_two_simps ready_slots_def)

theorem check_client_gap_exits_witness:
  "\<exists>es. check_client rio_ref (\<lambda>fd bs. True)
      (removed_pool 0 pool_two\<lparr>ready_set := {5}, nready := 1\<rparr>) (on_wire 5 [LF]) 0 = Exits es WrapperError"
  using check_client_gap_exits [OF ref.rio_reader_axioms, of "removed_pool 0 pool_two\<lparr>ready_set := {5}, nready := 1\<rparr>" 0
      "\<lambda>fd bs. True" "on_wire 5 [LF]" 0]
  by (simp add: removed_pool_def pool_two_simps ready_slots_def)

end
