(* ===== verification/EchoPoolRun.thy ===== *)
theory EchoPoolRun
  imports EchoPool
begin

text \<open>
  \<open>echo4.c\<close> as a whole: \<open>main\<close> from its arguments on, over any number of turns of its loop. Before
  each turn the kernel may have received more (\<open>arrive\<close>); \<open>ready\<close>, \<open>n\<close> and \<open>connfd\<close> are what
  \<open>Select\<close> and \<open>Accept\<close> answer in it. The pool and the total are compared with the trace.
\<close>

section \<open>The program\<close>

fun echo4_loop ::
  "('r, 'k) rio_api \<Rightarrow> (int \<Rightarrow> bytes \<Rightarrow> bool) \<Rightarrow> int \<Rightarrow> (('k \<Rightarrow> 'k) \<times> int set \<times> int \<times> int) list \<Rightarrow>
     'r pool \<times> 'k \<times> 32 word \<Rightarrow> ('r pool \<times> 'k \<times> 32 word) run" where
  "echo4_loop api up listenfd [] st = Ret [] st"
| "echo4_loop api up listenfd ((arrive, ready, n, connfd) # turns) (p, k, cnt) =
     bindE (pool_turn api up listenfd ready n connfd (p, arrive k, cnt))
       (echo4_loop api up listenfd turns)"

definition echo4_main ::
  "('r, 'k) rio_api \<Rightarrow> (int \<Rightarrow> bytes \<Rightarrow> bool) \<Rightarrow> string list \<Rightarrow> int \<Rightarrow> 'r pool \<Rightarrow>
     (('k \<Rightarrow> 'k) \<times> int set \<times> int \<times> int) list \<Rightarrow> 'k \<Rightarrow> ('r pool \<times> 'k \<times> 32 word) run" where
  "echo4_main api up argv listenfd zero turns k =
     (if length argv \<noteq> 2
      then Exits [Stderr (''usage: '' @ hd argv @ '' <port>'' @ [LF])] (ExitStatus 0)
      else bindE (init_pool listenfd zero) (\<lambda>p. echo4_loop api up listenfd turns (p, k, 0)))"

section \<open>What a trace says\<close>

text \<open>
  The descriptors open after a trace, starting from a set of open ones; whether every accepted
  descriptor was a new one, as the kernel guarantees; whether every descriptor closed was open;
  and how many bytes were written.
\<close>

fun open_fds :: "int set \<Rightarrow> event list \<Rightarrow> int set" where
  "open_fds H [] = H"
| "open_fds H (Accepted fd # es) = open_fds (insert fd H) es"
| "open_fds H (Closed fd # es) = open_fds (H - {fd}) es"
| "open_fds H (_ # es) = open_fds H es"

fun accepts_new :: "int set \<Rightarrow> event list \<Rightarrow> bool" where
  "accepts_new H [] = True"
| "accepts_new H (Accepted fd # es) = (0 < fd \<and> fd < 1024 \<and> fd \<notin> H \<and> accepts_new (insert fd H) es)"
| "accepts_new H (Closed fd # es) = accepts_new (H - {fd}) es"
| "accepts_new H (_ # es) = accepts_new H es"

fun closes_open :: "int set \<Rightarrow> event list \<Rightarrow> bool" where
  "closes_open H [] = True"
| "closes_open H (Accepted fd # es) = closes_open (insert fd H) es"
| "closes_open H (Closed fd # es) = (fd \<in> H \<and> closes_open (H - {fd}) es)"
| "closes_open H (_ # es) = closes_open H es"

fun written :: "event list \<Rightarrow> nat" where
  "written [] = 0"
| "written (Writen fd bs # es) = length bs + written es"
| "written (_ # es) = written es"

lemma open_fds_append [simp]: "open_fds H (xs @ ys) = open_fds (open_fds H xs) ys"
  by (induction H xs rule: open_fds.induct) auto

lemma accepts_new_append [simp]:
  "accepts_new H (xs @ ys) \<longleftrightarrow> accepts_new H xs \<and> accepts_new (open_fds H xs) ys"
  by (induction H xs rule: open_fds.induct) auto

lemma closes_open_append [simp]:
  "closes_open H (xs @ ys) \<longleftrightarrow> closes_open H xs \<and> closes_open (open_fds H xs) ys"
  by (induction H xs rule: open_fds.induct) auto

lemma written_append [simp]: "written (xs @ ys) = written xs + written ys"
  by (induction xs rule: written.induct) auto

section \<open>The invariant of a run\<close>

definition run_inv :: "int \<Rightarrow> 'r pool \<Rightarrow> 32 word \<Rightarrow> event list \<Rightarrow> bool" where
  "run_inv listenfd p cnt es \<longleftrightarrow> wf_pool listenfd p \<and> read_set p = open_fds {listenfd} es \<and>
     closes_open {listenfd} es \<and> cnt = of_nat (written es)"

lemma run_inv_scan:
  assumes "check_loop api up i p k cnt = Ret es (p', k', cnt')" "run_inv listenfd p cnt es0"
  shows "run_inv listenfd p' cnt' (es0 @ es)"
proof (rule check_loop_run [OF assms(1), where Q = "run_inv listenfd"])
  fix p :: "'a pool" and cnt es j
  assume r: "run_inv listenfd p cnt es" and "int j \<le> maxi p" and c: "0 \<le> clientfd p ! j"
  then have w: "wf_pool listenfd p" "j < 1024" by (auto simp: run_inv_def wf_pool_def)
  then have "clientfd p ! j \<in> read_set p"
    using c nth_mem [of j "clientfd p"] by (auto simp: wf_pool_def pool_fds_def)
  then show "run_inv listenfd (removed_pool j p) cnt (es @ [Closed (clientfd p ! j)])"
    using r wf_removed_pool [OF w c] by (simp add: run_inv_def removed_pool_def)
qed (use assms(2) in \<open>simp_all add: run_inv_def\<close>)

lemma run_inv_turn:
  assumes "pool_turn api up listenfd ready n connfd (p, k, cnt) = Ret es (p', k', cnt')"
    and "run_inv listenfd p cnt es0" and "accepts_new {listenfd} (es0 @ es)"
  shows "run_inv listenfd p' cnt' (es0 @ es)"
proof -
  let ?p = "p\<lparr>ready_set := ready, nready := n\<rparr>"
  have inv: "run_inv listenfd ?p cnt es0" using assms(2) by (simp add: run_inv_def)
  show ?thesis
  proof (cases "listenfd \<in> ready")
    case False
    with assms(1) have "check_loop api up 0 ?p k cnt = Ret es (p', k', cnt')"
      by (simp add: pool_turn_def Let_def check_client_def)
    from run_inv_scan [OF this inv] show ?thesis .
  next
    case True
    from assms(1) have "\<exists>es'. es = Accepted connfd # es'"
      using True by (auto simp: pool_turn_def Let_def emit_eq_Ret_iff bindE_eq_Ret_iff)
    with assms(2,3) have c: "0 < connfd" "connfd < 1024" "connfd \<notin> read_set p"
      by (auto simp: run_inv_def)
    then have "add_client api connfd ?p =
        (case find (\<lambda>i. clientfd ?p ! i < 0) [0..<1024] of
           None \<Rightarrow> Exits [] WrapperError | Some j \<Rightarrow> Ret [] (added_pool api connfd j ?p))"
      by (intro add_client_find) simp_all
    with True assms(1) obtain j es' where j: "find (\<lambda>i. clientfd ?p ! i < 0) [0..<1024] = Some j"
      and r: "check_loop api up 0 (added_pool api connfd j ?p) k cnt = Ret es' (p', k', cnt')"
      and es: "es = Accepted connfd # es'"
      by (auto simp: pool_turn_def Let_def check_client_def emit_eq_Ret_iff split: option.splits)
    have "wf_pool listenfd (added_pool api connfd j ?p)"
      using find_slot_bound [OF j] c inv by (intro wf_added_pool) (simp_all add: run_inv_def)
    then have "run_inv listenfd (added_pool api connfd j ?p) cnt (es0 @ [Accepted connfd])"
      using inv by (simp add: run_inv_def added_pool_def)
    from run_inv_scan [OF r this] show ?thesis by (simp add: es)
  qed
qed

lemma run_inv_loop:
  assumes "echo4_loop api up listenfd turns (p, k, cnt) = Ret es (p', k', cnt')"
    and "run_inv listenfd p cnt es0" and "accepts_new {listenfd} (es0 @ es)"
  shows "run_inv listenfd p' cnt' (es0 @ es)"
  using assms
proof (induction turns arbitrary: p k cnt es es0)
  case (Cons t turns)
  obtain arrive ready n connfd where t: "t = (arrive, ready, n, connfd)" by (cases t)
  from Cons.prems(1) obtain es1 p1 k1 cnt1 es2 where
    1: "pool_turn api up listenfd ready n connfd (p, arrive k, cnt) = Ret es1 (p1, k1, cnt1)" and
    2: "echo4_loop api up listenfd turns (p1, k1, cnt1) = Ret es2 (p', k', cnt')" and es: "es = es1 @ es2"
    by (auto simp: t bindE_eq_Ret_iff)
  have "run_inv listenfd p1 cnt1 (es0 @ es1)"
    using run_inv_turn [OF 1 Cons.prems(2)] Cons.prems(3) by (simp add: es)
  from Cons.IH [OF 2 this] Cons.prems(3) show ?case by (simp add: es)
qed simp

section \<open>Property\<close>

text \<open>C22: whatever \<open>Select\<close> and \<open>Accept\<close> answer over any number of turns, as long as the kernel
  accepts with descriptors that are not in use: the pool is well formed, \<open>read_set\<close> holds exactly
  the listening descriptor and the connections accepted and not yet closed, no descriptor is closed
  that was not open, and \<open>byte_cnt\<close> is the number of bytes written back, modulo \<open>2 ^ 32\<close>.\<close>

theorem echo4_run_invariant:
  assumes "echo4_main api up argv listenfd zero turns k = Ret es (p, k', cnt)"
    and "0 \<le> listenfd" and "listenfd < 1024" and "length (clientrio zero) = 1024"
    and "accepts_new {listenfd} es"
  shows "wf_pool listenfd p \<and> read_set p = open_fds {listenfd} es \<and> closes_open {listenfd} es \<and>
    cnt = of_nat (written es)"
proof -
  obtain p0 where p0: "init_pool listenfd zero = Ret [] p0" "wf_pool listenfd p0" "pool_fds p0 = {}"
    using wf_pool_init [OF assms(2-4)] by blast
  then have "read_set p0 = {listenfd}" by (simp add: wf_pool_def)
  with p0(2) have "run_inv listenfd p0 0 []" by (simp add: run_inv_def)
  moreover have "echo4_loop api up listenfd turns (p0, k, 0) = Ret es (p, k', cnt)"
    using assms(1) p0(1) by (simp add: echo4_main_def split: if_splits)
  ultimately show ?thesis using run_inv_loop [of api up listenfd turns p0 k 0 es p k' cnt "[]"] assms(5)
    by (simp add: run_inv_def)
qed

theorem echo4_run_invariant_witness:
  "\<exists>es p k'. echo4_main rio_ref (\<lambda>fd bs. True) [''echo4'', ''80''] 3 pool_zero
      [(\<lambda>k. k, {3}, 1, 4), (\<lambda>k. on_wire 4 [LF], {4}, 1, 0)] (on_wire 4 []) = Ret es (p, k', 1) \<and>
    read_set p = {3, 4} \<and> written es = 1"
proof -
  let ?p0 = "pool_zero\<lparr>maxi := -1, clientfd := map (\<lambda>_. -1) [0..<1024], maxfd := 3, read_set := {3},
    ready_set := {3}, nready := 1\<rparr>"
  let ?p1 = "added_pool rio_ref 4 0 ?p0" and ?up = "\<lambda>(fd :: int) (bs :: bytes). True"
  let ?p2 = "?p1\<lparr>ready_set := {4}, nready := 1\<rparr>" and ?k = "on_wire 4 [LF]"
  have add: "add_client rio_ref 4 ?p0 = Ret [] ?p1"
    by (rule add_client_slot) simp_all
  have p1: "maxi ?p1 = 0" "nready ?p1 = 0" "clientfd ?p1 ! 0 = 4" "clientrio ?p1 ! 0 = readinitb rio_ref 4"
    "read_set ?p1 = {3, 4}"
    by (auto simp: added_pool_def pool_zero_def)
  have t1: "pool_turn rio_ref ?up 3 {3} 1 4
      (pool_zero\<lparr>maxi := -1, clientfd := map (\<lambda>_. -1) [0..<1024], maxfd := 3, read_set := {3}\<rparr>, on_wire 4 [], 0) =
      Ret [Accepted 4] (?p1, on_wire 4 [], 0)"
    using add p1 by (simp add: pool_turn_def Let_def check_client_def check_loop_stop)
  have pend: "ref_pending (readinitb rio_ref 4) ?k = [LF]" by (simp add: ref.init_pending)
  obtain rio' k' where rd: "readlineb rio_ref (readinitb rio_ref 4) ?k 8192 = (Line [LF], rio', k')"
    using ref.line [of 8192 "readinitb rio_ref 4" ?k] take_line_line [of "[]" 8191 "[]"] by (auto simp: pend)
  have t2: "pool_turn rio_ref ?up 3 {4} 1 0 (?p1, ?k, 0) =
      Ret [Stdout (recv_message 1 1 4), Writen 4 [LF]] (?p2\<lparr>nready := 0\<rparr>, k', 1)"
    using check_loop_ready [of 0 ?p2 rio_ref ?k "Line [LF]" rio' k' ?up 0] p1 rd
    by (simp add: pool_turn_def Let_def check_client_def check_loop_stop)
  let ?es = "[Accepted 4, Stdout (recv_message 1 1 4), Writen 4 [LF]]"
  have m: "echo4_main rio_ref ?up [''echo4'', ''80''] 3 pool_zero
      [(\<lambda>k. k, {3}, 1, 4), (\<lambda>k. ?k, {4}, 1, 0)] (on_wire 4 []) = Ret ?es (?p2\<lparr>nready := 0\<rparr>, k', 1)"
    using t1 t2 by (simp add: echo4_main_def init_pool_zero)
  from echo4_run_invariant [OF m] have "read_set (?p2\<lparr>nready := 0\<rparr>) = open_fds {3} ?es"
    by (simp add: pool_zero_def)
  with m show ?thesis by (intro exI [of _ ?es] exI [of _ "?p2\<lparr>nready := 0\<rparr>"] exI [of _ k']) auto
qed

end
