(* ===== verification/EchoFork.thy ===== *)
theory EchoFork
  imports Csapp
begin

text \<open>
  \<open>echo2.c\<close>: the echo server that forks a child for every connection. The state is the parent
  (where it is in its loop, its descriptor table), its children (each with a copy of the table),
  whether SIGCHLD is pending and whether the handler runs. SIGCHLD is a flag, not a queue, and it is
  blocked while the handler runs. \<open>echo\<close> is not in the repository: the model records the file it is
  called on, and it may return or end the process. Only sockets are in the tables.
\<close>

section \<open>The processes\<close>

datatype ofile = Listening | Conn nat

datatype child_pc = C_Forked | C_Echo | C_Echoing | C_Close | C_Exit | C_Zombie

record child =
  cpc :: child_pc
  cconn :: int
  cfds :: "int \<rightharpoonup> ofile"

datatype parent_pc = P_Accept | P_Fork int | P_Close int | P_Exited

record fork_sys =
  ppc :: parent_pc
  pfds :: "int \<rightharpoonup> ofile"
  sigchld :: bool
  handling :: bool
  procs :: "nat \<rightharpoonup> child"
  nprocs :: nat
  nconns :: nat
  echoed :: "(nat \<times> ofile option) list"

text \<open>\<open>exit\<close> closes all descriptors; \<open>Close\<close> exits when the descriptor is not open.\<close>

definition exit_child :: "child \<Rightarrow> child" where
  "exit_child c = c\<lparr>cpc := C_Zombie, cfds := Map.empty\<rparr>"

definition child_close :: "int \<Rightarrow> child_pc \<Rightarrow> child \<Rightarrow> child" where
  "child_close fd next c =
     (if cfds c fd = None then exit_child c else c\<lparr>cfds := (cfds c)(fd := None), cpc := next\<rparr>)"

text \<open>One step of a child; \<open>ok\<close> says whether \<open>echo\<close> returns. The second result is the file \<open>echo\<close>
  is called on.\<close>

definition child_step :: "int \<Rightarrow> bool \<Rightarrow> child \<Rightarrow> (child \<times> ofile option list) option" where
  "child_step listenfd ok c =
     (case cpc c of
        C_Forked \<Rightarrow> Some (child_close listenfd C_Echo c, [])
      | C_Echo \<Rightarrow> Some (c\<lparr>cpc := C_Echoing\<rparr>, [cfds c (cconn c)])
      | C_Echoing \<Rightarrow> Some (if ok then c\<lparr>cpc := C_Close\<rparr> else exit_child c, [])
      | C_Close \<Rightarrow> Some (child_close (cconn c) C_Exit c, [])
      | C_Exit \<Rightarrow> Some (exit_child c, [])
      | C_Zombie \<Rightarrow> None)"

text \<open>One step of the parent's loop; \<open>fd\<close> is the descriptor \<open>Accept\<close> returns, one not in use.\<close>

definition parent_step :: "int \<Rightarrow> fork_sys \<Rightarrow> fork_sys option" where
  "parent_step fd s =
     (case ppc s of
        P_Accept \<Rightarrow>
          (if 0 \<le> fd \<and> pfds s fd = None then
             Some (s\<lparr>pfds := (pfds s)(fd \<mapsto> Conn (nconns s)), nconns := Suc (nconns s), ppc := P_Fork fd\<rparr>)
           else None)
      | P_Fork connfd \<Rightarrow>
          Some (s\<lparr>procs := (procs s)(nprocs s \<mapsto> \<lparr>cpc = C_Forked, cconn = connfd, cfds = pfds s\<rparr>),
                  nprocs := Suc (nprocs s), ppc := P_Close connfd\<rparr>)
      | P_Close connfd \<Rightarrow>
          (if pfds s connfd = None then Some (s\<lparr>ppc := P_Exited\<rparr>)
           else Some (s\<lparr>pfds := (pfds s)(connfd := None), ppc := P_Accept\<rparr>))
      | P_Exited \<Rightarrow> None)"

text \<open>
  One evaluation of the handler's loop condition: \<open>waitpid\<close> reaps a zombie of its choice, \<open>c\<close>, and
  the loop goes on, or there is none and the handler returns.
\<close>

definition zombie :: "fork_sys \<Rightarrow> nat \<Rightarrow> bool" where
  "zombie s c = (case procs s c of None \<Rightarrow> False | Some ch \<Rightarrow> cpc ch = C_Zombie)"

definition sigchld_handler :: "nat \<Rightarrow> fork_sys \<Rightarrow> fork_sys option" where
  "sigchld_handler c s =
     (if zombie s c then Some (s\<lparr>procs := (procs s)(c := None)\<rparr>)
      else if \<forall>j < nprocs s. \<not> zombie s j then Some (s\<lparr>handling := False\<rparr>)
      else None)"

definition echo2_start :: "string list \<Rightarrow> int \<Rightarrow> fork_sys run" where
  "echo2_start argv listenfd =
     (if length argv \<noteq> 2 then Exits [Stderr (''usage: '' @ hd argv @ '' <port>'' @ [LF])] (ExitStatus 0)
      else if listenfd < 0 then Exits [] WrapperError
      else Ret [] \<lparr>ppc = P_Accept, pfds = [listenfd \<mapsto> Listening], sigchld = False, handling = False,
        procs = Map.empty, nprocs = 0, nconns = 0, echoed = []\<rparr>)"

inductive fork_step :: "int \<Rightarrow> fork_sys \<Rightarrow> fork_sys \<Rightarrow> bool" for listenfd :: int where
  parent: "\<not> handling s \<Longrightarrow> parent_step fd s = Some s' \<Longrightarrow> fork_step listenfd s s'"
| signal: "sigchld s \<Longrightarrow> \<not> handling s \<Longrightarrow> ppc s \<noteq> P_Exited \<Longrightarrow>
    fork_step listenfd s (s\<lparr>sigchld := False, handling := True\<rparr>)"
| handler: "handling s \<Longrightarrow> sigchld_handler c s = Some s' \<Longrightarrow> fork_step listenfd s s'"
| child: "procs s c = Some ch \<Longrightarrow> child_step listenfd ok ch = Some (ch', calls) \<Longrightarrow>
    fork_step listenfd s (s\<lparr>procs := (procs s)(c \<mapsto> ch'), echoed := echoed s @ map (Pair c) calls,
      sigchld := sigchld s \<or> cpc ch' = C_Zombie\<rparr>)"

inductive fork_reach :: "string list \<Rightarrow> int \<Rightarrow> fork_sys \<Rightarrow> bool" for argv :: "string list" and listenfd :: int where
  init: "echo2_start argv listenfd = Ret es s \<Longrightarrow> fork_reach argv listenfd s"
| step: "fork_reach argv listenfd s \<Longrightarrow> fork_step listenfd s s' \<Longrightarrow> fork_reach argv listenfd s'"

inductive_cases fork_stepE [step_elims]: "fork_step listenfd s s'"

section \<open>The invariant\<close>

text \<open>Child \<open>k\<close> was forked for connection \<open>k\<close>.\<close>

fun child_ok :: "int \<Rightarrow> nat \<Rightarrow> child_pc \<Rightarrow> int \<Rightarrow> (int \<rightharpoonup> ofile) \<Rightarrow> bool" where
  "child_ok l k C_Forked fd t \<longleftrightarrow> t = [l \<mapsto> Listening, fd \<mapsto> Conn k] \<and> fd \<noteq> l"
| "child_ok l k C_Echo fd t \<longleftrightarrow> t = [fd \<mapsto> Conn k]"
| "child_ok l k C_Echoing fd t \<longleftrightarrow> t = [fd \<mapsto> Conn k]"
| "child_ok l k C_Close fd t \<longleftrightarrow> t = [fd \<mapsto> Conn k]"
| "child_ok l k C_Exit fd t \<longleftrightarrow> t = Map.empty"
| "child_ok l k C_Zombie fd t \<longleftrightarrow> t = Map.empty"

fun parent_ok :: "int \<Rightarrow> nat \<Rightarrow> nat \<Rightarrow> parent_pc \<Rightarrow> (int \<rightharpoonup> ofile) \<Rightarrow> bool" where
  "parent_ok l n m P_Accept t \<longleftrightarrow> t = [l \<mapsto> Listening] \<and> m = n"
| "parent_ok l n m (P_Fork fd) t \<longleftrightarrow> t = [l \<mapsto> Listening, fd \<mapsto> Conn n] \<and> fd \<noteq> l \<and> m = Suc n"
| "parent_ok l n m (P_Close fd) t \<longleftrightarrow> t = [l \<mapsto> Listening, fd \<mapsto> Conn (n - 1)] \<and> fd \<noteq> l \<and> m = n \<and> 0 < n"
| "parent_ok l n m P_Exited t \<longleftrightarrow> False"

fun before_echo :: "child_pc \<Rightarrow> bool" where
  "before_echo C_Forked = True"
| "before_echo C_Echo = True"
| "before_echo _ = False"

definition waiting :: "fork_sys \<Rightarrow> nat \<Rightarrow> bool" where
  "waiting s k = (case procs s k of None \<Rightarrow> False | Some ch \<Rightarrow> before_echo (cpc ch))"

definition fork_inv :: "int \<Rightarrow> fork_sys \<Rightarrow> bool" where
  "fork_inv l s \<longleftrightarrow> parent_ok l (nprocs s) (nconns s) (ppc s) (pfds s) \<and>
     (\<forall>k ch. procs s k = Some ch \<longrightarrow> k < nprocs s \<and> child_ok l k (cpc ch) (cconn ch) (cfds ch)) \<and>
     (\<forall>k. zombie s k \<longrightarrow> sigchld s \<or> handling s) \<and>
     distinct (map fst (echoed s)) \<and>
     set (echoed s) = {(k, Some (Conn k)) |k. k < nprocs s \<and> \<not> waiting s k}"

lemma fork_inv_init: "echo2_start argv l = Ret es s \<Longrightarrow> fork_inv l s"
  by (auto simp: echo2_start_def fork_inv_def zombie_def split: if_splits)
lemma zombie_less: "fork_inv l s \<Longrightarrow> zombie s k \<Longrightarrow> k < nprocs s"
  by (auto simp: fork_inv_def zombie_def split: option.splits)

lemma inv_parent:
  assumes "fork_inv l s" "parent_step fd s = Some s'"
  shows "fork_inv l s'"
proof -
  have fresh: "procs s (nprocs s) = None"
    using assms(1) by (cases "procs s (nprocs s)") (auto simp: fork_inv_def)
  show ?thesis
  proof (cases "ppc s")
    case P_Accept
    then have "s' = s\<lparr>pfds := (pfds s)(fd \<mapsto> Conn (nconns s)), nconns := Suc (nconns s), ppc := P_Fork fd\<rparr>"
      "pfds s fd = None" using assms(2) by (auto simp: parent_step_def split: if_splits)
    with P_Accept assms(1) show ?thesis
      by (auto simp: fork_inv_def zombie_def waiting_def split: if_splits)
  next
    case (P_Fork c)
    then have s': "s' = s\<lparr>procs := (procs s)(nprocs s \<mapsto> \<lparr>cpc = C_Forked, cconn = c, cfds = pfds s\<rparr>),
        nprocs := Suc (nprocs s), ppc := P_Close c\<rparr>"
      using assms(2) by (auto simp: parent_step_def)
    have w: "waiting s' k = (if k = nprocs s then True else waiting s k)"
      "zombie s' k = (if k = nprocs s then False else zombie s k)" for k
      by (auto simp: s' waiting_def zombie_def)
    have n: "nprocs s' = Suc (nprocs s)" by (simp add: s')
    have "k < nprocs s' \<and> \<not> waiting s' k \<longleftrightarrow> k < nprocs s \<and> \<not> waiting s k" for k
      unfolding n w by (cases "k = nprocs s") auto
    then have "{(k, Some (Conn k)) |k. k < nprocs s' \<and> \<not> waiting s' k} =
        {(k, Some (Conn k)) |k. k < nprocs s \<and> \<not> waiting s k}"
      by simp
    then show ?thesis
      using P_Fork assms(1) fresh unfolding fork_inv_def w
      by (auto simp: s' intro: less_SucI)
  next
    case (P_Close c)
    then show ?thesis
      using assms by (auto simp: parent_step_def fork_inv_def zombie_def waiting_def split: if_splits)
  next
    case P_Exited
    then show ?thesis using assms(2) by (simp add: parent_step_def)
  qed
qed

lemma inv_handler:
  assumes "fork_inv l s" "handling s" "sigchld_handler c s = Some s'"
  shows "fork_inv l s'"
proof (cases "zombie s c")
  case True
  then have s': "s' = s\<lparr>procs := (procs s)(c := None)\<rparr>" using assms(3) by (simp add: sigchld_handler_def)
  have "\<not> waiting s c" using True by (auto simp: zombie_def waiting_def split: option.splits)
  then have "waiting s' k = waiting s k" for k by (auto simp: s' waiting_def)
  moreover have "zombie s' k \<Longrightarrow> zombie s k" for k by (auto simp: s' zombie_def split: if_splits)
  ultimately show ?thesis using assms(1,2) unfolding fork_inv_def by (auto simp: s' split: if_splits)
next
  case False
  then have s': "s' = s\<lparr>handling := False\<rparr>" and nz: "\<forall>j < nprocs s. \<not> zombie s j"
    using assms(3) by (auto simp: sigchld_handler_def split: if_splits)
  have "\<not> zombie s k" for k
    using nz zombie_less [OF assms(1)] by blast
  then have "\<not> zombie s' k" for k by (simp add: s' zombie_def)
  moreover have "waiting s' k = waiting s k" for k by (simp add: s' waiting_def)
  ultimately show ?thesis using assms(1) unfolding fork_inv_def by (auto simp: s')
qed

lemma child_step_ok:
  assumes "child_ok l k (cpc ch) (cconn ch) (cfds ch)" "child_step l ok ch = Some (ch', calls)"
  shows "child_ok l k (cpc ch') (cconn ch') (cfds ch') \<and>
    calls = (if before_echo (cpc ch) \<and> \<not> before_echo (cpc ch') then [Some (Conn k)] else []) \<and>
    (before_echo (cpc ch') \<longrightarrow> before_echo (cpc ch))"
  using assms
  by (cases "cpc ch") (auto simp: child_step_def child_close_def exit_child_def split: if_splits)

lemma inv_child:
  assumes "fork_inv l s" "procs s c = Some ch" "child_step l ok ch = Some (ch', calls)"
  shows "fork_inv l (s\<lparr>procs := (procs s)(c \<mapsto> ch'), echoed := echoed s @ map (Pair c) calls,
      sigchld := sigchld s \<or> cpc ch' = C_Zombie\<rparr>)" (is "fork_inv l ?s")
proof -
  have ok: "child_ok l c (cpc ch) (cconn ch) (cfds ch)" and cn: "c < nprocs s"
    using assms(1,2) by (auto simp: fork_inv_def)
  note st = child_step_ok [OF ok assms(3)]
  have w: "waiting ?s k = (if k = c then before_echo (cpc ch') else waiting s k)"
    "zombie ?s k = (if k = c then cpc ch' = C_Zombie else zombie s k)" for k
    by (auto simp: waiting_def zombie_def)
  have wc: "waiting s c = before_echo (cpc ch)" using assms(2) by (simp add: waiting_def)
  have log: "set (echoed s) = {(k, Some (Conn k)) |k. k < nprocs s \<and> \<not> waiting s k}"
    using assms(1) by (simp add: fork_inv_def)
  have "c \<notin> fst ` set (echoed s)" if "before_echo (cpc ch)"
    using that log wc by auto
  then have d: "distinct (map fst (echoed ?s))"
    using assms(1) st by (auto simp: fork_inv_def)
  have "set (echoed ?s) = {(k, Some (Conn k)) |k. k < nprocs ?s \<and> \<not> waiting ?s k}"
    unfolding w using st log wc cn by (auto split: if_splits)
  with d show ?thesis
    using assms(1) st cn unfolding fork_inv_def w by auto
qed

lemma fork_reach_inv: "fork_reach argv l s \<Longrightarrow> fork_inv l s"
proof (induction rule: fork_reach.induct)
  case (init es s)
  then show ?case by (rule fork_inv_init)
next
  case (step s s')
  from step(2,3) show ?case
  proof (induction rule: fork_step.induct)
    case (signal s)
    then show ?case by (auto simp: fork_inv_def zombie_def waiting_def)
  qed (auto intro: inv_parent inv_handler inv_child)
qed

section \<open>Progress\<close>

text \<open>The work that is left without a new connection.\<close>

fun child_work :: "child_pc \<Rightarrow> nat" where
  "child_work C_Forked = 8"
| "child_work C_Echo = 7"
| "child_work C_Echoing = 6"
| "child_work C_Close = 5"
| "child_work C_Exit = 4"
| "child_work C_Zombie = 1"

fun parent_work :: "parent_pc \<Rightarrow> nat" where
  "parent_work P_Accept = 0"
| "parent_work (P_Fork fd) = 10"
| "parent_work (P_Close fd) = 1"
| "parent_work P_Exited = 0"

definition proc_work :: "child option \<Rightarrow> nat" where
  "proc_work x = (case x of None \<Rightarrow> 0 | Some ch \<Rightarrow> child_work (cpc ch))"

definition fork_work :: "fork_sys \<Rightarrow> nat" where
  "fork_work s = parent_work (ppc s) + (\<Sum>k < nprocs s. proc_work (procs s k)) +
     (if sigchld s then 2 else 0) + (if handling s then 1 else 0)"

lemma sum_change:
  assumes "c < n" "\<And>k. k \<noteq> c \<Longrightarrow> g k = f k"
  shows "(\<Sum>k < (n::nat). g k :: nat) + f c = (\<Sum>k < n. f k) + g c"
proof -
  have "(\<Sum>k < n. g k) = g c + (\<Sum>k \<in> {..<n} - {c}. g k)" "(\<Sum>k < n. f k) = f c + (\<Sum>k \<in> {..<n} - {c}. f k)"
    using assms(1) by (auto intro: sum.remove)
  moreover have "(\<Sum>k \<in> {..<n} - {c}. g k) = (\<Sum>k \<in> {..<n} - {c}. f k)"
    using assms(2) by (intro sum.cong) auto
  ultimately show ?thesis by simp
qed

lemma proc_sum_change:
  assumes "c < (n::nat)"
  shows "(\<Sum>k < n. proc_work ((t(c := x)) k)) + proc_work (t c) = (\<Sum>k < n. proc_work (t k)) + proc_work x"
  using sum_change [OF assms, of "\<lambda>k. proc_work ((t(c := x)) k)" "\<lambda>k. proc_work (t k)"] by simp

lemma child_step_work:
  "child_step l ok ch = Some (ch', calls) \<Longrightarrow>
   child_work (cpc ch') + (if cpc ch' = C_Zombie then 3 else 1) \<le> child_work (cpc ch)"
  by (cases "cpc ch") (auto simp: child_step_def child_close_def exit_child_def split: if_splits)

lemma fork_step_work:
  assumes "fork_step l s s'" "fork_inv l s" "nconns s' = nconns s"
  shows "fork_work s' < fork_work s"
  using assms(1)
proof cases
  case (parent fd)
  show ?thesis
  proof (cases "ppc s")
    case (P_Fork c)
    have "(\<Sum>k < nprocs s. proc_work (procs s' k)) = (\<Sum>k < nprocs s. proc_work (procs s k))"
      using parent P_Fork by (intro sum.cong) (auto simp: parent_step_def)
    with parent P_Fork show ?thesis by (auto simp: parent_step_def fork_work_def proc_work_def)
  qed (use parent assms(2,3) in \<open>auto simp: parent_step_def fork_work_def fork_inv_def split: if_splits\<close>)
next
  case signal
  then show ?thesis by (simp add: fork_work_def)
next
  case (handler c)
  show ?thesis
  proof (cases "zombie s c")
    case True
    then have "proc_work (procs s c) = 1" by (auto simp: zombie_def proc_work_def split: option.splits)
    moreover have "s' = s\<lparr>procs := (procs s)(c := None)\<rparr>" using True handler by (simp add: sigchld_handler_def)
    moreover have "proc_work None = 0" by (simp add: proc_work_def)
    ultimately show ?thesis
      using proc_sum_change [OF zombie_less [OF assms(2) True], of "procs s" None]
      by (simp add: fork_work_def del: fun_upd_apply)
  next
    case False
    with handler show ?thesis by (auto simp: sigchld_handler_def fork_work_def split: if_splits)
  qed
next
  case (child c ch ok ch' calls)
  have "c < nprocs s" using child assms(2) by (auto simp: fork_inv_def)
  from proc_sum_change [OF this, of "procs s" "Some ch'"] child_step_work [OF child(3)] child(1,2)
  show ?thesis by (simp add: fork_work_def proc_work_def del: fun_upd_apply split: if_splits)
qed

text \<open>A state in which only \<open>Accept\<close> can go on.\<close>

definition idle :: "int \<Rightarrow> fork_sys \<Rightarrow> bool" where
  "idle l s \<longleftrightarrow> (\<forall>s'. fork_step l s s' \<longrightarrow> nconns s' \<noteq> nconns s)"

lemma idle_no_child:
  assumes "fork_inv l s" "idle l s"
  shows "procs s = Map.empty" "ppc s = P_Accept"
proof -
  have nh: "\<not> handling s"
  proof
    assume h: "handling s"
    show False
    proof (cases "\<exists>c < nprocs s. zombie s c")
      case True
      then obtain c where "zombie s c" by blast
      then have "sigchld_handler c s = Some (s\<lparr>procs := (procs s)(c := None)\<rparr>)" by (simp add: sigchld_handler_def)
      from fork_step.handler [OF h this, where listenfd = l] show False using assms(2) by (auto simp: idle_def)
    next
      case False
      then have "\<not> zombie s (nprocs s)" using zombie_less [OF assms(1)] by blast
      with False have "sigchld_handler (nprocs s) s = Some (s\<lparr>handling := False\<rparr>)"
        by (simp add: sigchld_handler_def)
      from fork_step.handler [OF h this, where listenfd = l] show False using assms(2) by (auto simp: idle_def)
    qed
  qed
  show pp: "ppc s = P_Accept"
  proof (cases "ppc s")
    case (P_Fork c)
    then obtain s' where "parent_step 0 s = Some s'" "nconns s' = nconns s" by (simp add: parent_step_def)
    with nh assms(2) show ?thesis by (auto simp: idle_def dest: fork_step.parent)
  next
    case (P_Close c)
    then obtain s' where "parent_step 0 s = Some s'" "nconns s' = nconns s"
      by (cases "pfds s c") (simp_all add: parent_step_def)
    with nh assms(2) show ?thesis by (auto simp: idle_def dest: fork_step.parent)
  next
    case P_Exited
    with assms(1) show ?thesis by (simp add: fork_inv_def)
  qed simp
  have "\<not> sigchld s"
  proof
    assume "sigchld s"
    from fork_step.signal [OF this nh, where listenfd = l] pp assms(2) show False by (auto simp: idle_def)
  qed
  with nh have nz: "\<not> zombie s k" for k using assms(1) by (auto simp: fork_inv_def)
  have "procs s k = None" for k
  proof (cases "procs s k")
    case (Some ch)
    then have "cpc ch \<noteq> C_Zombie" using nz [of k] by (simp add: zombie_def)
    then obtain ch' calls where st: "child_step l True ch = Some (ch', calls)"
      by (cases "cpc ch") (simp_all add: child_step_def)
    from fork_step.child [OF Some st] assms(2) show ?thesis by (auto simp: idle_def)
  qed simp
  then show "procs s = Map.empty" by auto
qed

section \<open>Properties\<close>

text \<open>No zombie is forgotten. Signals are not queued, so several children may die for one SIGCHLD;
  still, whenever no SIGCHLD is pending and the handler is not running, there is no zombie, since the
  handler loops until \<open>waitpid\<close> finds none.\<close>

theorem echo2_no_zombie_left:
  assumes "fork_reach argv listenfd s" and "\<not> sigchld s" and "\<not> handling s"
  shows "\<not> zombie s c"
  using fork_reach_inv [OF assms(1)] assms(2,3) by (auto simp: fork_inv_def)

text \<open>C9: every connection is served by a child of its own, exactly once: a child is forked for each connection
  accepted (the newest one may still wait for its \<open>Fork\<close>); the calls of \<open>echo\<close> so far are, without repetition,
  one on connection \<open>k\<close> in child \<open>k\<close> for every child that is not still before its call, so that no child
  closes its connection, exits or is reaped unserved; a child never has another connection's
  descriptor open, a dead child has none, and the parent holds the listening descriptor and no
  connection when it waits in \<open>Accept\<close>.\<close>

theorem echo2_isolation:
  assumes "fork_reach argv listenfd s"
  shows "nconns s = nprocs s + (case ppc s of P_Fork fd \<Rightarrow> 1 | _ \<Rightarrow> 0) \<and> distinct (echoed s) \<and>
    set (echoed s) = {(k, Some (Conn k)) |k. k < nprocs s \<and>
      (\<forall>ch. procs s k = Some ch \<longrightarrow> cpc ch \<noteq> C_Forked \<and> cpc ch \<noteq> C_Echo)} \<and>
    (\<forall>k ch fd j. procs s k = Some ch \<longrightarrow> cfds ch fd = Some (Conn j) \<longrightarrow> j = k \<and> cpc ch \<noteq> C_Zombie) \<and>
    (ppc s = P_Accept \<longrightarrow> pfds s = [listenfd \<mapsto> Listening]) \<and> ppc s \<noteq> P_Exited"
proof -
  note inv = fork_reach_inv [OF assms]
  have "j = k \<and> cpc ch \<noteq> C_Zombie"
    if "procs s k = Some ch" "cfds ch fd = Some (Conn j)" for k ch fd j
  proof -
    have "child_ok listenfd k (cpc ch) (cconn ch) (cfds ch)" using inv that(1) by (simp add: fork_inv_def)
    with that(2) show ?thesis by (cases "cpc ch") (auto split: if_splits)
  qed
  moreover have "\<not> waiting s k \<longleftrightarrow> (\<forall>ch. procs s k = Some ch \<longrightarrow> cpc ch \<noteq> C_Forked \<and> cpc ch \<noteq> C_Echo)" for k
    by (cases "procs s k") (auto simp: waiting_def elim: before_echo.elims)
  then have "set (echoed s) = {(k, Some (Conn k)) |k. k < nprocs s \<and>
      (\<forall>ch. procs s k = Some ch \<longrightarrow> cpc ch \<noteq> C_Forked \<and> cpc ch \<noteq> C_Echo)}"
    using inv by (simp add: fork_inv_def)
  moreover have "nconns s = nprocs s + (case ppc s of P_Fork fd \<Rightarrow> 1 | _ \<Rightarrow> 0)"
    "ppc s = P_Accept \<longrightarrow> pfds s = [listenfd \<mapsto> Listening]" "ppc s \<noteq> P_Exited"
    using inv by (cases "ppc s"; simp add: fork_inv_def)+
  moreover have "distinct (echoed s)" using inv by (simp add: fork_inv_def distinct_map)
  ultimately show ?thesis by blast
qed

text \<open>C27: the server always finishes what it has accepted: from a reachable state there is no infinite
  run without a new connection, and when nothing but \<open>Accept\<close> can happen, all children have been
  reaped, \<open>echo\<close> has been called for every connection accepted so far, and every connected
  descriptor is closed.\<close>

theorem echo2_finishes:
  assumes "fork_reach argv listenfd s"
  shows "(\<nexists>f. f 0 = s \<and> (\<forall>n::nat. fork_step listenfd (f n) (f (Suc n)) \<and> nconns (f (Suc n)) = nconns (f n))) \<and>
    (idle listenfd s \<longrightarrow> procs s = Map.empty \<and> pfds s = [listenfd \<mapsto> Listening] \<and>
       set (echoed s) = {(k, Some (Conn k)) |k. k < nconns s})"
proof -
  have inf: False if "f 0 = s"
    and st: "\<And>n::nat. fork_step listenfd (f n) (f (Suc n)) \<and> nconns (f (Suc n)) = nconns (f n)" for f
  proof -
    have "fork_reach argv listenfd (f n)" for n
      by (induction n) (use assms that(1) st in \<open>auto intro: fork_reach.step\<close>)
    then have "fork_inv listenfd (f n)" for n by (rule fork_reach_inv)
    then have "(f (Suc n), f n) \<in> measure fork_work" for n
      using fork_step_work [of listenfd "f n" "f (Suc n)"] st by simp
    then show False using wf_iff_no_infinite_down_chain [of "measure fork_work"] by auto
  qed
  note inv = fork_reach_inv [OF assms]
  have "procs s = Map.empty \<and> pfds s = [listenfd \<mapsto> Listening] \<and>
       set (echoed s) = {(k, Some (Conn k)) |k. k < nconns s}" if "idle listenfd s"
    using inv idle_no_child [OF inv that] by (simp add: fork_inv_def waiting_def)
  with inf show ?thesis by blast
qed

section \<open>A run\<close>

text \<open>One connection is accepted, served and closed, and its child is reaped.\<close>

definition fork_idle :: "nat \<Rightarrow> (nat \<times> ofile option) list \<Rightarrow> fork_sys" where
  "fork_idle n log = \<lparr>ppc = P_Accept, pfds = [3 \<mapsto> Listening], sigchld = False, handling = False,
     procs = Map.empty, nprocs = n, nconns = n, echoed = log\<rparr>"

lemma run_parent: "fork_reach a l s \<Longrightarrow> \<not> handling s \<Longrightarrow> parent_step fd s = Some s' \<Longrightarrow> fork_reach a l s'"
  by (blast intro: fork_reach.step fork_step.parent)

lemma run_child:
  "fork_reach a l s \<Longrightarrow> procs s c = Some ch \<Longrightarrow> child_step l True ch = Some (ch', calls) \<Longrightarrow>
   s' = s\<lparr>procs := (procs s)(c \<mapsto> ch'), echoed := echoed s @ map (Pair c) calls,
     sigchld := sigchld s \<or> cpc ch' = C_Zombie\<rparr> \<Longrightarrow> fork_reach a l s'"
  by (blast intro: fork_reach.step fork_step.child)

lemma reach_forked:
  "fork_reach [''echo2'', ''80''] 3 (fork_idle 1 []\<lparr>procs := [0 \<mapsto> \<lparr>cpc = C_Forked, cconn = 4, cfds = [3 \<mapsto> Listening, 4 \<mapsto> Conn 0]\<rparr>]\<rparr>)"
proof -
  have "fork_reach [''echo2'', ''80''] 3 (fork_idle 0 [])"
    by (rule fork_reach.init) (simp add: echo2_start_def fork_idle_def)
  then have "fork_reach [''echo2'', ''80''] 3
      (fork_idle 0 []\<lparr>pfds := [3 \<mapsto> Listening, 4 \<mapsto> Conn 0], nconns := 1, ppc := P_Fork 4\<rparr>)"
    by (rule run_parent [where fd = 4]) (simp_all add: fork_idle_def parent_step_def)
  then have "fork_reach [''echo2'', ''80''] 3
      (fork_idle 1 []\<lparr>pfds := [3 \<mapsto> Listening, 4 \<mapsto> Conn 0], ppc := P_Close 4,
        procs := [0 \<mapsto> \<lparr>cpc = C_Forked, cconn = 4, cfds = [3 \<mapsto> Listening, 4 \<mapsto> Conn 0]\<rparr>]\<rparr>)"
    by (rule run_parent [where fd = 4]) (simp_all add: fork_idle_def parent_step_def)
  then show ?thesis
    by (rule run_parent [where fd = 4]) (auto simp: fork_idle_def parent_step_def)
qed

lemma reach_zombie:
  "fork_reach [''echo2'', ''80''] 3 (fork_idle 1 [(0, Some (Conn 0))]\<lparr>sigchld := True,
     procs := [0 \<mapsto> \<lparr>cpc = C_Zombie, cconn = 4, cfds = Map.empty\<rparr>]\<rparr>)"
proof -
  let ?s = "\<lambda>p t log. fork_idle 1 log\<lparr>procs := [0 \<mapsto> \<lparr>cpc = p, cconn = 4, cfds = t\<rparr>]\<rparr>"
  note steps = fork_idle_def child_step_def child_close_def exit_child_def
  have "fork_reach [''echo2'', ''80''] 3 (?s C_Echo [4 \<mapsto> Conn 0] [])"
    by (rule run_child [OF reach_forked, of 0]) (auto simp: steps)
  then have "fork_reach [''echo2'', ''80''] 3 (?s C_Echoing [4 \<mapsto> Conn 0] [(0, Some (Conn 0))])"
    by (rule run_child [where c = 0]) (auto simp: steps)
  then have "fork_reach [''echo2'', ''80''] 3 (?s C_Close [4 \<mapsto> Conn 0] [(0, Some (Conn 0))])"
    by (rule run_child [where c = 0]) (auto simp: steps)
  then have "fork_reach [''echo2'', ''80''] 3 (?s C_Exit Map.empty [(0, Some (Conn 0))])"
    by (rule run_child [where c = 0]) (auto simp: steps)
  then show ?thesis
    by (rule run_child [where c = 0]) (auto simp: steps)
qed

lemma reach_reaped: "fork_reach [''echo2'', ''80''] 3 (fork_idle 1 [(0, Some (Conn 0))])"
proof -
  let ?s = "\<lambda>h t. fork_idle 1 [(0, Some (Conn 0))]\<lparr>handling := h, procs := t\<rparr>"
  let ?z = "\<lparr>cpc = C_Zombie, cconn = 4, cfds = Map.empty\<rparr>"
  have z: "\<not> zombie (?s True Map.empty) j" "zombie (?s True [0 \<mapsto> ?z]) 0" for j by (simp_all add: zombie_def)
  from fork_step.signal [of "fork_idle 1 [(0, Some (Conn 0))]\<lparr>sigchld := True, procs := [0 \<mapsto> ?z]\<rparr>" 3]
  have "fork_reach [''echo2'', ''80''] 3 (?s True [0 \<mapsto> ?z])"
    by (intro fork_reach.step [OF reach_zombie]) (simp add: fork_idle_def)
  then have "fork_reach [''echo2'', ''80''] 3 (?s True Map.empty)"
    by (rule fork_reach.step) (rule fork_step.handler [where c = 0], use z in \<open>simp_all add: sigchld_handler_def\<close>)
  then show ?thesis
    by (rule fork_reach.step) (rule fork_step.handler [where c = 0],
      use z in \<open>simp_all add: sigchld_handler_def fork_idle_def\<close>)
qed

theorem echo2_no_zombie_left_witness: "\<not> zombie (fork_idle 1 [(0, Some (Conn 0))]) 0"
  by (rule echo2_no_zombie_left [OF reach_reaped]) (simp_all add: fork_idle_def)

text \<open>In the run above the only connection has been served and its child is gone.\<close>

theorem echo2_isolation_witness:
  "\<exists>s. fork_reach [''echo2'', ''80''] 3 s \<and> nconns s = 1 \<and> procs s = Map.empty \<and> set (echoed s) = {(0, Some (Conn 0))} \<and>
     pfds s = [3 \<mapsto> Listening]"
proof -
  let ?s = "fork_idle 1 [(0, Some (Conn 0))]"
  have f: "ppc ?s = P_Accept" "procs ?s = Map.empty" "nprocs ?s = 1" by (simp_all add: fork_idle_def)
  have "nconns ?s = 1 \<and> set (echoed ?s) = {(0, Some (Conn 0))} \<and> pfds ?s = [3 \<mapsto> Listening]"
    using echo2_isolation [OF reach_reaped] unfolding f by auto
  with f(2) reach_reaped show ?thesis by blast
qed

theorem echo2_finishes_witness:
  "\<nexists>f. f 0 = fork_idle 1 [(0, Some (Conn 0))] \<and>
     (\<forall>n::nat. fork_step 3 (f n) (f (Suc n)) \<and> nconns (f (Suc n)) = nconns (f n))"
  using echo2_finishes [OF reach_reaped] by simp

end
