(* ===== verification/EchoThreads.thy ===== *)
theory EchoThreads
  imports Csapp
begin

text \<open>
  \<open>echo5.c\<close>: the echo server that starts a thread for every connection and hands it the descriptor
  in a cell of its own from \<open>Malloc\<close>. The heap maps an allocated address to its contents (\<open>None\<close>:
  never written), so that reading or freeing an address that is not allocated is a fault;
  \<open>connof\<close> maps an open connected descriptor to its connection. \<open>echo\<close> is not in the
  repository: it may return or end the process, and the model records what it is called on.
\<close>

section \<open>The program\<close>

datatype worker_pc =
    W_Start nat
  | W_Detach nat int
  | W_Free nat int
  | W_Echo int
  | W_Close int
  | W_Done

datatype loop_pc = T_Malloc | T_Accept nat | T_Create nat

datatype outcome = Running | BadMemory | CloseFailed | EchoExited

record thread_sys =
  lpc :: loop_pc
  heap :: "nat \<rightharpoonup> int option"
  connof :: "int \<rightharpoonup> nat"
  workers :: "nat \<rightharpoonup> worker_pc"
  nworkers :: nat
  naccepted :: nat
  detached :: "nat set"
  served :: "(nat \<times> nat option) list"
  outcome :: outcome

text \<open>One step of the loop in \<open>main\<close>: \<open>a\<close> is the address \<open>Malloc\<close> returns and \<open>fd\<close> the descriptor
  \<open>Accept\<close> returns; neither is in use.\<close>

definition echo5_loop :: "int \<Rightarrow> nat \<Rightarrow> int \<Rightarrow> thread_sys \<Rightarrow> thread_sys option" where
  "echo5_loop listenfd a fd s =
     (case lpc s of
        T_Malloc \<Rightarrow>
          (if heap s a = None then Some (s\<lparr>heap := (heap s)(a \<mapsto> None), lpc := T_Accept a\<rparr>) else None)
      | T_Accept connfdp \<Rightarrow>
          (if 0 \<le> fd \<and> fd \<noteq> listenfd \<and> connof s fd = None then
             Some (if heap s connfdp = None then s\<lparr>outcome := BadMemory\<rparr>
                   else s\<lparr>heap := (heap s)(connfdp \<mapsto> Some fd), connof := (connof s)(fd \<mapsto> naccepted s),
                     naccepted := Suc (naccepted s), lpc := T_Create connfdp\<rparr>)
           else None)
      | T_Create connfdp \<Rightarrow>
          Some (s\<lparr>workers := (workers s)(nworkers s \<mapsto> W_Start connfdp), nworkers := Suc (nworkers s),
            lpc := T_Malloc\<rparr>))"

text \<open>One step of the routine \<open>thread\<close> in worker \<open>k\<close>; \<open>ok\<close> says whether \<open>echo\<close> returns.\<close>

definition set_worker :: "nat \<Rightarrow> worker_pc \<Rightarrow> thread_sys \<Rightarrow> thread_sys" where
  "set_worker k w s = s\<lparr>workers := (workers s)(k \<mapsto> w)\<rparr>"

fun thread :: "nat \<Rightarrow> bool \<Rightarrow> worker_pc \<Rightarrow> thread_sys \<Rightarrow> thread_sys option" where
  "thread k ok (W_Start vargp) s =
     Some (case heap s vargp of
             Some (Some connfd) \<Rightarrow> set_worker k (W_Detach vargp connfd) s
           | _ \<Rightarrow> s\<lparr>outcome := BadMemory\<rparr>)"
| "thread k ok (W_Detach vargp connfd) s =
     Some (set_worker k (W_Free vargp connfd) (s\<lparr>detached := insert k (detached s)\<rparr>))"
| "thread k ok (W_Free vargp connfd) s =
     Some (if heap s vargp = None then s\<lparr>outcome := BadMemory\<rparr>
           else set_worker k (W_Echo connfd) (s\<lparr>heap := (heap s)(vargp := None)\<rparr>))"
| "thread k ok (W_Echo connfd) s =
     Some (let s = s\<lparr>served := served s @ [(k, connof s connfd)]\<rparr>
           in if ok then set_worker k (W_Close connfd) s else s\<lparr>outcome := EchoExited\<rparr>)"
| "thread k ok (W_Close connfd) s =
     Some (if connof s connfd = None then s\<lparr>outcome := CloseFailed\<rparr>
           else set_worker k W_Done (s\<lparr>connof := (connof s)(connfd := None)\<rparr>))"
| "thread k ok W_Done s = None"

definition echo5_start :: "string list \<Rightarrow> thread_sys run" where
  "echo5_start argv =
     (if length argv \<noteq> 2 then Exits [Stderr (''usage: '' @ hd argv @ '' <port>'' @ [LF])] (ExitStatus 0)
      else Ret [] \<lparr>lpc = T_Malloc, heap = Map.empty, connof = Map.empty, workers = Map.empty,
        nworkers = 0, naccepted = 0, detached = {}, served = [], outcome = Running\<rparr>)"

inductive thread_step :: "int \<Rightarrow> thread_sys \<Rightarrow> thread_sys \<Rightarrow> bool" for listenfd :: int where
  main: "outcome s = Running \<Longrightarrow> echo5_loop listenfd a fd s = Some s' \<Longrightarrow> thread_step listenfd s s'"
| worker: "outcome s = Running \<Longrightarrow> workers s k = Some w \<Longrightarrow> thread k ok w s = Some s' \<Longrightarrow>
    thread_step listenfd s s'"

inductive thread_reach :: "string list \<Rightarrow> int \<Rightarrow> thread_sys \<Rightarrow> bool" for argv :: "string list" and listenfd :: int where
  init: "echo5_start argv = Ret es s \<Longrightarrow> thread_reach argv listenfd s"
| step: "thread_reach argv listenfd s \<Longrightarrow> thread_step listenfd s s' \<Longrightarrow> thread_reach argv listenfd s'"

section \<open>Who owns what\<close>

text \<open>
  What the handling of one connection owns: nothing, a cell without contents, a cell with the
  descriptor in it, or the descriptor alone. Handling \<open>k\<close> is in the hands of \<open>main\<close> while
  \<open>k = nworkers\<close> and of worker \<open>k\<close> afterwards.
\<close>

datatype item = INone | ICell nat | IBoth nat int | IFd int

fun iaddr :: "item \<Rightarrow> nat option" where
  "iaddr (ICell a) = Some a"
| "iaddr (IBoth a fd) = Some a"
| "iaddr _ = None"

fun ifd :: "item \<Rightarrow> int option" where
  "ifd (IBoth a fd) = Some fd"
| "ifd (IFd fd) = Some fd"
| "ifd _ = None"

definition owns :: "(nat \<rightharpoonup> nat) \<Rightarrow> (nat \<rightharpoonup> int option) \<Rightarrow> (int \<rightharpoonup> nat) \<Rightarrow> (nat \<Rightarrow> item) \<Rightarrow> bool" where
  "owns g h c f \<longleftrightarrow> (\<forall>a k. iaddr (f k) = Some a \<longleftrightarrow> g a = Some k) \<and>
     (\<forall>a. h a = map_option (\<lambda>k. ifd (f k)) (g a)) \<and>
     (\<forall>fd k. ifd (f k) = Some fd \<longleftrightarrow> c fd = Some k)"

lemma owns_malloc:
  assumes "owns g h c f" "h a = None" "f k = INone"
  shows "owns (g(a \<mapsto> k)) (h(a \<mapsto> None)) c (f(k := ICell a))"
proof -
  have "g b \<noteq> Some k" "g a = None" "c fd \<noteq> Some k" for b fd
    using assms unfolding owns_def by (metis iaddr.simps(3) option.distinct(1), simp, metis ifd.simps(3) option.distinct(1))
  with assms(1) show ?thesis unfolding owns_def
    by (auto split: if_splits option.splits simp: map_option_case)
qed

lemma owns_addr: "owns g h c f \<Longrightarrow> iaddr (f k) = Some a \<Longrightarrow> g a = Some k \<and> (b \<noteq> a \<longrightarrow> g b \<noteq> Some k)"
  unfolding owns_def by (metis option.inject)

lemma owns_fd: "owns g h c f \<Longrightarrow> ifd (f k) = Some fd \<Longrightarrow> c fd = Some k \<and> (e \<noteq> fd \<longrightarrow> c e \<noteq> Some k)"
  unfolding owns_def by (metis option.inject)

lemma owns_no_addr: "owns g h c f \<Longrightarrow> iaddr (f k) = None \<Longrightarrow> g b \<noteq> Some k"
  unfolding owns_def by (metis option.distinct(1))

lemma owns_no_fd: "owns g h c f \<Longrightarrow> ifd (f k) = None \<Longrightarrow> c e \<noteq> Some k"
  unfolding owns_def by (metis option.distinct(1))

lemma owns_accept:
  assumes "owns g h c f" "c fd = None" "f k = ICell a"
  shows "owns g (h(a \<mapsto> Some fd)) (c(fd \<mapsto> k)) (f(k := IBoth a fd))"
proof -
  have eq: "b = a" if "g b = Some k" for b using owns_addr [OF assms(1), of k a] assms(3) that by auto
  show ?thesis
    using assms(1,2) owns_addr [OF assms(1), of k a] owns_no_fd [OF assms(1), of k] assms(3)
    unfolding owns_def by (auto split: if_splits option.splits simp: map_option_case dest: eq)
qed

lemma owns_free:
  assumes "owns g h c f" "f k = IBoth a fd"
  shows "owns (g(a := None)) (h(a := None)) c (f(k := IFd fd))"
proof -
  have eq: "e = fd" if "c e = Some k" for e using owns_fd [OF assms(1), of k fd] assms(2) that by auto
  show ?thesis
    using assms(1) owns_addr [OF assms(1), of k a] owns_fd [OF assms(1), of k fd] assms(2)
    unfolding owns_def by (auto split: if_splits option.splits simp: map_option_case dest: eq)
qed

lemma owns_close:
  assumes "owns g h c f" "f k = IFd fd"
  shows "owns g h (c(fd := None)) (f(k := INone))"
  using assms(1) owns_no_addr [OF assms(1), of k] owns_fd [OF assms(1), of k fd] assms(2)
  unfolding owns_def by (auto split: if_splits option.splits simp: map_option_case)

section \<open>The invariant\<close>

fun worker_item :: "worker_pc option \<Rightarrow> item \<Rightarrow> bool" where
  "worker_item (Some (W_Start a)) x = (\<exists>fd. x = IBoth a fd)"
| "worker_item (Some (W_Detach a fd)) x = (x = IBoth a fd)"
| "worker_item (Some (W_Free a fd)) x = (x = IBoth a fd)"
| "worker_item (Some (W_Echo fd)) x = (x = IFd fd)"
| "worker_item (Some (W_Close fd)) x = (x = IFd fd)"
| "worker_item (Some W_Done) x = (x = INone)"
| "worker_item None x = False"

fun loop_item :: "loop_pc \<Rightarrow> item \<Rightarrow> bool" where
  "loop_item T_Malloc x = (x = INone)"
| "loop_item (T_Accept a) x = (x = ICell a)"
| "loop_item (T_Create a) x = (\<exists>fd. x = IBoth a fd)"

fun undetached :: "worker_pc \<Rightarrow> bool" where
  "undetached (W_Start a) = True"
| "undetached (W_Detach a fd) = True"
| "undetached _ = False"

fun unserved :: "worker_pc \<Rightarrow> bool" where
  "unserved (W_Close fd) = False"
| "unserved W_Done = False"
| "unserved _ = True"

definition worker_now :: "thread_sys \<Rightarrow> nat \<Rightarrow> worker_pc" where
  "worker_now s k = (case workers s k of None \<Rightarrow> W_Done | Some w \<Rightarrow> w)"

definition items_ok :: "thread_sys \<Rightarrow> (nat \<rightharpoonup> nat) \<Rightarrow> (nat \<Rightarrow> item) \<Rightarrow> bool" where
  "items_ok s g f \<longleftrightarrow> owns g (heap s) (connof s) f \<and> loop_item (lpc s) (f (nworkers s)) \<and>
     (\<forall>k < nworkers s. worker_item (workers s k) (f k)) \<and> (\<forall>k > nworkers s. f k = INone)"

text \<open>The log, while the process runs.\<close>

definition log_ok :: "thread_sys \<Rightarrow> bool" where
  "log_ok s \<longleftrightarrow> distinct (map fst (served s)) \<and>
     (\<forall>(k, c) \<in> set (served s). c = Some k \<and> k < nworkers s) \<and>
     (outcome s = Running \<longrightarrow> fst ` set (served s) = {k. k < nworkers s \<and> \<not> unserved (worker_now s k)})"

definition thread_inv :: "thread_sys \<Rightarrow> bool" where
  "thread_inv s \<longleftrightarrow> (outcome s = Running \<longrightarrow> (\<exists>g f. items_ok s g f)) \<and>
     outcome s \<in> {Running, EchoExited} \<and> dom (workers s) = {..<nworkers s} \<and>
     naccepted s = nworkers s + (case lpc s of T_Create a \<Rightarrow> 1 | _ \<Rightarrow> 0) \<and>
     detached s = {k. k < nworkers s \<and> \<not> undetached (worker_now s k)} \<and> log_ok s"

lemma inv_loop:
  assumes "thread_inv s" "outcome s = Running" "echo5_loop l a fd s = Some s'"
  shows "thread_inv s'"
proof -
  obtain g f where items: "items_ok s g f" using assms(1,2) by (auto simp: thread_inv_def)
  then have ow: "owns g (heap s) (connof s) f" by (simp add: items_ok_def)
  let ?n = "nworkers s"
  show ?thesis
  proof (cases "lpc s")
    case T_Malloc
    then have s': "s' = s\<lparr>heap := (heap s)(a \<mapsto> None), lpc := T_Accept a\<rparr>" and free: "heap s a = None"
      using assms(3) by (auto simp: echo5_loop_def split: if_splits)
    have "f ?n = INone" using items T_Malloc by (simp add: items_ok_def)
    from owns_malloc [OF ow free this] have "items_ok s' (g(a \<mapsto> ?n)) (f(?n := ICell a))"
      using items by (simp add: items_ok_def s')
    then show ?thesis using assms(1) T_Malloc by (auto simp: thread_inv_def s' log_ok_def worker_now_def)
  next
    case (T_Accept b)
    have fn: "f ?n = ICell b" using items T_Accept by (simp add: items_ok_def)
    then have "heap s b \<noteq> None" using owns_addr [OF ow, of ?n b] ow by (simp add: owns_def)
    then have s': "s' = s\<lparr>heap := (heap s)(b \<mapsto> Some fd), connof := (connof s)(fd \<mapsto> naccepted s),
        naccepted := Suc (naccepted s), lpc := T_Create b\<rparr>" and "connof s fd = None"
      using assms(3) T_Accept by (auto simp: echo5_loop_def split: if_splits)
    from owns_accept [OF ow this(2) fn] have "items_ok s' g (f(?n := IBoth b fd))"
      using items assms(1) T_Accept by (simp add: items_ok_def s' thread_inv_def)
    then show ?thesis using assms(1) T_Accept by (auto simp: thread_inv_def s' log_ok_def worker_now_def)
  next
    case (T_Create b)
    then have s': "s' = s\<lparr>workers := (workers s)(?n \<mapsto> W_Start b), nworkers := Suc ?n, lpc := T_Malloc\<rparr>"
      using assms(3) by (simp add: echo5_loop_def)
    have it: "items_ok s' g f" using items T_Create by (auto simp: items_ok_def s' less_Suc_eq)
    have now: "worker_now s' k = (if k = ?n then W_Start b else worker_now s k)" for k
      by (simp add: s' worker_now_def)
    have eqs: "k < nworkers s' \<and> \<not> undetached (worker_now s' k) \<longleftrightarrow> k < ?n \<and> \<not> undetached (worker_now s k)"
      "k < nworkers s' \<and> \<not> unserved (worker_now s' k) \<longleftrightarrow> k < ?n \<and> \<not> unserved (worker_now s k)" for k
      by (auto simp: now) (simp_all add: s')
    have frame: "served s' = served s" "outcome s' = outcome s" "detached s' = detached s" "naccepted s' = naccepted s"
      "nworkers s' = Suc ?n" "dom (workers s') = insert ?n (dom (workers s))" "lpc s' = T_Malloc"
      by (simp_all add: s')
    have "log_ok s" using assms(1) by (simp add: thread_inv_def)
    then have "log_ok s'" unfolding log_ok_def eqs unfolding frame by (auto intro: less_SucI)
    then show ?thesis using assms(1,2) T_Create it unfolding thread_inv_def eqs unfolding frame
      by (auto simp: lessThan_Suc)
  qed
qed

text \<open>What a worker's step keeps, given what it does to the items.\<close>

lemma inv_set_worker:
  assumes "thread_inv s" "outcome s = Running" "workers s k = Some w"
    and "outcome s' = Running" "lpc s' = lpc s" "nworkers s' = nworkers s" "naccepted s' = naccepted s"
    and "workers s' = (workers s)(k \<mapsto> w')"
    and "items_ok s g f" "owns g' (heap s') (connof s') (f(k := x))" "worker_item (Some w') x"
    and "detached s' = (if undetached w \<and> \<not> undetached w' then insert k (detached s) else detached s)"
    and "undetached w' \<longrightarrow> undetached w" "unserved w' \<longrightarrow> unserved w"
    and "served s' = served s @ (if unserved w \<and> \<not> unserved w' then [(k, Some k)] else [])"
  shows "thread_inv s'"
proof -
  have kn: "k < nworkers s" using assms(1,3) by (auto simp: thread_inv_def dom_def set_eq_iff)
  have now: "worker_now s' j = (if j = k then w' else worker_now s j)" for j
    using assms(8) by (simp add: worker_now_def)
  have nk: "worker_now s k = w" using assms(3) by (simp add: worker_now_def)
  have it: "items_ok s' g' (f(k := x))"
    using assms(5-11) kn unfolding items_ok_def by auto
  have det: "detached s' = {j. j < nworkers s' \<and> \<not> undetached (worker_now s' j)}"
    using assms(1,6,12,13) kn nk unfolding now by (auto simp: thread_inv_def)
  have log0: "distinct (map fst (served s))" "\<forall>(k, c) \<in> set (served s). c = Some k \<and> k < nworkers s"
    "fst ` set (served s) = {k. k < nworkers s \<and> \<not> unserved (worker_now s k)}"
    using assms(1,2) by (auto simp: thread_inv_def log_ok_def)
  have "fst ` set (served s') = {j. j < nworkers s' \<and> \<not> unserved (worker_now s' j)}"
    using log0(3) assms(6,14,15) kn nk unfolding now by auto
  moreover have "distinct (map fst (served s'))"
    using log0(1,3) assms(15) nk by auto
  moreover have "\<forall>(k, c) \<in> set (served s'). c = Some k \<and> k < nworkers s'"
    using log0(2) assms(6,15) kn by (auto split: if_splits)
  ultimately have "log_ok s'" by (simp add: log_ok_def)
  then show ?thesis using it det assms(1,3-8) kn unfolding thread_inv_def by (auto simp: insert_absorb)
qed

lemma inv_worker:
  assumes "thread_inv s" "outcome s = Running" "workers s k = Some w" "thread k ok w s = Some s'"
  shows "thread_inv s'"
proof -
  obtain g f where items: "items_ok s g f" using assms(1,2) by (auto simp: thread_inv_def)
  then have ow: "owns g (heap s) (connof s) f" by (simp add: items_ok_def)
  have kn: "k < nworkers s" using assms(1,3) by (auto simp: thread_inv_def dom_def set_eq_iff)
  then have it: "worker_item (Some w) (f k)" using items assms(3) by (auto simp: items_ok_def)
  note put = inv_set_worker [OF assms(1,2,3) _ _ _ _ _ items]
  show ?thesis
  proof (cases w)
    case (W_Start a)
    then obtain fd where fk: "f k = IBoth a fd" using it by auto
    then have "heap s a = Some (Some fd)" using owns_addr [OF ow, of k a] ow by (simp add: owns_def)
    with assms(4) W_Start have s': "s' = set_worker k (W_Detach a fd) s" by simp
    have "owns g (heap s) (connof s) (f(k := IBoth a fd))" using ow fk by (simp add: fun_upd_idem)
    then show ?thesis using assms(2) W_Start
      by (intro put [where w' = "W_Detach a fd" and x = "IBoth a fd" and g' = g]) (simp_all add: s' set_worker_def)
  next
    case (W_Detach a fd)
    then have s': "s' = set_worker k (W_Free a fd) (s\<lparr>detached := insert k (detached s)\<rparr>)" using assms(4) by simp
    have "owns g (heap s) (connof s) (f(k := IBoth a fd))" using ow it W_Detach by (simp add: fun_upd_idem)
    then show ?thesis using assms(2) W_Detach
      by (intro put [where w' = "W_Free a fd" and x = "IBoth a fd" and g' = g]) (simp_all add: s' set_worker_def)
  next
    case (W_Free a fd)
    then have fk: "f k = IBoth a fd" using it by simp
    then have "heap s a \<noteq> None" using owns_addr [OF ow, of k a] ow by (simp add: owns_def)
    with assms(4) W_Free have s': "s' = set_worker k (W_Echo fd) (s\<lparr>heap := (heap s)(a := None)\<rparr>)" by simp
    show ?thesis using assms(2) W_Free owns_free [OF ow fk]
      by (intro put [where w' = "W_Echo fd" and x = "IFd fd" and g' = "g(a := None)"]) (simp_all add: s' set_worker_def)
  next
    case (W_Echo fd)
    then have fk: "f k = IFd fd" using it by simp
    then have c: "connof s fd = Some k" using owns_fd [OF ow, of k fd] by simp
    show ?thesis
    proof (cases ok)
      case True
      with assms(4) W_Echo c have s': "s' = set_worker k (W_Close fd) (s\<lparr>served := served s @ [(k, Some k)]\<rparr>)"
        by simp
      have "owns g (heap s) (connof s) (f(k := IFd fd))" using ow fk by (simp add: fun_upd_idem)
      then show ?thesis using assms(2) W_Echo
        by (intro put [where w' = "W_Close fd" and x = "IFd fd" and g' = g]) (simp_all add: s' set_worker_def)
    next
      case False
      with assms(4) W_Echo c have s': "s' = s\<lparr>served := served s @ [(k, Some k)], outcome := EchoExited\<rparr>" by simp
      have "k \<notin> fst ` set (served s)"
        using assms(1-3) W_Echo by (auto simp: thread_inv_def log_ok_def worker_now_def)
      then show ?thesis using assms(1) kn by (auto simp: s' thread_inv_def log_ok_def worker_now_def)
    qed
  next
    case (W_Close fd)
    then have fk: "f k = IFd fd" using it by simp
    then have "connof s fd = Some k" using owns_fd [OF ow, of k fd] by simp
    with assms(4) W_Close have s': "s' = set_worker k W_Done (s\<lparr>connof := (connof s)(fd := None)\<rparr>)" by simp
    show ?thesis using assms(2) W_Close owns_close [OF ow fk]
      by (intro put [where w' = W_Done and x = INone and g' = g]) (simp_all add: s' set_worker_def)
  next
    case W_Done
    then show ?thesis using assms(4) by simp
  qed
qed

lemma thread_reach_inv: "thread_reach argv l s \<Longrightarrow> thread_inv s"
proof (induction rule: thread_reach.induct)
  case (init es s)
  then have "items_ok s Map.empty (\<lambda>_. INone) \<and> workers s = Map.empty \<and> nworkers s = 0"
    by (auto simp: echo5_start_def items_ok_def owns_def split: if_splits)
  with init show ?case
    by (auto simp: echo5_start_def thread_inv_def log_ok_def split: if_splits)
next
  case (step s s')
  from step(2,3) show ?case
    by (induction rule: thread_step.induct) (blast intro: inv_loop inv_worker)+
qed

section \<open>Properties\<close>

text \<open>C11: the cell that carries the descriptor makes the hand-over safe: no thread reads or frees memory
  that is not allocated, no close fails, and worker \<open>k\<close> calls \<open>echo\<close> on connection \<open>k\<close>, once, in
  every interleaving.\<close>

theorem echo5_safe:
  assumes "thread_reach argv listenfd s"
  shows "outcome s \<in> {Running, EchoExited} \<and> distinct (map fst (served s)) \<and>
    (\<forall>(k, c) \<in> set (served s). c = Some k)"
  using thread_reach_inv [OF assms] by (auto simp: thread_inv_def log_ok_def)

text \<open>Nothing is leaked: when \<open>main\<close> is about to accept the next connection and all workers have
  returned, every cell has been freed, every connected descriptor closed, every thread detached (so
  the system reclaims it) and every connection served.\<close>

theorem echo5_no_leak:
  assumes "thread_reach argv listenfd s" and "outcome s = Running" and "lpc s = T_Malloc"
    and "\<And>k w. workers s k = Some w \<Longrightarrow> w = W_Done"
  shows "heap s = Map.empty \<and> connof s = Map.empty \<and> detached s = {..<naccepted s} \<and>
    fst ` set (served s) = {..<naccepted s}"
proof -
  note inv = thread_reach_inv [OF assms(1)]
  then obtain g f where items: "items_ok s g f" using assms(2) by (auto simp: thread_inv_def)
  then have ow: "owns g (heap s) (connof s) f" by (simp add: items_ok_def)
  have none: "f k = INone" for k
  proof (cases "k < nworkers s")
    case True
    then obtain w where "workers s k = Some w" using inv by (auto simp: thread_inv_def dom_def set_eq_iff)
    then show ?thesis using items True assms(4) [of k w] by (auto simp: items_ok_def)
  next
    case False
    then show ?thesis using items assms(3) by (cases "k = nworkers s") (auto simp: items_ok_def)
  qed
  have "g a = None" for a using owns_no_addr [OF ow, of _ a] none by (cases "g a") auto
  then have "heap s a = None" for a using ow by (simp add: owns_def)
  moreover have "connof s fd = None" for fd using owns_no_fd [OF ow, of _ fd] none by (cases "connof s fd") auto
  moreover have "worker_now s k = W_Done" for k
    using assms(4) [of k] by (auto simp: worker_now_def split: option.splits)
  ultimately show ?thesis using inv assms(2,3) by (auto simp: thread_inv_def log_ok_def)
qed

section \<open>A run\<close>

text \<open>One connection, from \<open>Malloc\<close> to the return of its thread.\<close>

definition one_worker :: "worker_pc \<Rightarrow> thread_sys" where
  "one_worker w = \<lparr>lpc = T_Malloc, heap = Map.empty, connof = Map.empty, workers = [0 \<mapsto> w],
     nworkers = 1, naccepted = 1, detached = {}, served = [], outcome = Running\<rparr>"

lemma run_loop: "thread_reach v l s \<Longrightarrow> outcome s = Running \<Longrightarrow> echo5_loop l a fd s = Some s' \<Longrightarrow> thread_reach v l s'"
  by (blast intro: thread_reach.step thread_step.main)

lemma run_worker:
  "thread_reach v l s \<Longrightarrow> outcome s = Running \<Longrightarrow> thread k True w s = Some s' \<Longrightarrow> workers s k = Some w \<Longrightarrow>
   thread_reach v l s'"
  by (blast intro: thread_reach.step thread_step.worker)

lemma reach_started:
  "thread_reach [''echo5'', ''80''] 3 (one_worker (W_Start 7)\<lparr>heap := [7 \<mapsto> Some 4], connof := [4 \<mapsto> 0]\<rparr>)"
proof -
  note steps = one_worker_def echo5_loop_def set_worker_def
  have "thread_reach [''echo5'', ''80''] 3 (one_worker W_Done\<lparr>workers := Map.empty, nworkers := 0, naccepted := 0\<rparr>)"
    by (rule thread_reach.init) (simp add: echo5_start_def steps)
  then have "thread_reach [''echo5'', ''80''] 3 (one_worker W_Done\<lparr>workers := Map.empty, nworkers := 0, naccepted := 0,
      heap := [7 \<mapsto> None], lpc := T_Accept 7\<rparr>)"
    by (rule run_loop [where a = 7]) (simp_all add: steps)
  then have "thread_reach [''echo5'', ''80''] 3 (one_worker W_Done\<lparr>workers := Map.empty, nworkers := 0,
      heap := [7 \<mapsto> Some 4], connof := [4 \<mapsto> 0], lpc := T_Create 7\<rparr>)"
    by (rule run_loop [where fd = 4]) (simp_all add: steps)
  then show ?thesis by (rule run_loop) (simp_all add: steps)
qed

lemma reach_done:
  "thread_reach [''echo5'', ''80''] 3 (one_worker W_Done\<lparr>detached := {0}, served := [(0, Some 0)]\<rparr>)"
proof -
  note steps = one_worker_def echo5_loop_def set_worker_def
  from reach_started have "thread_reach [''echo5'', ''80''] 3 (one_worker (W_Detach 7 4)\<lparr>heap := [7 \<mapsto> Some 4], connof := [4 \<mapsto> 0]\<rparr>)"
    by (rule run_worker [where k = 0]) (simp_all add: steps)
  then have "thread_reach [''echo5'', ''80''] 3 (one_worker (W_Free 7 4)\<lparr>heap := [7 \<mapsto> Some 4], connof := [4 \<mapsto> 0],
      detached := {0}\<rparr>)"
    by (rule run_worker [where k = 0]) (simp_all add: steps)
  then have "thread_reach [''echo5'', ''80''] 3 (one_worker (W_Echo 4)\<lparr>connof := [4 \<mapsto> 0], detached := {0}\<rparr>)"
    by (rule run_worker [where k = 0]) (simp_all add: steps)
  then have "thread_reach [''echo5'', ''80''] 3 (one_worker (W_Close 4)\<lparr>connof := [4 \<mapsto> 0], detached := {0},
      served := [(0, Some 0)]\<rparr>)"
    by (rule run_worker [where k = 0]) (simp_all add: steps)
  then show ?thesis
    by (rule run_worker [where k = 0]) (simp_all add: steps)
qed

theorem echo5_safe_witness:
  "outcome (one_worker W_Done\<lparr>detached := {0}, served := [(0, Some 0)]\<rparr>) \<in> {Running, EchoExited}"
  using echo5_safe [OF reach_done] by blast

theorem echo5_no_leak_witness:
  "heap (one_worker W_Done\<lparr>detached := {0}, served := [(0, Some 0)]\<rparr>) = Map.empty"
  using echo5_no_leak [OF reach_done] by (simp add: one_worker_def split: if_splits)

end
