(* ===== verification/EchoThreadsLive.thy ===== *)
theory EchoThreadsLive
  imports EchoThreads Systems
begin

text \<open>
  The thread-per-connection server comes to rest: while nobody connects and \<open>echo\<close> returns, every run
  ends, with \<open>main\<close> waiting in \<open>Accept\<close> and everything the finished threads used given back.
\<close>

definition thread_quiet :: "int \<Rightarrow> thread_sys \<Rightarrow> thread_sys \<Rightarrow> bool" where
  "thread_quiet listenfd s s' \<longleftrightarrow> thread_step listenfd s s' \<and> naccepted s' = naccepted s \<and> outcome s' = Running"

fun worker_work :: "worker_pc \<Rightarrow> nat" where
  "worker_work (W_Start a) = 5"
| "worker_work (W_Detach a fd) = 4"
| "worker_work (W_Free a fd) = 3"
| "worker_work (W_Echo fd) = 2"
| "worker_work (W_Close fd) = 1"
| "worker_work W_Done = 0"

fun loop_work :: "loop_pc \<Rightarrow> nat" where
  "loop_work (T_Create a) = 7"
| "loop_work T_Malloc = 1"
| "loop_work (T_Accept a) = 0"

definition threads_work :: "thread_sys \<Rightarrow> nat" where
  "threads_work s = loop_work (lpc s) + (\<Sum>k < nworkers s. worker_work (worker_now s k))"

definition running_inv :: "thread_sys \<Rightarrow> bool" where
  "running_inv s \<longleftrightarrow> thread_inv s \<and> outcome s = Running"

lemma running_step: "running_inv s \<Longrightarrow> thread_quiet l s s' \<Longrightarrow> running_inv s'"
  unfolding running_inv_def thread_quiet_def
  by (auto elim!: thread_step.cases intro: inv_loop inv_worker)

lemma thread_work_step:
  assumes "thread k ok w s = Some s'" "outcome s' = Running" "workers s k = Some w" "k < nworkers s"
  shows "threads_work s' < threads_work s"
proof -
  have "\<exists>w'. workers s' = (workers s)(k \<mapsto> w') \<and> worker_work w' < worker_work w \<and> lpc s' = lpc s \<and> nworkers s' = nworkers s"
    using assms(1,2) by (cases w) (auto simp: set_worker_def Let_def split: option.splits if_splits)
  then obtain w' where s': "workers s' = (workers s)(k \<mapsto> w')" "worker_work w' < worker_work w" "lpc s' = lpc s" "nworkers s' = nworkers s"
    by blast
  have now: "worker_now s' j = (if j = k then w' else worker_now s j)" for j using s'(1) by (simp add: worker_now_def)
  have w: "worker_now s k = w" using assms(3) by (simp add: worker_now_def)
  have "(\<Sum>j < nworkers s. worker_work (worker_now s' j)) < (\<Sum>j < nworkers s. worker_work (worker_now s j))"
    by (rule sum_strict_mono_ex1) (use assms(4) s'(2) w in \<open>auto simp: now intro!: bexI [of _ k]\<close>)
  then show ?thesis using s'(3,4) by (simp add: threads_work_def)
qed

lemma loop_step_work:
  assumes "echo5_loop l a fd s = Some s'" "outcome s' = Running" "naccepted s' = naccepted s" "dom (workers s) = {..<nworkers s}"
  shows "threads_work s' < threads_work s"
proof (cases "lpc s")
  case T_Malloc
  then show ?thesis using assms(1) by (auto simp: echo5_loop_def threads_work_def worker_now_def split: if_splits)
next
  case (T_Accept b)
  then show ?thesis using assms(1-3) by (auto simp: echo5_loop_def split: if_splits)
next
  case (T_Create b)
  then have s': "s' = s\<lparr>workers := (workers s)(nworkers s \<mapsto> W_Start b), nworkers := Suc (nworkers s), lpc := T_Malloc\<rparr>"
    using assms(1) by (simp add: echo5_loop_def)
  have "(\<Sum>j < nworkers s. worker_work (worker_now s' j)) = (\<Sum>j < nworkers s. worker_work (worker_now s j))"
    by (rule sum.cong) (simp_all add: s' worker_now_def)
  moreover have "worker_now s' (nworkers s) = W_Start b" by (simp add: s' worker_now_def)
  ultimately show ?thesis using T_Create by (simp add: threads_work_def s' [THEN arg_cong [of _ _ nworkers]] s' [THEN arg_cong [of _ _ lpc]])
qed

lemma quiet_work: "running_inv s \<Longrightarrow> thread_quiet l s s' \<Longrightarrow> threads_work s' < threads_work s"
proof -
  assume i: "running_inv s" and q: "thread_quiet l s s'"
  then have d: "dom (workers s) = {..<nworkers s}" by (simp add: running_inv_def thread_inv_def)
  have n: "naccepted s' = naccepted s" "outcome s' = Running" using q by (simp_all add: thread_quiet_def)
  from q have "thread_step l s s'" by (simp add: thread_quiet_def)
  then show ?thesis
  proof (cases rule: thread_step.cases)
    case (main a fd)
    then show ?thesis using loop_step_work [OF main(2) n(2,1) d] by simp
  next
    case (worker k w ok)
    then have "k < nworkers s" using d by auto
    then show ?thesis using thread_work_step [OF worker(3) n(2) worker(2)] by simp
  qed
qed

interpretation threads: shrinking_system "thread_quiet l" running_inv threads_work for l
  by unfold_locales (use running_step quiet_work in blast)+

text \<open>Where no such step is left.\<close>

lemma owned_finite:
  assumes "owns g h c f" "\<forall>k > n. f k = INone"
  shows "\<exists>a. h a = None"
proof -
  have "a \<in> (\<lambda>k. the (iaddr (f k))) ` {..n}" if h: "h a \<noteq> None" for a
  proof -
    have "g a \<noteq> None" using assms(1) h by (simp add: owns_def)
    then obtain k where "g a = Some k" by blast
    then have k: "iaddr (f k) = Some a" using assms(1) by (simp add: owns_def)
    then have "k \<le> n" using assms(2) by (metis iaddr.simps(3) not_less option.distinct(1))
    with k show ?thesis by force
  qed
  then have "{a. h a \<noteq> None} \<subseteq> (\<lambda>k. the (iaddr (f k))) ` {..n}" by blast
  then have "finite {a. h a \<noteq> None}" by (rule finite_subset) simp
  then show ?thesis using ex_new_if_finite [of "{a. h a \<noteq> None}"] infinite_UNIV_nat by auto
qed

lemma quiet_stuck:
  assumes "running_inv s" "\<not> (\<exists>s'. thread_quiet l s s')"
  shows "\<exists>a. lpc s = T_Accept a" "workers s k = Some w \<Longrightarrow> w = W_Done"
proof -
  have run: "outcome s = Running" and inv: "thread_inv s" using assms(1) by (simp_all add: running_inv_def)
  obtain g f where items: "items_ok s g f" using inv run by (auto simp: thread_inv_def)
  then have ow: "owns g (heap s) (connof s) f" by (simp add: items_ok_def)
  have no: "\<not> (thread_step l s s' \<and> naccepted s' = naccepted s \<and> outcome s' = Running)" for s'
    using assms(2) by (auto simp: thread_quiet_def)
  show "\<exists>a. lpc s = T_Accept a"
  proof (cases "lpc s")
    case T_Malloc
    obtain a where "heap s a = None" using owned_finite [OF ow, of "nworkers s"] items by (auto simp: items_ok_def)
    then have "echo5_loop l a 0 s = Some (s\<lparr>heap := (heap s)(a \<mapsto> None), lpc := T_Accept a\<rparr>)"
      using T_Malloc by (simp add: echo5_loop_def)
    from thread_step.main [OF run this] no run show ?thesis by fastforce
  next
    case (T_Create a)
    then have "echo5_loop l 0 0 s = Some (s\<lparr>workers := (workers s)(nworkers s \<mapsto> W_Start a),
        nworkers := Suc (nworkers s), lpc := T_Malloc\<rparr>)" by (simp add: echo5_loop_def)
    from thread_step.main [OF run this] no run show ?thesis by fastforce
  qed simp
  show "w = W_Done" if w: "workers s k = Some w"
  proof (rule ccontr)
    assume "w \<noteq> W_Done"
    then obtain s' where s': "thread k True w s = Some s'" by (cases w) auto
    have "thread_inv s'" by (rule inv_worker [OF inv run w s'])
    moreover have "outcome s' \<noteq> EchoExited" "naccepted s' = naccepted s" using s' run
      by (cases w; auto simp: set_worker_def Let_def split: option.splits if_splits)+
    ultimately show False using no thread_step.worker [OF run w s'] by (auto simp: thread_inv_def)
  qed
qed

text \<open>All that is left is the cell \<open>main\<close> has allocated for the next connection.\<close>

lemma rest_clean:
  assumes "running_inv s" "lpc s = T_Accept a" "\<And>k w. workers s k = Some w \<Longrightarrow> w = W_Done"
  shows "heap s = [a \<mapsto> None] \<and> connof s = Map.empty \<and> detached s = {..<naccepted s} \<and>
    fst ` set (served s) = {..<naccepted s}"
proof -
  have run: "outcome s = Running" and inv: "thread_inv s" using assms(1) by (simp_all add: running_inv_def)
  obtain g f where items: "items_ok s g f" using inv run by (auto simp: thread_inv_def)
  then have ow: "owns g (heap s) (connof s) f" by (simp add: items_ok_def)
  have f: "f k = (if k = nworkers s then ICell a else INone)" for k
  proof (cases "k < nworkers s")
    case True
    then obtain w where "workers s k = Some w" using inv by (auto simp: thread_inv_def dom_def set_eq_iff)
    then show ?thesis using items True assms(3) [of k w] by (auto simp: items_ok_def)
  next
    case False
    then show ?thesis using items assms(2) by (cases "k = nworkers s") (auto simp: items_ok_def)
  qed
  have ga: "g b = Some k \<longleftrightarrow> b = a \<and> k = nworkers s" for b k
    using ow f unfolding owns_def by (metis iaddr.simps(1,3) option.distinct(1) option.inject)
  have "heap s b = (if b = a then Some None else None)" for b
    using ow ga [of b] f by (cases "g b") (auto simp: owns_def)
  then have "heap s = [a \<mapsto> None]" by (auto simp: fun_eq_iff)
  moreover have "ifd (f k) = None" for k using f by simp
  then have "connof s fd = None" for fd using owns_no_fd [OF ow, of _ fd] by (cases "connof s fd") auto
  moreover have "worker_now s k = W_Done" for k
    using assms(3) [of k] by (auto simp: worker_now_def split: option.splits)
  ultimately show ?thesis using inv run assms(2) by (auto simp: thread_inv_def log_ok_def)
qed

lemma quiet_accepted: "(thread_quiet l)\<^sup>*\<^sup>* s s' \<Longrightarrow> naccepted s' = naccepted s"
  by (induction rule: rtranclp_induct) (auto simp: thread_quiet_def)

section \<open>Property\<close>

definition thread_ends :: "int \<Rightarrow> thread_sys \<Rightarrow> thread_sys set" where
  "thread_ends listenfd s = {s'. (thread_quiet listenfd)\<^sup>*\<^sup>* s s' \<and> \<not> (\<exists>s''. thread_quiet listenfd s' s'')}"

text \<open>C28: the server with a thread per connection always finishes its work and gives everything back: from
  every reachable state, while nobody connects and \<open>echo\<close> returns, there is no infinite run, and wherever
  it comes to rest \<open>main\<close> waits in \<open>Accept\<close>, every connection has been served by a detached thread, all
  connected descriptors are closed, and the heap holds the one cell for the next connection.\<close>

theorem echo5_finishes:
  assumes "thread_reach argv listenfd s" and "outcome s = Running"
  shows "(\<nexists>f. f 0 = s \<and> (\<forall>k. thread_quiet listenfd (f k) (f (Suc k)))) \<and> thread_ends listenfd s \<noteq> {} \<and>
    thread_ends listenfd s \<subseteq> {s'. \<exists>a. lpc s' = T_Accept a \<and> heap s' = [a \<mapsto> None] \<and> connof s' = Map.empty \<and>
      detached s' = {..<naccepted s} \<and> fst ` set (served s') = {..<naccepted s}}"
proof -
  have i: "running_inv s" using thread_reach_inv [OF assms(1)] assms(2) by (simp add: running_inv_def)
  have "\<exists>a. lpc s' = T_Accept a \<and> heap s' = [a \<mapsto> None] \<and> connof s' = Map.empty \<and>
      detached s' = {..<naccepted s} \<and> fst ` set (served s') = {..<naccepted s}"
    if e: "s' \<in> thread_ends listenfd s" for s'
  proof -
    from e have r: "(thread_quiet listenfd)\<^sup>*\<^sup>* s s'" "\<not> (\<exists>s''. thread_quiet listenfd s' s'')"
      by (simp_all add: thread_ends_def)
    have i': "running_inv s'" by (rule threads.inv_steps [OF r(1) i])
    obtain a where "lpc s' = T_Accept a" using quiet_stuck(1) [OF i' r(2)] by blast
    with rest_clean [OF i' this quiet_stuck(2) [OF i' r(2)]] quiet_accepted [OF r(1)] show ?thesis by auto
  qed
  moreover have "thread_ends listenfd s \<noteq> {}" using threads.comes_to_rest [OF i] by (auto simp: thread_ends_def)
  moreover have "\<nexists>f. f 0 = s \<and> (\<forall>k. thread_quiet listenfd (f k) (f (Suc k)))" using threads.no_infinite_run i by blast
  ultimately show ?thesis by blast
qed

theorem echo5_finishes_witness:
  "thread_ends 3 (one_worker (W_Start 7)\<lparr>heap := [7 \<mapsto> Some 4], connof := [4 \<mapsto> 0]\<rparr>) \<subseteq>
     {s. connof s = Map.empty \<and> detached s = {0} \<and> fst ` set (served s) = {0}}"
proof -
  have "outcome (one_worker (W_Start 7)\<lparr>heap := [7 \<mapsto> Some 4], connof := [4 \<mapsto> 0]\<rparr>) = Running"
    "naccepted (one_worker (W_Start 7)\<lparr>heap := [7 \<mapsto> Some 4], connof := [4 \<mapsto> 0]\<rparr>) = 1"
    by (simp_all add: one_worker_def)
  moreover have "{..<1 :: nat} = {0}" by auto
  ultimately show ?thesis using echo5_finishes [OF reach_started] unfolding subset_iff mem_Collect_eq by metis
qed

end
