(* ===== verification/Sbuf.thy ===== *)
theory Sbuf
  imports Csapp
begin

text \<open>
  \<open>sbuf.h\<close>: the bounded buffer of descriptors. The repository declares its operations and the
  record \<open>sbuf_t\<close>, and holds no \<open>sbuf.c\<close>: the operations are parameters, and the locale
  \<open>bounded_queue\<close> states what the server relies on. \<open>sbuf_insert\<close> waits for a free slot and
  \<open>sbuf_remove\<close> for an item (\<open>None\<close>: the caller blocks); both are atomic, since they hold the
  buffer's mutex. The ring over \<open>sbuf_t\<close> below follows the comments of the header (\<open>buf[(front+1)%n]\<close>
  is the first item, \<open>buf[rear%n]\<close> the last) and shows that the contract can be met.
\<close>

section \<open>The contract\<close>

record 'b sbuf_api =
  sbuf_init :: "nat \<Rightarrow> 'b"
  sbuf_insert :: "'b \<Rightarrow> int \<Rightarrow> 'b option"
  sbuf_remove :: "'b \<Rightarrow> (int \<times> 'b) option"

locale bounded_queue =
  fixes sb :: "'b sbuf_api"
    and sb_ok :: "'b \<Rightarrow> bool"
    and contents :: "'b \<Rightarrow> int list"
    and capacity :: "'b \<Rightarrow> nat"
  assumes init_laws: "0 < n \<Longrightarrow> sb_ok (sbuf_init sb n) \<and> contents (sbuf_init sb n) = [] \<and>
      capacity (sbuf_init sb n) = n"
    and insert_blocks: "sb_ok b \<Longrightarrow> sbuf_insert sb b x = None \<longleftrightarrow> length (contents b) = capacity b"
    and insert_laws: "sb_ok b \<Longrightarrow> sbuf_insert sb b x = Some b' \<Longrightarrow>
      sb_ok b' \<and> contents b' = contents b @ [x] \<and> capacity b' = capacity b"
    and remove_blocks: "sb_ok b \<Longrightarrow> sbuf_remove sb b = None \<longleftrightarrow> contents b = []"
    and remove_laws: "sb_ok b \<Longrightarrow> sbuf_remove sb b = Some (x, b') \<Longrightarrow>
      sb_ok b' \<and> contents b = x # contents b' \<and> capacity b' = capacity b"

section \<open>A ring over sbuf_t\<close>

text \<open>\<open>slots\<close> and \<open>items\<close> are the values of the two counting semaphores; the mutex is free between
  operations.\<close>

record sbuf_t =
  sb_buf :: "int list"
  sb_n :: nat
  sb_front :: nat
  sb_rear :: nat
  sb_mutex :: nat
  sb_slots :: nat
  sb_items :: nat

definition ring_insert :: "sbuf_t \<Rightarrow> int \<Rightarrow> sbuf_t option" where
  "ring_insert sp item =
     (if sb_slots sp = 0 then None
      else Some (sp\<lparr>sb_rear := Suc (sb_rear sp),
        sb_buf := (sb_buf sp)[Suc (sb_rear sp) mod sb_n sp := item],
        sb_slots := sb_slots sp - 1, sb_items := Suc (sb_items sp)\<rparr>))"

definition ring_remove :: "sbuf_t \<Rightarrow> (int \<times> sbuf_t) option" where
  "ring_remove sp =
     (if sb_items sp = 0 then None
      else Some (sb_buf sp ! (Suc (sb_front sp) mod sb_n sp),
        sp\<lparr>sb_front := Suc (sb_front sp), sb_items := sb_items sp - 1, sb_slots := Suc (sb_slots sp)\<rparr>))"

definition ring :: "sbuf_t sbuf_api" where
  "ring = \<lparr>sbuf_init = (\<lambda>n. \<lparr>sb_buf = replicate n 0, sb_n = n, sb_front = 0, sb_rear = 0,
       sb_mutex = 1, sb_slots = n, sb_items = 0\<rparr>),
     sbuf_insert = ring_insert, sbuf_remove = ring_remove\<rparr>"

definition ring_ok :: "sbuf_t \<Rightarrow> bool" where
  "ring_ok sp \<longleftrightarrow> 0 < sb_n sp \<and> length (sb_buf sp) = sb_n sp \<and>
     sb_items sp + sb_slots sp = sb_n sp \<and> sb_rear sp = sb_front sp + sb_items sp \<and> sb_mutex sp = 1"

definition ring_contents :: "sbuf_t \<Rightarrow> int list" where
  "ring_contents sp =
     map (\<lambda>i. sb_buf sp ! (Suc (sb_front sp + i) mod sb_n sp)) [0..<sb_items sp]"

lemma mod_window: "i < k \<Longrightarrow> k < n \<Longrightarrow> (a + i) mod n \<noteq> (a + k) mod (n::nat)"
proof
  assume "i < k" "k < n" "(a + i) mod n = (a + k) mod n"
  then have "n dvd (a + k) - (a + i)" using mod_eq_dvd_iff_nat [of "a + i" "a + k" n] by simp
  with \<open>i < k\<close> \<open>k < n\<close> show False by (simp add: nat_dvd_not_less)
qed

lemma ring_insert_contents:
  assumes "ring_ok sp" "ring_insert sp x = Some sp'"
  shows "ring_ok sp' \<and> ring_contents sp' = ring_contents sp @ [x] \<and> sb_n sp' = sb_n sp"
proof -
  let ?n = "sb_n sp" and ?a = "Suc (sb_front sp)"
  have k: "sb_items sp < ?n" "0 < sb_slots sp" using assms by (auto simp: ring_ok_def ring_insert_def split: if_splits)
  have keep: "(sb_buf sp)[(?a + sb_items sp) mod ?n := x] ! ((?a + i) mod ?n) = sb_buf sp ! ((?a + i) mod ?n)"
    if "i < sb_items sp" for i
    using mod_window [OF that k(1), of ?a] by simp
  have "(sb_buf sp)[(?a + sb_items sp) mod ?n := x] ! ((?a + sb_items sp) mod ?n) = x"
    using assms(1) by (simp add: ring_ok_def)
  then have "ring_contents sp' = ring_contents sp @ [x]"
    using assms keep k by (auto simp: ring_ok_def ring_insert_def ring_contents_def split: if_splits)
  then show ?thesis using assms k by (auto simp: ring_ok_def ring_insert_def split: if_splits)
qed

lemma ring_remove_contents:
  assumes "ring_ok sp" "ring_remove sp = Some (x, sp')"
  shows "ring_ok sp' \<and> ring_contents sp = x # ring_contents sp' \<and> sb_n sp' = sb_n sp"
proof -
  obtain m where m: "sb_items sp = Suc m" using assms(2) by (cases "sb_items sp") (auto simp: ring_remove_def)
  have "ring_contents sp = sb_buf sp ! (Suc (sb_front sp) mod sb_n sp) #
      map (\<lambda>i. sb_buf sp ! (Suc (Suc (sb_front sp) + i) mod sb_n sp)) [0..<m]"
    unfolding ring_contents_def m by (simp add: upt_conv_Cons map_Suc_upt [symmetric] del: upt_Suc)
  with assms m show ?thesis by (auto simp: ring_ok_def ring_remove_def ring_contents_def)
qed

interpretation ring: bounded_queue ring ring_ok ring_contents sb_n
proof unfold_locales
  fix b x b'
  assume ok: "ring_ok b"
  show "sbuf_insert ring b x = None \<longleftrightarrow> length (ring_contents b) = sb_n b"
    using ok by (auto simp: ring_def ring_insert_def ring_contents_def ring_ok_def)
  show "sbuf_remove ring b = None \<longleftrightarrow> ring_contents b = []"
    by (auto simp: ring_def ring_remove_def ring_contents_def)
  { assume "sbuf_insert ring b x = Some b'"
    then show "ring_ok b' \<and> ring_contents b' = ring_contents b @ [x] \<and> sb_n b' = sb_n b"
      using ring_insert_contents [OF ok] by (simp add: ring_def) }
  { assume "sbuf_remove ring b = Some (x, b')"
    then show "ring_ok b' \<and> ring_contents b = x # ring_contents b' \<and> sb_n b' = sb_n b"
      using ring_remove_contents [OF ok] by (simp add: ring_def) }
qed (simp add: ring_def ring_ok_def ring_contents_def)

end
