(* ===== verification/EchoPrethread.thy ===== *)
theory EchoPrethread
  imports Sbuf
begin

text \<open>
  \<open>echo6_echoserverpre.c\<close> and \<open>echo6_echocnt.c\<close>: the prethreaded echo server. \<open>main\<close> puts every
  accepted descriptor into the shared buffer; \<open>NTHREADS\<close> workers take descriptors out and run
  \<open>echo_cnt\<close>, which echoes lines until end of file and counts the bytes of all connections in
  \<open>byte_cnt\<close>, under a semaphore that the first caller creates through \<open>Pthread_once\<close>. One step is
  one call or one access to shared memory; the steps of all threads interleave freely.
  The reader, the semaphore and the buffer are parameters with their contracts.
\<close>

section \<open>The program\<close>

definition NTHREADS :: nat where "NTHREADS = 4"
definition SBUFSIZE :: nat where "SBUFSIZE = 16"

text \<open>A worker: in \<open>thread\<close>, in \<open>Pthread_once\<close> and \<open>init_echo_cnt\<close>, and in the loop of \<open>echo_cnt\<close>
  with its descriptor, its reader and the line it has read.\<close>

datatype 'r echo_pc =
    K_Detach
  | K_Remove
  | K_Once int
  | K_SemInit int
  | K_CntInit int
  | K_Open int
  | K_Read int 'r
  | K_P int 'r bytes
  | K_Load int 'r bytes
  | K_Store int 'r bytes "32 word"
  | K_Print int 'r bytes
  | K_V int 'r bytes
  | K_Write int 'r bytes
  | K_Close int

datatype pre_pc = PM_Create nat | PM_Accept | PM_Insert int

datatype once_state = ONew | ORunning | ODone

text \<open>How the process stands: running, ended by an error wrapper, or in an error that the program
  itself made (a semaphore used before it exists, a descriptor used that is not open).\<close>

datatype pre_outcome = Going | Gone | Wrong

record ('r, 'k, 's, 'b) pre_sys =
  pmain :: pre_pc
  psbuf :: 'b
  pkern :: 'k
  pworker :: "nat \<rightharpoonup> 'r echo_pc"
  once :: once_state
  cnt_mutex :: "'s option"
  byte_cnt :: "32 word"
  pconn :: "int \<rightharpoonup> nat"
  paccepted :: nat
  pdata :: "nat \<Rightarrow> bytes"
  pout :: "nat \<Rightarrow> bytes"
  taken :: "(nat \<times> nat option) list"
  prints :: "event list"
  pstop :: pre_outcome

definition echo6_message :: "nat \<Rightarrow> 32 word \<Rightarrow> int \<Rightarrow> string" where
  "echo6_message n cnt connfd = ''server received '' @ int_dec (int n) @ '' ('' @ int_dec (sint cnt) @
     '' total) bytes on fd '' @ int_dec connfd @ [LF]"

definition set_pc :: "nat \<Rightarrow> 'r echo_pc \<Rightarrow> ('r, 'k, 's, 'b) pre_sys \<Rightarrow> ('r, 'k, 's, 'b) pre_sys" where
  "set_pc i pc s = s\<lparr>pworker := (pworker s)(i \<mapsto> pc)\<rparr>"

text \<open>The routine \<open>thread\<close> around \<open>echo_cnt\<close>.\<close>

fun thread_outer :: "'b sbuf_api \<Rightarrow> nat \<Rightarrow> 'r echo_pc \<Rightarrow> ('r, 'k, 's, 'b) pre_sys \<Rightarrow>
    ('r, 'k, 's, 'b) pre_sys option" where
  "thread_outer sb i K_Detach s = Some (set_pc i K_Remove s)"
| "thread_outer sb i K_Remove s =
     (case sbuf_remove sb (psbuf s) of
        None \<Rightarrow> None
      | Some (connfd, b) \<Rightarrow>
          Some (set_pc i (K_Once connfd) (s\<lparr>psbuf := b, taken := taken s @ [(i, pconn s connfd)]\<rparr>)))"
| "thread_outer sb i (K_Close connfd) s =
     Some (if pconn s connfd = None then s\<lparr>pstop := Wrong\<rparr>
           else set_pc i K_Remove (s\<lparr>pconn := (pconn s)(connfd := None)\<rparr>))"
| "thread_outer sb i _ s = None"

text \<open>\<open>Pthread_once\<close>: the first caller runs \<open>init_echo_cnt\<close>, the others wait until it has returned.\<close>

fun init_echo_cnt :: "'s sem_api \<Rightarrow> nat \<Rightarrow> 'r echo_pc \<Rightarrow> ('r, 'k, 's, 'b) pre_sys \<Rightarrow>
    ('r, 'k, 's, 'b) pre_sys option" where
  "init_echo_cnt sa i (K_Once connfd) s =
     (case once s of
        ONew \<Rightarrow> Some (set_pc i (K_SemInit connfd) (s\<lparr>once := ORunning\<rparr>))
      | ORunning \<Rightarrow> None
      | ODone \<Rightarrow> Some (set_pc i (K_Open connfd) s))"
| "init_echo_cnt sa i (K_SemInit connfd) s =
     Some (set_pc i (K_CntInit connfd) (s\<lparr>cnt_mutex := Some (sem_init sa 1)\<rparr>))"
| "init_echo_cnt sa i (K_CntInit connfd) s =
     Some (set_pc i (K_Open connfd) (s\<lparr>byte_cnt := 0, once := ODone\<rparr>))"
| "init_echo_cnt sa i _ s = None"

fun echo_cnt :: "('r, 'k) rio_api \<Rightarrow> 's sem_api \<Rightarrow> (int \<Rightarrow> bytes \<Rightarrow> bool) \<Rightarrow> nat \<Rightarrow> 'r echo_pc \<Rightarrow>
    ('r, 'k, 's, 'b) pre_sys \<Rightarrow> ('r, 'k, 's, 'b) pre_sys option" where
  "echo_cnt api sa up i (K_Open connfd) s = Some (set_pc i (K_Read connfd (readinitb api connfd)) s)"
| "echo_cnt api sa up i (K_Read connfd rio) s =
     (case readlineb api rio (pkern s) MAXLINE of (res, rio', k) \<Rightarrow>
      Some (case res of
              Line buf \<Rightarrow> set_pc i (K_P connfd rio' buf) (s\<lparr>pkern := k\<rparr>)
            | Eof \<Rightarrow> set_pc i (K_Close connfd) (s\<lparr>pkern := k\<rparr>)
            | ReadErr \<Rightarrow> s\<lparr>pstop := Gone\<rparr>))"
| "echo_cnt api sa up i (K_P connfd rio buf) s =
     (case cnt_mutex s of
        None \<Rightarrow> Some (s\<lparr>pstop := Wrong\<rparr>)
      | Some m \<Rightarrow>
          (case semP sa m of
             None \<Rightarrow> None
           | Some m' \<Rightarrow> Some (set_pc i (K_Load connfd rio buf) (s\<lparr>cnt_mutex := Some m'\<rparr>))))"
| "echo_cnt api sa up i (K_Load connfd rio buf) s = Some (set_pc i (K_Store connfd rio buf (byte_cnt s)) s)"
| "echo_cnt api sa up i (K_Store connfd rio buf tmp) s =
     Some (set_pc i (K_Print connfd rio buf) (s\<lparr>byte_cnt := tmp + of_nat (length buf)\<rparr>))"
| "echo_cnt api sa up i (K_Print connfd rio buf) s =
     Some (set_pc i (K_V connfd rio buf)
       (s\<lparr>prints := prints s @ [Stdout (echo6_message (length buf) (byte_cnt s) connfd)]\<rparr>))"
| "echo_cnt api sa up i (K_V connfd rio buf) s =
     (case cnt_mutex s of
        None \<Rightarrow> Some (s\<lparr>pstop := Wrong\<rparr>)
      | Some m \<Rightarrow> Some (set_pc i (K_Write connfd rio buf) (s\<lparr>cnt_mutex := Some (semV sa m)\<rparr>)))"
| "echo_cnt api sa up i (K_Write connfd rio buf) s =
     Some (case pconn s connfd of
             None \<Rightarrow> s\<lparr>pstop := Wrong\<rparr>
           | Some c \<Rightarrow>
               (if up connfd buf then
                  set_pc i (K_Read connfd rio) (s\<lparr>pout := (pout s)(c := pout s c @ buf)\<rparr>)
                else s\<lparr>pstop := Gone\<rparr>))"
| "echo_cnt api sa up i _ s = None"

definition echo6_start :: "'b sbuf_api \<Rightarrow> 'k \<Rightarrow> string list \<Rightarrow> ('r, 'k, 's, 'b) pre_sys run" where
  "echo6_start sb k argv =
     (if length argv \<noteq> 2 then Exits [Stderr (''usage: '' @ hd argv @ ''<port>'' @ [LF])] (ExitStatus 0)
      else Ret [] \<lparr>pmain = PM_Create 0, psbuf = sbuf_init sb SBUFSIZE, pkern = k, pworker = Map.empty,
        once = ONew, cnt_mutex = None, byte_cnt = 0, pconn = Map.empty, paccepted = 0,
        pdata = (\<lambda>_. []), pout = (\<lambda>_. []), taken = [], prints = [], pstop = Going\<rparr>)"

text \<open>
  \<open>accept\<close>: the new descriptor is one that is not open, and the kernel then holds for it the bytes
  the client sends (\<open>pdata\<close> remembers them); what it holds for the other descriptors is untouched.
\<close>

inductive pre_step ::
  "('r, 'k) rio_api \<Rightarrow> ('r \<Rightarrow> int) \<Rightarrow> ('r \<Rightarrow> 'k \<Rightarrow> bytes) \<Rightarrow> ('k \<Rightarrow> int \<Rightarrow> bytes) \<Rightarrow> 's sem_api \<Rightarrow>
   'b sbuf_api \<Rightarrow> (int \<Rightarrow> bytes \<Rightarrow> bool) \<Rightarrow> ('r, 'k, 's, 'b) pre_sys \<Rightarrow> ('r, 'k, 's, 'b) pre_sys \<Rightarrow> bool"
  for api :: "('r, 'k) rio_api" and fd_of pending wire and sa :: "'s sem_api" and sb :: "'b sbuf_api" and up
  where
  create: "pstop s = Going \<Longrightarrow> pmain s = PM_Create i \<Longrightarrow> i < NTHREADS \<Longrightarrow>
    pre_step api fd_of pending wire sa sb up s
      (s\<lparr>pworker := (pworker s)(i \<mapsto> K_Detach), pmain := PM_Create (Suc i)\<rparr>)"
| created: "pstop s = Going \<Longrightarrow> pmain s = PM_Create i \<Longrightarrow> \<not> i < NTHREADS \<Longrightarrow>
    pre_step api fd_of pending wire sa sb up s (s\<lparr>pmain := PM_Accept\<rparr>)"
| accept: "pstop s = Going \<Longrightarrow> pmain s = PM_Accept \<Longrightarrow> 0 \<le> fd \<Longrightarrow> pconn s fd = None \<Longrightarrow>
    (\<And>e. e \<noteq> fd \<Longrightarrow> wire k e = wire (pkern s) e) \<Longrightarrow>
    (\<And>u. fd_of u \<noteq> fd \<Longrightarrow> pending u k = pending u (pkern s)) \<Longrightarrow>
    pre_step api fd_of pending wire sa sb up s
      (s\<lparr>pkern := k, pconn := (pconn s)(fd \<mapsto> paccepted s), paccepted := Suc (paccepted s),
         pdata := (pdata s)(paccepted s := wire k fd), pmain := PM_Insert fd\<rparr>)"
| insert: "pstop s = Going \<Longrightarrow> pmain s = PM_Insert fd \<Longrightarrow> sbuf_insert sb (psbuf s) fd = Some b \<Longrightarrow>
    pre_step api fd_of pending wire sa sb up s (s\<lparr>psbuf := b, pmain := PM_Accept\<rparr>)"
| outer: "pstop s = Going \<Longrightarrow> pworker s i = Some pc \<Longrightarrow> thread_outer sb i pc s = Some s' \<Longrightarrow>
    pre_step api fd_of pending wire sa sb up s s'"
| once: "pstop s = Going \<Longrightarrow> pworker s i = Some pc \<Longrightarrow> init_echo_cnt sa i pc s = Some s' \<Longrightarrow>
    pre_step api fd_of pending wire sa sb up s s'"
| echo: "pstop s = Going \<Longrightarrow> pworker s i = Some pc \<Longrightarrow> echo_cnt api sa up i pc s = Some s' \<Longrightarrow>
    pre_step api fd_of pending wire sa sb up s s'"

inductive pre_reach for api :: "('r, 'k) rio_api" and fd_of pending wire and sa :: "'s sem_api"
  and sb :: "'b sbuf_api" and up and argv :: "string list" where
  init: "echo6_start sb k argv = Ret es s \<Longrightarrow> pre_reach api fd_of pending wire sa sb up argv s"
| step: "pre_reach api fd_of pending wire sa sb up argv s \<Longrightarrow> pre_step api fd_of pending wire sa sb up s s' \<Longrightarrow>
    pre_reach api fd_of pending wire sa sb up argv s'"
section \<open>The counter\<close>

fun in_mutex :: "'r echo_pc \<Rightarrow> bool" where
  "in_mutex (K_Load fd rio buf) = True"
| "in_mutex (K_Store fd rio buf tmp) = True"
| "in_mutex (K_Print fd rio buf) = True"
| "in_mutex (K_V fd rio buf) = True"
| "in_mutex _ = False"

fun in_init :: "'r echo_pc \<Rightarrow> bool" where
  "in_init (K_SemInit fd) = True"
| "in_init (K_CntInit fd) = True"
| "in_init _ = False"

fun past_once :: "'r echo_pc \<Rightarrow> bool" where
  "past_once K_Detach = False"
| "past_once K_Remove = False"
| "past_once (K_Once fd) = False"
| "past_once (K_SemInit fd) = False"
| "past_once (K_CntInit fd) = False"
| "past_once _ = True"

text \<open>The bytes that are counted and not yet reported.\<close>

fun unprinted :: "'r echo_pc \<Rightarrow> nat" where
  "unprinted (K_Print fd rio buf) = length buf"
| "unprinted _ = 0"

text \<open>The reports for lines of given lengths on given descriptors, in the order they were counted.\<close>

fun receipts :: "nat \<Rightarrow> (nat \<times> int) list \<Rightarrow> event list" where
  "receipts t [] = []"
| "receipts t ((n, fd) # ns) = Stdout (echo6_message n (of_nat (t + n)) fd) # receipts (t + n) ns"

lemma receipts_append: "receipts t (ns @ [(n, fd)]) =
    receipts t ns @ [Stdout (echo6_message n (of_nat (t + sum_list (map fst ns) + n)) fd)]"
  by (induction t ns rule: receipts.induct) (simp_all add: add.assoc)

text \<open>\<open>g\<close> is the worker that holds the mutex, \<open>q\<close> the one that runs \<open>init_echo_cnt\<close>.\<close>

definition count_ok :: "('s \<Rightarrow> nat) \<Rightarrow> ('r, 'k, 's, 'b) pre_sys \<Rightarrow> nat option \<Rightarrow> nat option \<Rightarrow> nat \<Rightarrow>
    (nat \<times> int) list \<Rightarrow> bool" where
  "count_ok val s g q e ns \<longleftrightarrow>
     (\<forall>i pc. pworker s i = Some pc \<longrightarrow> (in_mutex pc \<longleftrightarrow> g = Some i) \<and> (in_init pc \<longleftrightarrow> q = Some i) \<and>
        (past_once pc \<longrightarrow> once s = ODone) \<and> (g = Some i \<longrightarrow> e = unprinted pc) \<and>
        (\<forall>fd rio buf tmp. pc = K_Store fd rio buf tmp \<longrightarrow> tmp = byte_cnt s) \<and>
        (\<forall>fd. pc = K_CntInit fd \<longrightarrow> (\<exists>m. cnt_mutex s = Some m \<and> val m = 1))) \<and>
     (g = None \<longrightarrow> e = 0) \<and> (\<forall>i. g = Some i \<or> q = Some i \<longrightarrow> pworker s i \<noteq> None) \<and>
     (once s = ORunning \<longleftrightarrow> q \<noteq> None) \<and> (once s \<noteq> ODone \<longrightarrow> ns = []) \<and>
     (once s = ODone \<longrightarrow> (\<exists>m. cnt_mutex s = Some m \<and> val m = (if g = None then 1 else 0)) \<and>
        byte_cnt s = of_nat (sum_list (map fst ns) + e)) \<and>
     prints s = receipts 0 ns"

lemma count_owner:
  assumes "count_ok val s g q e ns" "pworker s i = Some pc"
  shows "in_mutex pc \<longleftrightarrow> g = Some i" "in_init pc \<longleftrightarrow> q = Some i" "past_once pc \<Longrightarrow> once s = ODone"
    "g = Some i \<Longrightarrow> e = unprinted pc"
  using assms by (auto simp: count_ok_def)

text \<open>Steps that touch neither the counter nor its mutex.\<close>

lemma count_move:
  assumes "count_ok val s g q e ns" "pworker s i = Some pc"
    and "pworker s' = (pworker s)(i \<mapsto> pc')" "once s' = once s" "cnt_mutex s' = cnt_mutex s"
    and "byte_cnt s' = byte_cnt s" "prints s' = prints s"
    and "in_mutex pc' = in_mutex pc" "in_init pc' = in_init pc" "past_once pc' \<longrightarrow> once s = ODone"
    and "unprinted pc' = unprinted pc" "\<And>fd rio buf tmp. pc' = K_Store fd rio buf tmp \<Longrightarrow> tmp = byte_cnt s"
    and "\<And>fd. pc' \<noteq> K_CntInit fd"
  shows "count_ok val s' g q e ns"
  using assms(1) count_owner [OF assms(1,2)] assms(3-13) unfolding count_ok_def by auto

lemma count_same:
  assumes "count_ok val s g q e ns" "pworker s' = pworker s" "once s' = once s" "cnt_mutex s' = cnt_mutex s"
    "byte_cnt s' = byte_cnt s" "prints s' = prints s"
  shows "count_ok val s' g q e ns"
  using assms unfolding count_ok_def by simp

text \<open>Steps of the worker that holds the mutex.\<close>

lemma count_held:
  assumes "count_ok val s (Some i) q e ns" "pworker s i = Some pc"
    and "pworker s' = (pworker s)(i \<mapsto> pc')" "once s' = once s" "cnt_mutex s' = cnt_mutex s"
    and "in_mutex pc'" "\<And>fd rio buf tmp. pc' \<noteq> K_Store fd rio buf tmp"
    and "byte_cnt s' = of_nat (sum_list (map fst ns') + unprinted pc')" "prints s' = receipts 0 ns'"
  shows "count_ok val s' (Some i) q (unprinted pc') ns'"
proof -
  have nos: "pworker s j \<noteq> Some (K_Store f r b t)" if "j \<noteq> i" for j f r b t
    using count_owner(1) [OF assms(1), of j "K_Store f r b t"] that by auto
  have mut: "in_mutex pc" using count_owner(1) [OF assms(1,2)] by simp
  then have "past_once pc" by (cases pc) auto
  then have od: "once s = ODone" using count_owner(3) [OF assms(1,2)] by blast
  have ini: "\<not> in_init pc" "\<not> in_init pc'" "\<And>f. pc' \<noteq> K_CntInit f"
    using mut assms(6) by (cases pc; cases pc'; auto)+
  show ?thesis
    using assms(1) nos od ini count_owner(2) [OF assms(1,2)] assms(2-) unfolding count_ok_def
    by (auto split: if_splits)
qed

lemma count_outer:
  assumes "count_ok val s g q e ns" "pworker s i = Some pc" "thread_outer sb i pc s = Some s'"
  shows "count_ok val s' g q e ns"
proof (cases pc)
  case K_Detach
  then show ?thesis using assms(3) by (intro count_move [OF assms(1,2)]) (auto simp: set_pc_def)
next
  case K_Remove
  then show ?thesis using assms(3) 
    by (auto simp: set_pc_def split: option.splits intro!: count_move [OF assms(1,2)])
next
  case (K_Close fd)
  show ?thesis
  proof (cases "pconn s fd")
    case None
    then show ?thesis using assms(3) K_Close by (intro count_same [OF assms(1)]) auto
  next
    case (Some c)
    then show ?thesis using assms(3) K_Close by (intro count_move [OF assms(1,2)]) (auto simp: set_pc_def)
  qed
qed (use assms(3) in simp_all)

lemma past_once_cases: "past_once pc \<Longrightarrow> \<not> in_init pc"
  by (cases pc) auto

lemma in_mutex_past: "in_mutex pc \<Longrightarrow> past_once pc"
  by (cases pc) auto

lemma not_done_free:
  assumes "count_ok val s g q e ns" "once s \<noteq> ODone"
  shows "g = None"
proof (rule ccontr)
  assume "g \<noteq> None"
  then obtain i pc where "g = Some i" "pworker s i = Some pc" using assms(1) unfolding count_ok_def by fastforce
  with count_owner [OF assms(1)] have "past_once pc" "past_once pc \<Longrightarrow> once s = ODone"
    using in_mutex_past by blast+
  with assms(2) show False by simp
qed

context semaphore
begin

lemma count_once:
  assumes "count_ok val s g q e ns" "pworker s i = Some pc" "init_echo_cnt sa i pc s = Some s'"
  shows "\<exists>q. count_ok val s' g q e ns"
proof (cases pc)
  case (K_Once fd)
  show ?thesis
  proof (cases "once s")
    case ONew
    then have "q = None" using assms(1) by (auto simp: count_ok_def)
    then have "count_ok val s' g (Some i) e ns"
      using assms K_Once ONew not_done_free [OF assms(1)] unfolding count_ok_def
      by (auto simp: set_pc_def split: if_splits)
    then show ?thesis by blast
  next
    case ORunning
    then show ?thesis using assms K_Once by simp
  next
    case ODone
    then have "count_ok val s' g q e ns" using assms(3) K_Once
      by (intro count_move [OF assms(1,2)]) (auto simp: set_pc_def)
    then show ?thesis by blast
  qed
next
  case (K_SemInit fd)
  then have q: "q = Some i" "once s = ORunning" using assms(1,2) count_owner [OF assms(1,2)] by (auto simp: count_ok_def)
  then have "count_ok val s' g q e ns"
    using assms K_SemInit not_done_free [OF assms(1)] unfolding count_ok_def
    by (auto simp: set_pc_def init_val split: if_splits)
  then show ?thesis by blast
next
  case (K_CntInit fd)
  then have q: "q = Some i" "once s = ORunning" using assms(1,2) count_owner [OF assms(1,2)] by (auto simp: count_ok_def)
  then have gn: "g = None" "ns = []" using assms(1) not_done_free [OF assms(1)] by (auto simp: count_ok_def)
  have "pworker s j \<noteq> Some (K_Store f r b t)" for j f r b t
    using count_owner(1) [OF assms(1), of j "K_Store f r b t"] gn(1) by auto
  with gn have "count_ok val s' g None e ns"
    using assms K_CntInit q unfolding count_ok_def
    by (auto simp: set_pc_def split: if_splits)
  then show ?thesis by blast
qed (use assms(3) in simp_all)

lemma count_echo:
  assumes "count_ok val s g q e ns" "pworker s i = Some pc" "echo_cnt api sa up i pc s = Some s'"
  shows "\<exists>g e ns. count_ok val s' g q e ns"
proof -
  note own = count_owner [OF assms(1,2)]
  note move = count_move [OF assms(1,2)] and same = count_same [OF assms(1)]
  show ?thesis
  proof (cases pc)
    case (K_Open fd)
    then have "count_ok val s' g q e ns" using assms(3) own by (intro move) (auto simp: set_pc_def)
    then show ?thesis by blast
  next
    case (K_Read fd rio)
    obtain res rio' k where rd: "readlineb api rio (pkern s) 8192 = (res, rio', k)" by (metis prod_cases3)
    have "count_ok val s' g q e ns"
    proof (cases res)
      case (Line buf)
      then show ?thesis using assms(3) K_Read rd own by (intro move) (auto simp: set_pc_def)
    next
      case Eof
      then show ?thesis using assms(3) K_Read rd own by (intro move) (auto simp: set_pc_def)
    next
      case ReadErr
      then show ?thesis using assms(3) K_Read rd by (intro same) auto
    qed
    then show ?thesis by blast
  next
    case (K_P fd rio buf)
    then have "once s = ODone" using own(3) by simp
    then obtain m where m: "cnt_mutex s = Some m" "val m = (if g = None then 1 else 0)"
      using assms(1) by (auto simp: count_ok_def)
    then obtain m' where m': "semP sa m = Some m'" "s' = set_pc i (K_Load fd rio buf) (s\<lparr>cnt_mutex := Some m'\<rparr>)"
      using assms(3) K_P by (auto split: option.splits)
    then have "g = None" "val m' = 0" using m P_val [of m m'] by (auto split: if_splits)
    moreover have "q = None" using assms(1) \<open>once s = ODone\<close> by (auto simp: count_ok_def)
    then have "pworker s j \<noteq> Some (K_CntInit f)" for j f
      using count_owner(2) [OF assms(1), of j "K_CntInit f"] by auto
    ultimately have "count_ok val s' (Some i) q e ns"
      using assms(1,2) K_P m' \<open>once s = ODone\<close> unfolding count_ok_def by (auto simp: set_pc_def split: if_splits)
    then show ?thesis by blast
  next
    case (K_Load fd rio buf)
    then have "count_ok val s' g q e ns" using assms(3) own by (intro move) (auto simp: set_pc_def)
    then show ?thesis by blast
  next
    case (K_Store fd rio buf tmp)
    then have g: "g = Some i" "once s = ODone" "e = 0" "tmp = byte_cnt s"
      using own assms(1,2) by (auto simp: count_ok_def)
    have "byte_cnt s = of_nat (sum_list (map fst ns))" "prints s = receipts 0 ns"
      using assms(1) g(2,3) by (auto simp: count_ok_def)
    moreover have s': "s' = set_pc i (K_Print fd rio buf) (s\<lparr>byte_cnt := tmp + of_nat (length buf)\<rparr>)"
      using assms(3) K_Store by simp
    ultimately have "count_ok val s' (Some i) q (unprinted (K_Print fd rio buf)) ns" using g(4)
      by (intro count_held [OF assms(1) [unfolded g(1)] assms(2)]) (simp_all add: s' set_pc_def)
    then show ?thesis by blast
  next
    case (K_Print fd rio buf)
    then have g: "g = Some i" "once s = ODone" "e = length buf"
      using own assms(1,2) by auto
    then have "byte_cnt s = of_nat (sum_list (map fst ns) + length buf)" "prints s = receipts 0 ns"
      using assms(1) by (auto simp: count_ok_def)
    moreover have s': "s' = set_pc i (K_V fd rio buf)
        (s\<lparr>prints := prints s @ [Stdout (echo6_message (length buf) (byte_cnt s) fd)]\<rparr>)"
      using assms(3) K_Print by simp
    ultimately have "count_ok val s' (Some i) q (unprinted (K_V fd rio buf)) (ns @ [(length buf, fd)])"
      by (intro count_held [OF assms(1) [unfolded g(1)] assms(2)]) (simp_all add: s' set_pc_def receipts_append)
    then show ?thesis by blast
  next
    case (K_V fd rio buf)
    then have g: "g = Some i" "once s = ODone" "e = 0" using own assms(1,2) by auto
    then obtain m where m: "cnt_mutex s = Some m" "val m = 0" using assms(1) by (auto simp: count_ok_def)
    then have "count_ok val s' None q 0 ns"
      using assms K_V g V_val [of m] unfolding count_ok_def by (auto simp: set_pc_def split: if_splits)
    then show ?thesis by blast
  next
    case (K_Write fd rio buf)
    have "count_ok val s' g q e ns"
    proof (cases "pconn s fd = None \<or> \<not> up fd buf")
      case True
      then show ?thesis using assms(3) K_Write by (intro same) (auto split: option.splits)
    next
      case False
      then show ?thesis using assms(3) K_Write own by (intro move) (auto simp: set_pc_def)
    qed
    then show ?thesis by blast
  qed (use assms(3) in simp_all)
qed

end

section \<open>Who has a descriptor\<close>

text \<open>An open connected descriptor is with \<open>main\<close>, in the buffer, or with one worker.\<close>

datatype place = InMain | InBuf | At nat

fun pc_fd :: "'r echo_pc \<Rightarrow> int option" where
  "pc_fd K_Detach = None"
| "pc_fd K_Remove = None"
| "pc_fd (K_Once fd) = Some fd"
| "pc_fd (K_SemInit fd) = Some fd"
| "pc_fd (K_CntInit fd) = Some fd"
| "pc_fd (K_Open fd) = Some fd"
| "pc_fd (K_Read fd rio) = Some fd"
| "pc_fd (K_P fd rio buf) = Some fd"
| "pc_fd (K_Load fd rio buf) = Some fd"
| "pc_fd (K_Store fd rio buf tmp) = Some fd"
| "pc_fd (K_Print fd rio buf) = Some fd"
| "pc_fd (K_V fd rio buf) = Some fd"
| "pc_fd (K_Write fd rio buf) = Some fd"
| "pc_fd (K_Close fd) = Some fd"

definition worker_fd :: "('r, 'k, 's, 'b) pre_sys \<Rightarrow> nat \<Rightarrow> int option" where
  "worker_fd s i = (case pworker s i of None \<Rightarrow> None | Some pc \<Rightarrow> pc_fd pc)"

definition places :: "('r, 'k, 's, 'b) pre_sys \<Rightarrow> int list \<Rightarrow> (int \<rightharpoonup> place) \<Rightarrow> bool" where
  "places s cs p \<longleftrightarrow> (\<forall>fd. pmain s = PM_Insert fd \<longleftrightarrow> p fd = Some InMain) \<and>
     (\<forall>fd. fd \<in> set cs \<longleftrightarrow> p fd = Some InBuf) \<and> (\<forall>i fd. worker_fd s i = Some fd \<longleftrightarrow> p fd = Some (At i)) \<and>
     (\<forall>fd. pconn s fd = None \<longleftrightarrow> p fd = None)"

lemma placesI:
  assumes "\<And>fd. pmain s = PM_Insert fd \<longleftrightarrow> p fd = Some InMain" "\<And>fd. fd \<in> set cs \<longleftrightarrow> p fd = Some InBuf"
    and "\<And>i fd. worker_fd s i = Some fd \<longleftrightarrow> p fd = Some (At i)" "\<And>fd. pconn s fd = None \<longleftrightarrow> p fd = None"
  shows "places s cs p"
  using assms unfolding places_def by blast

lemma placesD:
  assumes "places s cs p"
  shows "pmain s = PM_Insert fd \<longleftrightarrow> p fd = Some InMain" "fd \<in> set cs \<longleftrightarrow> p fd = Some InBuf"
    and "worker_fd s i = Some fd \<longleftrightarrow> p fd = Some (At i)" "pconn s fd = None \<longleftrightarrow> p fd = None"
  using assms by (simp_all only: places_def)

text \<open>What \<open>main\<close> knows: \<open>n\<close> connections are in the buffer or past it.\<close>

fun main_ok :: "pre_pc \<Rightarrow> nat \<Rightarrow> nat \<Rightarrow> (int \<rightharpoonup> nat) \<Rightarrow> nat set \<Rightarrow> bool" where
  "main_ok (PM_Create i) n acc cn ws \<longleftrightarrow> acc = n \<and> ws = {..<i}"
| "main_ok PM_Accept n acc cn ws \<longleftrightarrow> acc = n"
| "main_ok (PM_Insert fd) n acc cn ws \<longleftrightarrow> acc = Suc n \<and> cn fd = Some n"

text \<open>The connections go through the buffer in the order in which they were accepted.\<close>

definition fifo :: "('r, 'k, 's, 'b) pre_sys \<Rightarrow> int list \<Rightarrow> bool" where
  "fifo s cs \<longleftrightarrow> map (pconn s) cs = map Some [length (taken s)..<length (taken s) + length cs] \<and>
     map snd (taken s) = map Some [0..<length (taken s)] \<and>
     main_ok (pmain s) (length (taken s) + length cs) (paccepted s) (pconn s) (dom (pworker s)) \<and>
     (\<forall>fd c. pconn s fd = Some c \<longrightarrow> c < paccepted s) \<and>
     (\<forall>fd fd' c. pconn s fd = Some c \<longrightarrow> pconn s fd' = Some c \<longrightarrow> fd = fd')"

definition hand_ok :: "('r, 'k, 's, 'b) pre_sys \<Rightarrow> int list \<Rightarrow> bool" where
  "hand_ok s cs \<longleftrightarrow> fifo s cs \<and> (\<exists>p. places s cs p)"

lemma fifo_distinct: "fifo s cs \<Longrightarrow> distinct cs"
proof -
  assume "fifo s cs"
  then have "distinct (map (pconn s) cs)" by (simp add: fifo_def distinct_map)
  then show "distinct cs" by (simp add: distinct_map)
qed

lemma fifo_conn: "fifo s cs \<Longrightarrow> j < length cs \<Longrightarrow> pconn s (cs ! j) = Some (length (taken s) + j)"
proof -
  assume f: "fifo s cs" and j: "j < length cs"
  then have "map (pconn s) cs ! j = map Some [length (taken s)..<length (taken s) + length cs] ! j"
    by (simp add: fifo_def)
  with j show ?thesis by simp
qed

lemma worker_fd_upd [simp]:
  "worker_fd (set_pc i pc s) j = (if j = i then pc_fd pc else worker_fd s j)"
  by (simp add: worker_fd_def set_pc_def)

lemma worker_fd_cong: "pworker s' = pworker s \<Longrightarrow> worker_fd s' = worker_fd s"
  by (rule ext) (simp add: worker_fd_def)

text \<open>Steps of a worker that keep its descriptor.\<close>

lemma hand_move:
  assumes "hand_ok s cs" "pworker s i = Some pc" "pc_fd pc' = pc_fd pc"
    and "pworker s' = (pworker s)(i \<mapsto> pc')" "pmain s' = pmain s" "pconn s' = pconn s"
    and "taken s' = taken s" "paccepted s' = paccepted s"
  shows "hand_ok s' cs"
proof -
  obtain p where "places s cs p" using assms(1) by (auto simp: hand_ok_def)
  moreover have "worker_fd s' j = worker_fd s j" for j
    using assms(2-4) by (simp add: worker_fd_def)
  ultimately have "places s' cs p" using assms(5,6) by (simp add: places_def)
  moreover have "dom (pworker s') = dom (pworker s)" using assms(2,4) by (auto simp: domI)
  then have "fifo s' cs" using assms(1,5-8) by (simp add: fifo_def hand_ok_def)
  ultimately show ?thesis by (auto simp: hand_ok_def)
qed

lemma hand_same:
  assumes "hand_ok s cs" "pworker s' = pworker s" "pmain s' = pmain s" "pconn s' = pconn s"
    and "taken s' = taken s" "paccepted s' = paccepted s"
  shows "hand_ok s' cs"
  using assms worker_fd_cong [OF assms(2)] by (simp add: hand_ok_def fifo_def places_def)

lemma hand_create:
  assumes "hand_ok s cs" "pmain s = PM_Create i"
  shows "hand_ok (s\<lparr>pworker := (pworker s)(i \<mapsto> K_Detach), pmain := PM_Create (Suc i)\<rparr>) cs"
proof -
  obtain p where p: "places s cs p" using assms(1) by (auto simp: hand_ok_def)
  have "pworker s i = None" using assms by (auto simp: hand_ok_def fifo_def dom_def set_eq_iff)
  then have "worker_fd (s\<lparr>pworker := (pworker s)(i \<mapsto> K_Detach), pmain := PM_Create (Suc i)\<rparr>) j = worker_fd s j" for j
    by (simp add: worker_fd_def)
  with assms p show ?thesis unfolding hand_ok_def fifo_def places_def
    by (auto simp: lessThan_Suc)
qed

lemma hand_accept:
  assumes "hand_ok s cs" "pmain s = PM_Accept" "pconn s fd = None"
    and "pworker s' = pworker s" "pmain s' = PM_Insert fd" "pconn s' = (pconn s)(fd \<mapsto> paccepted s)"
    and "taken s' = taken s" "paccepted s' = Suc (paccepted s)"
  shows "hand_ok s' cs"
proof -
  obtain p where p: "places s cs p" using assms(1) by (auto simp: hand_ok_def)
  have f: "fifo s cs" using assms(1) by (simp add: hand_ok_def)
  have n: "p fd = None" using p assms(3) by (simp add: places_def)
  have pl: "places s' cs (p(fd \<mapsto> InMain))"
    using n assms(2) by (intro placesI) (auto simp: assms(4-6) worker_fd_cong [OF assms(4)] placesD [OF p] placesD(1) [OF p, symmetric])
  have "fd \<notin> set cs" using placesD(2) [OF p] n by simp
  then have "map (pconn s') cs = map (pconn s) cs" using assms(6) by auto
  moreover have "pconn s e \<noteq> Some (paccepted s)" for e using f unfolding fifo_def by (metis less_irrefl)
  ultimately have "fifo s' cs" using f assms(2,3,5-8) unfolding fifo_def
    by (auto split: if_splits intro: less_SucI)
  with pl show ?thesis by (auto simp: hand_ok_def)
qed

lemma hand_insert:
  assumes "hand_ok s cs" "pmain s = PM_Insert fd"
    and "pworker s' = pworker s" "pmain s' = PM_Accept" "pconn s' = pconn s"
    and "taken s' = taken s" "paccepted s' = paccepted s"
  shows "hand_ok s' (cs @ [fd])"
proof -
  obtain p where p: "places s cs p" using assms(1) by (auto simp: hand_ok_def)
  have f: "fifo s cs" using assms(1) by (simp add: hand_ok_def)
  have m: "p fd = Some InMain" using placesD(1) [OF p, of fd] assms(2) by simp
  have m2: "e = fd" if "p e = Some InMain" for e using placesD(1) [OF p, of e] assms(2) that by simp
  have "places s' (cs @ [fd]) (p(fd \<mapsto> InBuf))"
    using m by (intro placesI) (auto dest: m2 simp: assms(4,5) worker_fd_cong [OF assms(3)] placesD(2-4) [OF p])
  moreover have "fifo s' (cs @ [fd])" using f assms(2,4-7) unfolding fifo_def by auto
  ultimately show ?thesis by (auto simp: hand_ok_def)
qed

lemma hand_remove:
  assumes "hand_ok s (fd # cs)" "pworker s i = Some K_Remove"
    and "pworker s' = (pworker s)(i \<mapsto> K_Once fd)" "pmain s' = pmain s" "pconn s' = pconn s"
    and "taken s' = taken s @ [(i, pconn s fd)]" "paccepted s' = paccepted s"
  shows "hand_ok s' cs"
proof -
  obtain p where p: "places s (fd # cs) p" using assms(1) by (auto simp: hand_ok_def)
  have f: "fifo s (fd # cs)" using assms(1) by (simp add: hand_ok_def)
  have notin: "fd \<notin> set cs" using fifo_distinct [OF f] by simp
  have b: "p fd = Some InBuf" using placesD(2) [OF p, of fd] by simp
  have nw: "worker_fd s i = None" using assms(2) by (simp add: worker_fd_def)
  have w: "worker_fd s' j = (if j = i then Some fd else worker_fd s j)" for j
    using assms(3) by (simp add: worker_fd_def)
  have pi: "p e \<noteq> Some (At i)" for e using placesD(3) [OF p, of i e] nw by simp
  have "e \<in> set cs \<longleftrightarrow> p e = Some InBuf \<and> e \<noteq> fd" for e
    using placesD(2) [OF p, of e] notin by auto
  then have pl: "places s' cs (p(fd \<mapsto> At i))"
    using b pi by (intro placesI) (auto simp: assms(4,5) w placesD(1,3,4) [OF p])
  moreover have "pconn s fd = Some (length (taken s))" using fifo_conn [OF f, of 0] by simp
  moreover have "dom (pworker s') = dom (pworker s)" using assms(2,3) by (auto simp: domI)
  moreover have "map (pconn s) cs = tl (map (pconn s) (fd # cs))" by simp
  then have "map (pconn s) cs = map Some [Suc (length (taken s))..<Suc (length (taken s) + length cs)]"
    using f unfolding fifo_def by (simp only: map_tl [symmetric] tl_upt) simp
  moreover have "length (taken s') + length cs = length (taken s) + length (fd # cs)" using assms(6) by simp
  ultimately have "fifo s' cs" using f assms(4-7) unfolding fifo_def by (simp del: upt_Suc) simp
  with pl show ?thesis by (auto simp: hand_ok_def)
qed

lemma hand_close:
  assumes "hand_ok s cs" "pworker s i = Some (K_Close fd)"
    and "pworker s' = (pworker s)(i \<mapsto> K_Remove)" "pmain s' = pmain s" "pconn s' = (pconn s)(fd := None)"
    and "taken s' = taken s" "paccepted s' = paccepted s"
  shows "hand_ok s' cs"
proof -
  obtain p where p: "places s cs p" using assms(1) by (auto simp: hand_ok_def)
  have f: "fifo s cs" using assms(1) by (simp add: hand_ok_def)
  have "worker_fd s i = Some fd" using assms(2) by (simp add: worker_fd_def)
  then have at: "p fd = Some (At i)" using placesD(3) [OF p, of i fd] by simp
  have at2: "e = fd" if "p e = Some (At i)" for e
    using placesD(3) [OF p, of i e] that \<open>worker_fd s i = Some fd\<close> by simp
  have w: "worker_fd s' j = (if j = i then None else worker_fd s j)" for j
    using assms(3) by (simp add: worker_fd_def)
  have "places s' cs (p(fd := None))"
    using at by (intro placesI) (auto dest: at2 simp: assms(4,5) w placesD [OF p])
  moreover have "fd \<notin> set cs" "pmain s \<noteq> PM_Insert fd"
    using placesD(1,2) [OF p, of fd] at by auto
  then have "map (pconn s') cs = map (pconn s) cs" "pmain s \<noteq> PM_Insert fd" using assms(5) by auto
  moreover have "dom (pworker s') = dom (pworker s)" using assms(2,3) by (auto simp: domI)
  ultimately show ?thesis using f assms(4-7) unfolding hand_ok_def fifo_def
    by (cases "pmain s") (auto split: if_splits)
qed

section \<open>What has been echoed\<close>

fun data_pc :: "('r \<Rightarrow> int) \<Rightarrow> ('r \<Rightarrow> 'k \<Rightarrow> bytes) \<Rightarrow> ('k \<Rightarrow> int \<Rightarrow> bytes) \<Rightarrow> 'k \<Rightarrow> bytes \<Rightarrow> bytes \<Rightarrow>
    'r echo_pc \<Rightarrow> bool" where
  "data_pc f pe w k out d K_Detach = True"
| "data_pc f pe w k out d K_Remove = True"
| "data_pc f pe w k out d (K_Once fd) = (out = [] \<and> w k fd = d)"
| "data_pc f pe w k out d (K_SemInit fd) = (out = [] \<and> w k fd = d)"
| "data_pc f pe w k out d (K_CntInit fd) = (out = [] \<and> w k fd = d)"
| "data_pc f pe w k out d (K_Open fd) = (out = [] \<and> w k fd = d)"
| "data_pc f pe w k out d (K_Read fd rio) = (f rio = fd \<and> out @ pe rio k = d)"
| "data_pc f pe w k out d (K_P fd rio buf) = (f rio = fd \<and> out @ buf @ pe rio k = d)"
| "data_pc f pe w k out d (K_Load fd rio buf) = (f rio = fd \<and> out @ buf @ pe rio k = d)"
| "data_pc f pe w k out d (K_Store fd rio buf tmp) = (f rio = fd \<and> out @ buf @ pe rio k = d)"
| "data_pc f pe w k out d (K_Print fd rio buf) = (f rio = fd \<and> out @ buf @ pe rio k = d)"
| "data_pc f pe w k out d (K_V fd rio buf) = (f rio = fd \<and> out @ buf @ pe rio k = d)"
| "data_pc f pe w k out d (K_Write fd rio buf) = (f rio = fd \<and> out @ buf @ pe rio k = d)"
| "data_pc f pe w k out d (K_Close fd) = (out = d)"

lemma data_pc_frame:
  assumes "data_pc f pe w k out d pc" "pc_fd pc \<noteq> Some fd"
    and "\<And>e. e \<noteq> fd \<Longrightarrow> w k' e = w k e" "\<And>u. f u \<noteq> fd \<Longrightarrow> pe u k' = pe u k"
  shows "data_pc f pe w k' out d pc"
  using assms by (cases pc) auto

lemma data_pc_prefix: "data_pc f pe w k out d pc \<Longrightarrow> pc_fd pc = Some fd \<Longrightarrow> prefix out d"
  by (cases pc) (auto intro!: prefixI [OF sym])

definition data_ok :: "('r \<Rightarrow> int) \<Rightarrow> ('r \<Rightarrow> 'k \<Rightarrow> bytes) \<Rightarrow> ('k \<Rightarrow> int \<Rightarrow> bytes) \<Rightarrow> ('r, 'k, 's, 'b) pre_sys \<Rightarrow> bool" where
  "data_ok f pe w s \<longleftrightarrow>
     (\<forall>i pc fd c. pworker s i = Some pc \<longrightarrow> pc_fd pc = Some fd \<longrightarrow> pconn s fd = Some c \<longrightarrow>
        data_pc f pe w (pkern s) (pout s c) (pdata s c) pc) \<and>
     (\<forall>fd c. pconn s fd = Some c \<longrightarrow> (\<forall>i. worker_fd s i \<noteq> Some fd) \<longrightarrow>
        pout s c = [] \<and> w (pkern s) fd = pdata s c) \<and>
     (\<forall>c < paccepted s. c \<notin> ran (pconn s) \<longrightarrow> pout s c = pdata s c) \<and>
     (\<forall>c \<ge> paccepted s. pout s c = [])"

lemma data_worker:
  "data_ok f pe w s \<Longrightarrow> pworker s i = Some pc \<Longrightarrow> pc_fd pc = Some fd \<Longrightarrow> pconn s fd = Some c \<Longrightarrow>
   data_pc f pe w (pkern s) (pout s c) (pdata s c) pc"
  unfolding data_ok_def by blast

lemma hand_conn:
  assumes "hand_ok s cs" "pworker s i = Some pc" "pc_fd pc = Some fd"
  shows "\<exists>c. pconn s fd = Some c \<and> c < paccepted s \<and> (\<forall>e. pconn s e = Some c \<longrightarrow> e = fd)"
    "\<And>j. worker_fd s j = Some fd \<Longrightarrow> j = i"
proof -
  obtain p where p: "places s cs p" using assms(1) by (auto simp: hand_ok_def)
  have "worker_fd s i = Some fd" using assms(2,3) by (simp add: worker_fd_def)
  then have at: "p fd = Some (At i)" using placesD(3) [OF p, of i fd] by simp
  then have "pconn s fd \<noteq> None" using placesD(4) [OF p, of fd] by simp
  then show "\<exists>c. pconn s fd = Some c \<and> c < paccepted s \<and> (\<forall>e. pconn s e = Some c \<longrightarrow> e = fd)"
    using assms(1) by (auto simp: hand_ok_def fifo_def)
  fix j assume "worker_fd s j = Some fd"
  then show "j = i" using placesD(3) [OF p, of j fd] at by simp
qed

text \<open>A worker goes on with its descriptor; only what belongs to the descriptor changes.\<close>

lemma data_move:
  assumes "hand_ok s cs" "data_ok f pe w s" "pworker s i = Some pc" "pc_fd pc = Some fd" "pconn s fd = Some c"
    and "pworker s' = (pworker s)(i \<mapsto> pc')" "pc_fd pc' = Some fd" "pconn s' = pconn s"
    and "paccepted s' = paccepted s" "pdata s' = pdata s" "pout s' = (pout s)(c := out)"
    and "\<And>e. e \<noteq> fd \<Longrightarrow> w (pkern s') e = w (pkern s) e"
    and "\<And>u. f u \<noteq> fd \<Longrightarrow> pe u (pkern s') = pe u (pkern s)"
    and "data_pc f pe w (pkern s') out (pdata s c) pc'"
  shows "data_ok f pe w s'"
proof -
  have c: "c < paccepted s" "\<And>e. pconn s e = Some c \<Longrightarrow> e = fd"
    using hand_conn(1) [OF assms(1,3,4)] assms(5) by auto
  have wf: "worker_fd s' j = worker_fd s j" for j
    using assms(3,4,6,7) by (simp add: worker_fd_def)
  have other: "data_pc f pe w (pkern s') (pout s' c') (pdata s' c') q"
    if "pworker s j = Some q" "j \<noteq> i" "pc_fd q = Some e" "pconn s e = Some c'" for j q e c'
  proof -
    have "worker_fd s j = Some e" using that(1,3) by (simp add: worker_fd_def)
    then have "e \<noteq> fd" using hand_conn(2) [OF assms(1,3,4), of j] that(2) by blast
    then have "c' \<noteq> c" using c(2) that(4) by blast
    then show ?thesis
      using data_pc_frame [OF data_worker [OF assms(2) that(1,3,4)], of fd] \<open>e \<noteq> fd\<close> that(3) assms(10-13) by simp
  qed
  have wi: "worker_fd s i = Some fd" using assms(3,4) by (simp add: worker_fd_def)
  have free: "pout s' c' = [] \<and> w (pkern s') e = pdata s' c'"
    if "pconn s e = Some c'" "\<forall>j. worker_fd s j \<noteq> Some e" for e c'
  proof -
    have "e \<noteq> fd" using that(2) wi by blast
    then show ?thesis using that c(2) assms(2,10-12) unfolding data_ok_def by auto
  qed
  have ran: "c \<in> ran (pconn s)" using assms(5) by (auto simp: ran_def)
  show ?thesis
    unfolding data_ok_def
    using assms(2,5-11,14) other free ran c(1) wf unfolding data_ok_def by (auto split: if_splits)
qed

lemma data_same:
  assumes "data_ok f pe w s" "pworker s' = pworker s" "pkern s' = pkern s" "pconn s' = pconn s"
    and "paccepted s' = paccepted s" "pdata s' = pdata s" "pout s' = pout s"
  shows "data_ok f pe w s'"
  using assms worker_fd_cong [OF assms(2)] by (simp add: data_ok_def)

text \<open>A worker without a descriptor stays without one.\<close>

lemma data_idle:
  assumes "data_ok f pe w s" "worker_fd s i = None" "pc_fd pc' = None"
    and "pworker s' = (pworker s)(i \<mapsto> pc')" "pkern s' = pkern s" "pconn s' = pconn s"
    and "paccepted s' = paccepted s" "pdata s' = pdata s" "pout s' = pout s"
  shows "data_ok f pe w s'"
proof -
  have "worker_fd s' j = worker_fd s j" for j
    using assms(2-4) by (simp add: worker_fd_def)
  then show ?thesis using assms unfolding data_ok_def by (auto split: if_splits)
qed

lemma data_remove:
  assumes "hand_ok s (fd # cs)" "data_ok f pe w s" "pworker s i = Some K_Remove"
    and "pworker s' = (pworker s)(i \<mapsto> K_Once fd)" "pkern s' = pkern s" "pconn s' = pconn s"
    and "paccepted s' = paccepted s" "pdata s' = pdata s" "pout s' = pout s"
  shows "data_ok f pe w s'"
proof -
  obtain p where p: "places s (fd # cs) p" using assms(1) by (auto simp: hand_ok_def)
  have "p fd = Some InBuf" using placesD(2) [OF p, of fd] by simp
  then have "worker_fd s j \<noteq> Some fd" for j using placesD(3) [OF p, of j fd] by simp
  moreover have "worker_fd s i = None" using assms(3) by (simp add: worker_fd_def)
  moreover have "worker_fd s' j = (if j = i then Some fd else worker_fd s j)" for j
    using assms(4) by (simp add: worker_fd_def)
  moreover from calculation have "\<forall>j. worker_fd s j \<noteq> Some e" if "\<forall>j. worker_fd s' j \<noteq> Some e" for e
    using that by (metis option.distinct(1))
  ultimately show ?thesis using assms(2,4-9) unfolding data_ok_def
    by (auto split: if_splits)
qed

lemma data_close:
  assumes "hand_ok s cs" "data_ok f pe w s" "pworker s i = Some (K_Close fd)"
    and "pworker s' = (pworker s)(i \<mapsto> K_Remove)" "pkern s' = pkern s" "pconn s' = (pconn s)(fd := None)"
    and "paccepted s' = paccepted s" "pdata s' = pdata s" "pout s' = pout s"
  shows "data_ok f pe w s'"
proof -
  have fd: "pc_fd (K_Close fd :: 'a echo_pc) = Some fd" by simp
  obtain c where c: "pconn s fd = Some c" "c < paccepted s" "\<And>e. pconn s e = Some c \<Longrightarrow> e = fd"
    using hand_conn(1) [OF assms(1,3) fd] by auto
  have out: "pout s c = pdata s c" using data_worker [OF assms(2,3) fd c(1)] by simp
  have w: "worker_fd s' j = (if j = i then None else worker_fd s j)" for j
    using assms(4) by (simp add: worker_fd_def)
  have wi: "worker_fd s i = Some fd" using assms(3) by (simp add: worker_fd_def)
  have ran: "c' \<in> ran (pconn s')" if "c' \<in> ran (pconn s)" "c' \<noteq> c" for c'
  proof -
    obtain e where "pconn s e = Some c'" using \<open>c' \<in> ran (pconn s)\<close> by (auto simp: ran_def)
    with c(1) that(2) have "pconn s' e = Some c'" using assms(6) by auto
    then show ?thesis by (auto simp: ran_def)
  qed
  have "pout s' c' = pdata s' c'" if "c' < paccepted s'" "c' \<notin> ran (pconn s')" for c'
    using that ran [of c'] out assms(2,7-9) unfolding data_ok_def by (cases "c' = c") auto
  moreover have "\<forall>j. worker_fd s j \<noteq> Some e" if "e \<noteq> fd" "\<forall>j. worker_fd s' j \<noteq> Some e" for e
    using that w wi by (metis option.inject)
  ultimately show ?thesis using assms(2,4-9) unfolding data_ok_def
    by (auto split: if_splits)
qed

lemma data_accept:
  assumes "hand_ok s cs" "data_ok f pe w s" "pconn s fd = None"
    and "pworker s' = pworker s" "pconn s' = (pconn s)(fd \<mapsto> paccepted s)"
    and "paccepted s' = Suc (paccepted s)" "pdata s' = (pdata s)(paccepted s := w (pkern s') fd)" "pout s' = pout s"
    and "\<And>e. e \<noteq> fd \<Longrightarrow> w (pkern s') e = w (pkern s) e"
    and "\<And>u. f u \<noteq> fd \<Longrightarrow> pe u (pkern s') = pe u (pkern s)"
  shows "data_ok f pe w s'"
proof -
  have lt: "c < paccepted s" if "pconn s e = Some c" for e c
    using assms(1) that unfolding hand_ok_def fifo_def by blast
  have wf: "worker_fd s' = worker_fd s" using worker_fd_cong [OF assms(4)] .
  have own: "data_pc f pe w (pkern s') (pout s' c) (pdata s' c) pc"
    if a: "pworker s i = Some pc" "pc_fd pc = Some e" "pconn s' e = Some c" for i pc e c
  proof -
    obtain c' where "pconn s e = Some c'" using hand_conn(1) [OF assms(1) a(1,2)] by blast
    then have "e \<noteq> fd" using assms(3) by auto
    then have e: "e \<noteq> fd" "pconn s e = Some c" using assms(5) a(3) by simp_all
    then have "c \<noteq> paccepted s" using lt by blast
    then show ?thesis
      using data_pc_frame [OF data_worker [OF assms(2) a(1,2) e(2)], of fd] e(1) a(2) assms(7-10) by simp
  qed
  have free: "pout s' c = [] \<and> w (pkern s') e = pdata s' c"
    if "pconn s' e = Some c" "\<forall>i. worker_fd s i \<noteq> Some e" for e c
  proof (cases "e = fd")
    case True
    then show ?thesis using that(1) assms(2,5,7,8) unfolding data_ok_def by auto
  next
    case False
    then have "pconn s e = Some c" using that(1) assms(5) by simp
    then show ?thesis using lt [of e c] False that(2) assms(2,7-9) unfolding data_ok_def by auto
  qed
  have ran: "ran (pconn s') = insert (paccepted s) (ran (pconn s))"
    using assms(3,5) by (auto simp: ran_map_upd)
  show ?thesis unfolding data_ok_def
    using own free ran wf assms(2,4,6-8) unfolding data_ok_def by (auto simp: less_Suc_eq)
qed

section \<open>The server\<close>

locale prethread = rio_reader api fd_of pending wire + semaphore sa val +
    bounded_queue sb sb_ok contents capacity
  for api :: "('r, 'k) rio_api" and fd_of and pending and wire and sa :: "'s sem_api" and val
    and sb :: "'b sbuf_api" and sb_ok and contents and capacity
begin

definition pre_inv :: "('r, 'k, 's, 'b) pre_sys \<Rightarrow> bool" where
  "pre_inv s \<longleftrightarrow> pstop s \<noteq> Wrong \<and> sb_ok (psbuf s) \<and> hand_ok s (contents (psbuf s)) \<and>
     data_ok fd_of pending wire s \<and> (\<exists>g q e ns. count_ok val s g q e ns)"

lemma pre_invI:
  assumes "pstop s \<noteq> Wrong" "sb_ok (psbuf s)" "hand_ok s (contents (psbuf s))"
    and "data_ok fd_of pending wire s" "\<exists>g q e ns. count_ok val s g q e ns"
  shows "pre_inv s"
  using assms by (simp add: pre_inv_def)

lemma pre_invD:
  assumes "pre_inv s"
  shows "pstop s \<noteq> Wrong" "sb_ok (psbuf s)" "hand_ok s (contents (psbuf s))"
    and "data_ok fd_of pending wire s" "\<exists>g q e ns. count_ok val s g q e ns"
  using assms by (simp_all add: pre_inv_def)

lemma pre_inv_gone: "pre_inv s \<Longrightarrow> pre_inv (s\<lparr>pstop := Gone\<rparr>)"
proof -
  assume i: "pre_inv s"
  then obtain g q e ns where "count_ok val s g q e ns" using pre_invD(5) by blast
  then have "count_ok val (s\<lparr>pstop := Gone\<rparr>) g q e ns" by (rule count_same) simp_all
  moreover have "hand_ok (s\<lparr>pstop := Gone\<rparr>) (contents (psbuf s))"
    by (rule hand_same [OF pre_invD(3) [OF i]]) simp_all
  moreover have "data_ok fd_of pending wire (s\<lparr>pstop := Gone\<rparr>)"
    by (rule data_same [OF pre_invD(4) [OF i]]) simp_all
  ultimately show ?thesis using pre_invD(2) [OF i] by (intro pre_invI) auto
qed

lemma pre_inv_outer:
  assumes "pre_inv s" "pworker s i = Some pc" "thread_outer sb i pc s = Some s'"
  shows "pre_inv s'"
proof -
  note inv = pre_invD [OF assms(1)]
  obtain g q e ns where "count_ok val s g q e ns" using inv(5) by blast
  from count_outer [OF this assms(2,3)] have cnt: "\<exists>g q e ns. count_ok val s' g q e ns" by blast
  show ?thesis
  proof (cases pc)
    case K_Detach
    then have s': "s' = set_pc i K_Remove s" using assms(3) by simp
    have w: "worker_fd s i = None" using assms(2) K_Detach by (simp add: worker_fd_def)
    show ?thesis
    proof (rule pre_invI [OF _ _ _ _ cnt])
      show "hand_ok s' (contents (psbuf s'))"
        using hand_move [OF inv(3) assms(2), of K_Remove s'] K_Detach by (simp add: s' set_pc_def)
      show "data_ok fd_of pending wire s'"
        by (rule data_idle [OF inv(4) w, of K_Remove]) (simp_all add: s' set_pc_def)
    qed (use inv in \<open>simp_all add: s' set_pc_def\<close>)
  next
    case K_Remove
    then obtain connfd b where rm: "sbuf_remove sb (psbuf s) = Some (connfd, b)"
      and s': "s' = set_pc i (K_Once connfd) (s\<lparr>psbuf := b, taken := taken s @ [(i, pconn s connfd)]\<rparr>)"
      using assms(3) by (auto split: option.splits)
    have laws: "sb_ok b" "contents (psbuf s) = connfd # contents b" using remove_laws [OF inv(2) rm] by auto
    have h: "hand_ok s (connfd # contents b)" using inv(3) laws(2) by simp
    have w: "pworker s i = Some K_Remove" using assms(2) K_Remove by simp
    show ?thesis
    proof (rule pre_invI [OF _ _ _ _ cnt])
      show "hand_ok s' (contents (psbuf s'))"
        using hand_remove [OF h w, of s'] by (simp add: s' set_pc_def)
      show "data_ok fd_of pending wire s'"
        by (rule data_remove [OF h inv(4) w]) (simp_all add: s' set_pc_def)
    qed (use inv laws in \<open>simp_all add: s' set_pc_def\<close>)
  next
    case (K_Close fd)
    have w: "pworker s i = Some (K_Close fd)" using assms(2) K_Close by simp
    have "pconn s fd \<noteq> None" using hand_conn(1) [OF inv(3) w] by auto
    then have s': "s' = set_pc i K_Remove (s\<lparr>pconn := (pconn s)(fd := None)\<rparr>)"
      using assms(3) K_Close by (auto split: if_splits)
    show ?thesis
    proof (rule pre_invI [OF _ _ _ _ cnt])
      show "hand_ok s' (contents (psbuf s'))"
        using hand_close [OF inv(3) w, of s'] by (simp add: s' set_pc_def)
      show "data_ok fd_of pending wire s'"
        by (rule data_close [OF inv(3,4) w]) (simp_all add: s' set_pc_def)
    qed (use inv in \<open>simp_all add: s' set_pc_def\<close>)
  qed (use assms(3) in simp_all)
qed

text \<open>What a step of \<open>echo_cnt\<close> has to show besides the counter.\<close>

lemma pre_inv_move:
  assumes "pre_inv s" "pworker s i = Some pc" "pc_fd pc = Some fd" "pconn s fd = Some c"
    and "pworker s' = (pworker s)(i \<mapsto> pc')" "pc_fd pc' = Some fd" "pout s' = (pout s)(c := out)"
    and "pconn s' = pconn s \<and> paccepted s' = paccepted s \<and> pdata s' = pdata s \<and> pmain s' = pmain s \<and>
      taken s' = taken s \<and> psbuf s' = psbuf s \<and> pstop s' = pstop s"
    and "\<And>e. e \<noteq> fd \<Longrightarrow> wire (pkern s') e = wire (pkern s) e"
    and "\<And>u. fd_of u \<noteq> fd \<Longrightarrow> pending u (pkern s') = pending u (pkern s)"
    and "data_pc fd_of pending wire (pkern s') out (pdata s c) pc'"
    and "\<exists>g q e ns. count_ok val s' g q e ns"
  shows "pre_inv s'"
proof (rule pre_invI [OF _ _ _ _ assms(12)])
  note inv = pre_invD [OF assms(1)]
  show "hand_ok s' (contents (psbuf s'))"
    using hand_move [OF inv(3) assms(2), of pc' s'] assms(3,5,6,8) by simp
  show "data_ok fd_of pending wire s'"
    using data_move [OF inv(3,4) assms(2,3,4,5,6) _ _ _ assms(7,9,10,11)] assms(8) by simp
qed (use assms(8) pre_invD [OF assms(1)] in simp_all)

lemma pre_inv_once:
  assumes "pre_inv s" "pworker s i = Some pc" "init_echo_cnt sa i pc s = Some s'"
  shows "pre_inv s'"
proof -
  note inv = pre_invD [OF assms(1)]
  obtain g q e ns where "count_ok val s g q e ns" using inv(5) by blast
  from count_once [OF this assms(2,3)] have cnt: "\<exists>g q e ns. count_ok val s' g q e ns" by blast
  obtain fd where pc: "pc = K_Once fd \<or> pc = K_SemInit fd \<or> pc = K_CntInit fd"
    using assms(3) by (cases pc) auto
  have "pworker s' = (pworker s)(i \<mapsto> K_SemInit fd) \<or> pworker s' = (pworker s)(i \<mapsto> K_CntInit fd) \<or>
      pworker s' = (pworker s)(i \<mapsto> K_Open fd)"
    using assms(3) pc by (auto simp: set_pc_def split: once_state.splits)
  then obtain pc' where pc': "pc' = K_SemInit fd \<or> pc' = K_CntInit fd \<or> pc' = K_Open fd"
    "pworker s' = (pworker s)(i \<mapsto> pc')" by blast
  have rest: "pout s' = pout s" "pkern s' = pkern s" "pconn s' = pconn s" "paccepted s' = paccepted s"
      "pdata s' = pdata s" "pmain s' = pmain s" "taken s' = taken s" "psbuf s' = psbuf s" "pstop s' = pstop s"
    using assms(3) pc by (auto simp: set_pc_def split: once_state.splits)
  from pc pc' have fd: "pc_fd pc = Some fd" "pc_fd pc' = Some fd" by auto
  then obtain c where c: "pconn s fd = Some c" using hand_conn(1) [OF inv(3) assms(2)] by blast
  have "data_pc fd_of pending wire (pkern s') (pout s c) (pdata s c) pc'"
    using data_worker [OF inv(4) assms(2) fd(1) c] pc pc'(1) rest(2) by auto
  then show ?thesis
    by (intro pre_inv_move [OF assms(1,2) fd(1) c pc'(2) fd(2) _ _ _ _ _ cnt]) (simp_all add: rest)
qed

lemma pre_inv_echo:
  assumes "pre_inv s" "pstop s = Going" "pworker s i = Some pc" "echo_cnt api sa up i pc s = Some s'"
  shows "pre_inv s'"
proof -
  note inv = pre_invD [OF assms(1)]
  obtain g q e ns where cn: "count_ok val s g q e ns" using inv(5) by blast
  from count_echo [OF this assms(3,4)] have cnt: "\<exists>g q e ns. count_ok val s' g q e ns" by blast
  note own = count_owner [OF cn assms(3)]
  show ?thesis
  proof (cases "pc_fd pc")
    case None
    then show ?thesis using assms(4) by (cases pc) auto
  next
    case (Some fd)
    then obtain c where c: "pconn s fd = Some c" using hand_conn(1) [OF inv(3) assms(3)] by blast
    have data: "data_pc fd_of pending wire (pkern s) (pout s c) (pdata s c) pc"
      by (rule data_worker [OF inv(4) assms(3) Some c])
    have stay: "pre_inv s'" if "s' = set_pc i pc' s1" "pc_fd pc' = Some fd"
      "data_pc fd_of pending wire (pkern s) (pout s c) (pdata s c) pc'"
      "pworker s1 = pworker s" "pkern s1 = pkern s" "pout s1 = pout s"
      "pconn s1 = pconn s \<and> paccepted s1 = paccepted s \<and> pdata s1 = pdata s \<and> pmain s1 = pmain s \<and>
        taken s1 = taken s \<and> psbuf s1 = psbuf s \<and> pstop s1 = pstop s" for pc' s1
      using that by (intro pre_inv_move [OF assms(1,3) Some c _ that(2) _ _ _ _ _ cnt]) (auto simp: set_pc_def)
    show ?thesis
    proof (cases pc)
      case (K_Open x)
      with Some have "x = fd" by simp
      with assms(4) K_Open data show ?thesis
        by (intro stay [of "K_Read fd (readinitb api fd)" s]) (auto simp: init_fd init_pending)
    next
      case (K_Read x rio)
      with Some have x: "x = fd" by simp
      obtain res rio' k where rd: "readlineb api rio (pkern s) 8192 = (res, rio', k)" by (metis prod_cases3)
      have d: "fd_of rio = fd" "pout s c @ pending rio (pkern s) = pdata s c" using data K_Read x by simp_all
      have fr: "fd_of rio' = fd" "\<And>e. e \<noteq> fd \<Longrightarrow> wire k e = wire (pkern s) e"
        "\<And>u. fd_of u \<noteq> fd \<Longrightarrow> pending u k = pending u (pkern s)"
        using fd_kept [OF rd] frame [OF rd] pending_frame [OF rd] d(1) by simp_all
      show ?thesis
      proof (cases "pending rio (pkern s) = []")
        case True
        then have "res = Eof" using eof [of 8192 rio "pkern s"] rd by simp
        then have s': "s' = set_pc i (K_Close fd) (s\<lparr>pkern := k\<rparr>)" using assms(4) K_Read rd x by simp
        show ?thesis using d(2) True fr
          by (intro pre_inv_move [OF assms(1,3) Some c, of s' "K_Close fd" "pout s c"] cnt) (auto simp: s' set_pc_def)
      next
        case False
        then have l: "res = Line (take_line 8191 (pending rio (pkern s)))"
          "pending rio' k = rest_line 8191 (pending rio (pkern s))"
          using line [of 8192 rio "pkern s"] rd by auto
        let ?pc = "K_P fd rio' (take_line 8191 (pending rio (pkern s)))"
        have s': "s' = set_pc i ?pc (s\<lparr>pkern := k\<rparr>)" using assms(4) K_Read rd l(1) x by simp
        show ?thesis using d(2) l(2) fr
          by (intro pre_inv_move [OF assms(1,3) Some c, of s' ?pc "pout s c"] cnt) (auto simp: s' set_pc_def)
      qed
    next
      case (K_P x rio buf)
      then have "cnt_mutex s \<noteq> None" using own(3) cn by (auto simp: count_ok_def)
      with assms(4) K_P obtain m' where "s' = set_pc i (K_Load x rio buf) (s\<lparr>cnt_mutex := Some m'\<rparr>)"
        by (auto split: option.splits)
      from stay [OF this] show ?thesis using Some data K_P by auto
    next
      case (K_Load x rio buf)
      with assms(4) have "s' = set_pc i (K_Store x rio buf (byte_cnt s)) s" by simp
      from stay [OF this] show ?thesis using Some data K_Load by auto
    next
      case (K_Store x rio buf tmp)
      with assms(4) have "s' = set_pc i (K_Print x rio buf) (s\<lparr>byte_cnt := tmp + of_nat (length buf)\<rparr>)" by simp
      from stay [OF this] show ?thesis using Some data K_Store by auto
    next
      case (K_Print x rio buf)
      with assms(4) have "s' = set_pc i (K_V x rio buf)
        (s\<lparr>prints := prints s @ [Stdout (echo6_message (length buf) (byte_cnt s) x)]\<rparr>)" by simp
      from stay [OF this] show ?thesis using Some data K_Print by auto
    next
      case (K_V x rio buf)
      then have "cnt_mutex s \<noteq> None" using own(3) cn by (auto simp: count_ok_def)
      with assms(4) K_V obtain m' where "s' = set_pc i (K_Write x rio buf) (s\<lparr>cnt_mutex := Some m'\<rparr>)"
        by (auto split: option.splits)
      from stay [OF this] show ?thesis using Some data K_V by auto
    next
      case (K_Write x rio buf)
      with Some have x: "x = fd" by simp
      show ?thesis
      proof (cases "up fd buf")
        case False
        then have "s' = s\<lparr>pstop := Gone\<rparr>" using assms(4) K_Write c x by simp
        then show ?thesis using pre_inv_gone [OF assms(1)] by simp
      next
        case True
        then have s': "s' = set_pc i (K_Read fd rio) (s\<lparr>pout := (pout s)(c := pout s c @ buf)\<rparr>)"
          using assms(4) K_Write c x by simp
        show ?thesis using data K_Write x
          by (intro pre_inv_move [OF assms(1,3) Some c, of s' "K_Read fd rio" "pout s c @ buf"] cnt)
            (auto simp: s' set_pc_def)
      qed
    qed (use assms(4) Some in simp_all)
  qed
qed

lemma pre_inv_create:
  assumes "pre_inv s" "pmain s = PM_Create i"
  shows "pre_inv (s\<lparr>pworker := (pworker s)(i \<mapsto> K_Detach), pmain := PM_Create (Suc i)\<rparr>)" (is "pre_inv ?s")
proof -
  note inv = pre_invD [OF assms(1)]
  have new: "pworker s i = None" using inv(3) assms(2) by (auto simp: hand_ok_def fifo_def dom_def set_eq_iff)
  then have w: "worker_fd s i = None" by (simp add: worker_fd_def)
  obtain g q e ns where "count_ok val s g q e ns" using inv(5) by blast
  then have "count_ok val ?s g q e ns" using new unfolding count_ok_def by (auto split: if_splits)
  then show ?thesis using inv hand_create [OF inv(3) assms(2)] data_idle [OF inv(4) w, of K_Detach ?s]
    by (intro pre_invI) auto
qed

lemma pre_inv_step:
  assumes "pre_step api fd_of pending wire sa sb up s s'" "pre_inv s"
  shows "pre_inv s'"
  using assms
proof (induction rule: pre_step.induct)
  case (create s i)
  then show ?case by (intro pre_inv_create)
next
  case (created s i)
  note inv = pre_invD [OF created(4)]
  obtain g q e ns where "count_ok val s g q e ns" using inv(5) by blast
  then have "count_ok val (s\<lparr>pmain := PM_Accept\<rparr>) g q e ns" by (rule count_same) simp_all
  moreover have "hand_ok (s\<lparr>pmain := PM_Accept\<rparr>) (contents (psbuf s))"
    using inv(3) created(2) worker_fd_cong [of "s\<lparr>pmain := PM_Accept\<rparr>" s]
    by (simp add: hand_ok_def fifo_def places_def) metis
  moreover have "data_ok fd_of pending wire (s\<lparr>pmain := PM_Accept\<rparr>)"
    by (rule data_same [OF inv(4)]) simp_all
  ultimately show ?case using inv by (intro pre_invI) auto
next
  case (accept s fd k)
  let ?s = "s\<lparr>pkern := k, pconn := (pconn s)(fd \<mapsto> paccepted s), paccepted := Suc (paccepted s),
         pdata := (pdata s)(paccepted s := wire k fd), pmain := PM_Insert fd\<rparr>"
  note inv = pre_invD [OF accept(7)]
  obtain g q e ns where "count_ok val s g q e ns" using inv(5) by blast
  then have "count_ok val ?s g q e ns" by (rule count_same) simp_all
  moreover have "hand_ok ?s (contents (psbuf s))"
    by (rule hand_accept [OF inv(3) accept(2,4)]) simp_all
  moreover have "data_ok fd_of pending wire ?s"
    by (rule data_accept [OF inv(3,4) accept(4)]) (use accept(5,6) in simp_all)
  ultimately show ?case using inv by (intro pre_invI) auto
next
  case (insert s fd b)
  let ?s = "s\<lparr>psbuf := b, pmain := PM_Accept\<rparr>"
  note inv = pre_invD [OF insert(4)]
  note laws = insert_laws [OF inv(2) insert(3)]
  obtain g q e ns where "count_ok val s g q e ns" using inv(5) by blast
  then have "count_ok val ?s g q e ns" by (rule count_same) simp_all
  moreover have "hand_ok ?s (contents (psbuf s) @ [fd])"
    by (rule hand_insert [OF inv(3) insert(2)]) simp_all
  moreover have "data_ok fd_of pending wire ?s"
    by (rule data_same [OF inv(4)]) simp_all
  ultimately show ?case using inv laws by (intro pre_invI) auto
qed (blast intro: pre_inv_outer pre_inv_once pre_inv_echo)+

lemma pre_reach_inv: "pre_reach api fd_of pending wire sa sb up argv s \<Longrightarrow> pre_inv s"
proof (induction rule: pre_reach.induct)
  case (init k es s)
  then have s: "s = \<lparr>pmain = PM_Create 0, psbuf = sbuf_init sb 16, pkern = k, pworker = Map.empty,
        once = ONew, cnt_mutex = None, byte_cnt = 0, pconn = Map.empty, paccepted = 0,
        pdata = (\<lambda>_. []), pout = (\<lambda>_. []), taken = [], prints = [], pstop = Going\<rparr>"
    by (auto simp: echo6_start_def SBUFSIZE_def split: if_splits)
  have laws: "sb_ok (psbuf s)" "contents (psbuf s) = []" using init_laws [of 16] by (simp_all add: s)
  have "count_ok val s None None 0 []" by (simp add: s count_ok_def)
  moreover have "places s [] Map.empty" by (simp add: s places_def worker_fd_def)
  then have "hand_ok s (contents (psbuf s))" unfolding laws hand_ok_def by (auto simp: s fifo_def)
  moreover have "data_ok fd_of pending wire s" by (simp add: s data_ok_def)
  ultimately show ?case using laws by (intro pre_invI) (auto simp: s)
next
  case (step s s')
  then show ?case by (blast intro: pre_inv_step)
qed

end

interpretation pre: prethread rio_ref rio_fd ref_pending "\<lambda>k fd. concat (k fd)" posix_sem "\<lambda>s. s"
    ring ring_ok ring_contents sb_n
  by (intro prethread.intro ref.rio_reader_axioms posix.semaphore_axioms ring.bounded_queue_axioms)

section \<open>Properties\<close>

text \<open>C13: the buffer hands the connections over in the order in which they were accepted, each to exactly
  one worker: connection \<open>n\<close> is the \<open>n\<close>-th one taken, no two workers ever hold the same
  descriptor, and no semaphore is used before it exists and no descriptor when it is not open.\<close>

theorem echo6_hand_over:
  assumes "rio_reader api fd_of pending wire" and "semaphore sa val" and "bounded_queue sb sb_ok contents capacity"
    and "pre_reach api fd_of pending wire sa sb up argv s"
  shows "map snd (taken s) = map Some [0..<length (taken s)] \<and>
    (\<forall>i j fd. worker_fd s i = Some fd \<longrightarrow> worker_fd s j = Some fd \<longrightarrow> i = j) \<and> pstop s \<noteq> Wrong"
proof -
  have p: "prethread api fd_of pending wire sa val sb sb_ok contents capacity"
    using assms(1-3) by (rule prethread.intro)
  note inv = prethread.pre_invD [OF p prethread.pre_reach_inv [OF p assms(4)]]
  obtain q where "places s (contents (psbuf s)) q" using inv(3) by (auto simp: hand_ok_def)
  then have "i = j" if "worker_fd s i = Some fd" "worker_fd s j = Some fd" for i j fd
    using placesD(3) [of s _ q i fd] placesD(3) [of s _ q j fd] that by auto
  with inv(1,3) show ?thesis by (auto simp: hand_ok_def fifo_def)
qed

text \<open>C2: every client gets its bytes back: in every interleaving of the workers, what has been written to
  a connection is a prefix of what its client sends, and all of it once the connection has been
  closed, whichever worker served it and whatever the others did in between.\<close>

theorem echo6_echoes_everything:
  assumes "rio_reader api fd_of pending wire" and "semaphore sa val" and "bounded_queue sb sb_ok contents capacity"
    and "pre_reach api fd_of pending wire sa sb up argv s" and "c < paccepted s"
  shows "prefix (pout s c) (pdata s c) \<and> (c \<notin> ran (pconn s) \<longrightarrow> pout s c = pdata s c)"
proof -
  have p: "prethread api fd_of pending wire sa val sb sb_ok contents capacity"
    using assms(1-3) by (rule prethread.intro)
  note inv = prethread.pre_invD [OF p prethread.pre_reach_inv [OF p assms(4)]]
  have "prefix (pout s c) (pdata s c)"
  proof (cases "c \<in> ran (pconn s)")
    case False
    then show ?thesis using inv(4) assms(5) unfolding data_ok_def by auto
  next
    case True
    then obtain fd where fd: "pconn s fd = Some c" by (auto simp: ran_def)
    show ?thesis
    proof (cases "\<exists>i pc. pworker s i = Some pc \<and> pc_fd pc = Some fd")
      case True
      then obtain i pc where "pworker s i = Some pc" "pc_fd pc = Some fd" by blast
      with data_pc_prefix [OF data_worker [OF inv(4) this fd]] show ?thesis by blast
    next
      case False
      then have "\<forall>i. worker_fd s i \<noteq> Some fd" by (auto simp: worker_fd_def split: option.splits)
      then show ?thesis using inv(4) fd unfolding data_ok_def by auto
    qed
  qed
  then show ?thesis using inv(4) assms(5) unfolding data_ok_def by auto
qed

text \<open>C5: the counter is right under any interleaving: at most one worker is between \<open>P\<close> and \<open>V\<close>, the
  messages report running totals of the lines in the order in which they were counted, and
  whenever no worker is between \<open>P\<close> and \<open>V\<close>, \<open>byte_cnt\<close> is the number of bytes reported so far
  (modulo the width of \<open>int\<close>).\<close>

theorem echo6_counter:
  assumes "rio_reader api fd_of pending wire" and "semaphore sa val" and "bounded_queue sb sb_ok contents capacity"
    and "pre_reach api fd_of pending wire sa sb up argv s"
  shows "(\<forall>i j pc pc'. pworker s i = Some pc \<longrightarrow> pworker s j = Some pc' \<longrightarrow> in_mutex pc \<longrightarrow> in_mutex pc' \<longrightarrow> i = j) \<and>
    (\<exists>ns. prints s = receipts 0 ns \<and>
       ((\<forall>i pc. pworker s i = Some pc \<longrightarrow> \<not> in_mutex pc) \<longrightarrow> once s = ODone \<longrightarrow>
          byte_cnt s = of_nat (sum_list (map fst ns))))"
proof -
  have p: "prethread api fd_of pending wire sa val sb sb_ok contents capacity"
    using assms(1-3) by (rule prethread.intro)
  obtain g q e ns where c: "count_ok val s g q e ns"
    using prethread.pre_invD(5) [OF p prethread.pre_reach_inv [OF p assms(4)]] by blast
  have "i = j" if "pworker s i = Some pc" "pworker s j = Some pc'" "in_mutex pc" "in_mutex pc'" for i j pc pc'
    using count_owner(1) [OF c that(1)] count_owner(1) [OF c that(2)] that(3,4) by simp
  moreover have "g = None" if "\<forall>i pc. pworker s i = Some pc \<longrightarrow> \<not> in_mutex pc"
  proof (rule ccontr)
    assume "g \<noteq> None"
    then obtain i pc where "g = Some i" "pworker s i = Some pc" using c unfolding count_ok_def by fastforce
    with count_owner(1) [OF c] that show False by blast
  qed
  then have "prints s = receipts 0 ns \<and>
       ((\<forall>i pc. pworker s i = Some pc \<longrightarrow> \<not> in_mutex pc) \<longrightarrow> once s = ODone \<longrightarrow>
          byte_cnt s = of_nat (sum_list (map fst ns)))"
    using c unfolding count_ok_def by auto
  ultimately show ?thesis by blast
qed

section \<open>A run\<close>

text \<open>One connection whose client sends an empty line, from \<open>Accept\<close> to \<open>Close\<close>.\<close>

abbreviation echo6_reach :: "(rio_t, chunks, nat, sbuf_t) pre_sys \<Rightarrow> bool" where
  "echo6_reach \<equiv> pre_reach rio_ref rio_fd ref_pending (\<lambda>k fd. concat (k fd)) posix_sem ring (\<lambda>fd bs. True)
     [''echo6'', ''80'']"

definition echo6_init :: "(rio_t, chunks, nat, sbuf_t) pre_sys" where
  "echo6_init = \<lparr>pmain = PM_Accept, psbuf = sbuf_init ring SBUFSIZE, pkern = (\<lambda>_. []),
     pworker = [0 \<mapsto> K_Detach, 1 \<mapsto> K_Detach, 2 \<mapsto> K_Detach, 3 \<mapsto> K_Detach],
     once = ONew, cnt_mutex = None, byte_cnt = 0, pconn = Map.empty, paccepted = 0,
     pdata = (\<lambda>_. []), pout = (\<lambda>_. []), taken = [], prints = [], pstop = Going\<rparr>"

lemma reach_echo6_init: "echo6_reach echo6_init"
proof -
  let ?s = "\<lambda>i t. echo6_init\<lparr>pmain := PM_Create i, pworker := t\<rparr>"
  have cr: "echo6_reach (?s (Suc i) (t(i \<mapsto> K_Detach)))" if "echo6_reach (?s i t)" "i < 4" for i t
    using pre_reach.step [OF that(1) pre_step.create [of "?s i t" i]] that(2)
    by (simp add: NTHREADS_def echo6_init_def)
  have "echo6_reach (?s 0 Map.empty)"
    by (rule pre_reach.init [where k = "\<lambda>_. []"]) (simp add: echo6_start_def echo6_init_def)
  from cr [OF cr [OF cr [OF cr [OF this]]]]
  have "echo6_reach (?s 4 (pworker echo6_init))"
    by (simp add: echo6_init_def eval_nat_numeral)
  from pre_reach.step [OF this pre_step.created [of _ 4]] show ?thesis
    by (simp add: NTHREADS_def echo6_init_def)
qed

lemma run_outer: "echo6_reach s \<Longrightarrow> pstop s = Going \<Longrightarrow> thread_outer ring i pc s = Some s' \<Longrightarrow>
    pworker s i = Some pc \<Longrightarrow> echo6_reach s'"
  by (blast intro: pre_reach.step pre_step.outer)

lemma run_once: "echo6_reach s \<Longrightarrow> pstop s = Going \<Longrightarrow> init_echo_cnt posix_sem i pc s = Some s' \<Longrightarrow>
    pworker s i = Some pc \<Longrightarrow> echo6_reach s'"
  by (blast intro: pre_reach.step pre_step.once)

lemma run_echo: "echo6_reach s \<Longrightarrow> pstop s = Going \<Longrightarrow>
    echo_cnt rio_ref posix_sem (\<lambda>fd bs. True) i pc s = Some s' \<Longrightarrow> pworker s i = Some pc \<Longrightarrow> echo6_reach s'"
  by (blast intro: pre_reach.step pre_step.echo)

definition ring_one :: sbuf_t where
  "ring_one = (sbuf_init ring SBUFSIZE)\<lparr>sb_buf := (replicate 16 0)[1 := 4], sb_rear := 1, sb_slots := 15, sb_items := 1\<rparr>"

definition ring_zero :: sbuf_t where
  "ring_zero = ring_one\<lparr>sb_front := 1, sb_slots := 16, sb_items := 0\<rparr>"

lemma ring_insert_one: "sbuf_insert ring (sbuf_init ring SBUFSIZE) 4 = Some ring_one"
  by (simp add: ring_def ring_insert_def ring_one_def SBUFSIZE_def)

lemma ring_remove_one: "sbuf_remove ring ring_one = Some (4, ring_zero)"
  by (simp add: ring_def ring_remove_def ring_one_def ring_zero_def SBUFSIZE_def)

definition rio_lf :: rio_t where
  "rio_lf = \<lparr>rio_fd = 4, rio_cnt = 0, rio_bufptr = 1, rio_buf = [LF]\<rparr>"

lemma read_lf: "readlineb rio_ref (readinitb rio_ref 4) (on_wire 4 [LF]) 8192 = (Line [LF], rio_lf, on_wire 4 [])"
proof -
  have "rio_take_line (Suc n) (readinitb rio_ref 4) (on_wire 4 [LF]) = ([LF], rio_lf, on_wire 4 [])" for n
    by (simp add: rio_ref_def rio_fill_def unread_def on_wire_def rio_lf_def)
  from this [of 8190] show ?thesis by (simp add: rio_ref_def)
qed

lemma read_eof: "readlineb rio_ref rio_lf (on_wire 4 []) 8192 = (Eof, rio_lf, (\<lambda>_. []))"
proof -
  have "rio_take_line (Suc n) rio_lf (on_wire 4 []) = ([], rio_lf, (\<lambda>_. []))" for n
    by (auto simp: rio_fill_def unread_def on_wire_def rio_lf_def)
  from this [of 8190] show ?thesis by (simp add: rio_ref_def)
qed

text \<open>Worker 0 at \<open>pc\<close>, after connection 0 was taken out of the buffer.\<close>

definition echo6_at :: "rio_t echo_pc \<Rightarrow> (rio_t, chunks, nat, sbuf_t) pre_sys" where
  "echo6_at pc = echo6_init\<lparr>psbuf := ring_zero, pkern := on_wire 4 [LF], pworker := (pworker echo6_init)(0 \<mapsto> pc),
     pconn := [4 \<mapsto> 0], paccepted := 1, pdata := (\<lambda>_. [])(0 := [LF]), taken := [(0, Some 0)]\<rparr>"

lemma reach_echo6_taken: "echo6_reach (echo6_at (K_Once 4))"
proof -
  note steps = echo6_init_def set_pc_def
  let ?s = "\<lambda>b m t. echo6_init\<lparr>psbuf := b, pmain := m, pkern := on_wire 4 [LF], pworker := t,
      pconn := [4 \<mapsto> 0], paccepted := 1, pdata := (\<lambda>_. [])(0 := [LF])\<rparr>"
  have "pre_step rio_ref rio_fd ref_pending (\<lambda>k fd. concat (k fd)) posix_sem ring (\<lambda>fd bs. True) echo6_init
      (echo6_init\<lparr>pkern := on_wire 4 [LF], pconn := (pconn echo6_init)(4 \<mapsto> paccepted echo6_init),
         paccepted := Suc (paccepted echo6_init),
         pdata := (pdata echo6_init)(paccepted echo6_init := concat (on_wire 4 [LF] 4)), pmain := PM_Insert 4\<rparr>)"
    by (rule pre_step.accept) (simp_all add: echo6_init_def on_wire_def ref_pending_def)
  from pre_reach.step [OF reach_echo6_init this]
  have "echo6_reach (?s (sbuf_init ring SBUFSIZE) (PM_Insert 4) (pworker echo6_init))"
    by (simp add: echo6_init_def)
  from pre_reach.step [OF this pre_step.insert [of _ 4 _ ring_one]]
  have "echo6_reach (?s ring_one PM_Accept (pworker echo6_init))"
    using ring_insert_one by (simp add: echo6_init_def)
  then have "echo6_reach (?s ring_one PM_Accept ((pworker echo6_init)(0 \<mapsto> K_Remove)))"
    by (rule run_outer [where i = 0 and pc = K_Detach]) (simp_all add: steps)
  then show ?thesis
    by (rule run_outer [where i = 0 and pc = K_Remove]) (simp_all add: steps ring_remove_one echo6_at_def)
qed

definition echo6_closed :: "(rio_t, chunks, nat, sbuf_t) pre_sys" where
  "echo6_closed = (echo6_at K_Remove)\<lparr>pkern := (\<lambda>_. []), once := ODone, cnt_mutex := Some 1, byte_cnt := 1,
     pconn := Map.empty, pout := (\<lambda>_. [])(0 := [LF]), prints := [Stdout (echo6_message 1 1 4)]\<rparr>"

lemma reach_echo6_closed: "echo6_reach echo6_closed"
proof -
  note steps = echo6_init_def set_pc_def echo6_at_def posix_sem_def
  let ?d = "\<lambda>pc. (echo6_at pc)\<lparr>once := ODone, cnt_mutex := Some 1\<rparr>"
  let ?m = "\<lambda>pc. (echo6_at pc)\<lparr>once := ODone, cnt_mutex := Some 0, pkern := on_wire 4 []\<rparr>"
  let ?p = "\<lambda>pc v. (?m pc)\<lparr>byte_cnt := 1, cnt_mutex := Some v, prints := [Stdout (echo6_message 1 1 4)]\<rparr>"
  have "echo6_reach ((echo6_at (K_SemInit 4))\<lparr>once := ORunning\<rparr>)"
    by (rule run_once [OF reach_echo6_taken, where i = 0 and pc = "K_Once 4"]) (simp_all add: steps)
  then have "echo6_reach ((echo6_at (K_CntInit 4))\<lparr>once := ORunning, cnt_mutex := Some 1\<rparr>)"
    by (rule run_once [where i = 0 and pc = "K_SemInit 4"]) (simp_all add: steps)
  then have "echo6_reach (?d (K_Open 4))"
    by (rule run_once [where i = 0 and pc = "K_CntInit 4"]) (simp_all add: steps)
  then have "echo6_reach (?d (K_Read 4 (readinitb rio_ref 4)))"
    by (rule run_echo [where i = 0 and pc = "K_Open 4"]) (simp_all add: steps)
  then have "echo6_reach ((?d (K_P 4 rio_lf [LF]))\<lparr>pkern := on_wire 4 []\<rparr>)"
    by (rule run_echo [where i = 0 and pc = "K_Read 4 (readinitb rio_ref 4)"]) (simp_all add: steps read_lf)
  then have "echo6_reach (?m (K_Load 4 rio_lf [LF]))"
    by (rule run_echo [where i = 0 and pc = "K_P 4 rio_lf [LF]"]) (simp_all add: steps)
  then have "echo6_reach (?m (K_Store 4 rio_lf [LF] 0))"
    by (rule run_echo [where i = 0 and pc = "K_Load 4 rio_lf [LF]"]) (simp_all add: steps)
  then have "echo6_reach ((?m (K_Print 4 rio_lf [LF]))\<lparr>byte_cnt := 1\<rparr>)"
    by (rule run_echo [where i = 0 and pc = "K_Store 4 rio_lf [LF] 0"]) (simp_all add: steps)
  then have "echo6_reach (?p (K_V 4 rio_lf [LF]) 0)"
    by (rule run_echo [where i = 0 and pc = "K_Print 4 rio_lf [LF]"]) (simp_all add: steps)
  then have "echo6_reach (?p (K_Write 4 rio_lf [LF]) 1)"
    by (rule run_echo [where i = 0 and pc = "K_V 4 rio_lf [LF]"]) (simp_all add: steps)
  then have "echo6_reach ((?p (K_Read 4 rio_lf) 1)\<lparr>pout := (\<lambda>_. [])(0 := [LF])\<rparr>)"
    by (rule run_echo [where i = 0 and pc = "K_Write 4 rio_lf [LF]"]) (simp_all add: steps)
  then have "echo6_reach ((?p (K_Close 4) 1)\<lparr>pout := (\<lambda>_. [])(0 := [LF]), pkern := (\<lambda>_. [])\<rparr>)"
    by (rule run_echo [where i = 0 and pc = "K_Read 4 rio_lf"]) (simp_all add: steps read_eof)
  then show ?thesis
    by (rule run_outer [where i = 0 and pc = "K_Close 4"]) (simp_all add: steps echo6_closed_def)
qed

theorem echo6_hand_over_witness: "map snd (taken echo6_closed) = map Some [0..<length (taken echo6_closed)]"
  using echo6_hand_over [OF ref.rio_reader_axioms posix.semaphore_axioms ring.bounded_queue_axioms reach_echo6_closed]
  by blast

theorem echo6_echoes_everything_witness: "pout echo6_closed 0 = pdata echo6_closed 0 \<and> pdata echo6_closed 0 = [LF]"
proof -
  have "0 < paccepted echo6_closed" "0 \<notin> ran (pconn echo6_closed)" "pdata echo6_closed 0 = [LF]"
    by (simp_all add: echo6_closed_def echo6_at_def)
  with echo6_echoes_everything [OF ref.rio_reader_axioms posix.semaphore_axioms ring.bounded_queue_axioms
      reach_echo6_closed, of 0] show ?thesis by blast
qed

theorem echo6_counter_witness: "\<exists>ns. prints echo6_closed = receipts 0 ns"
  using echo6_counter [OF ref.rio_reader_axioms posix.semaphore_axioms ring.bounded_queue_axioms reach_echo6_closed]
  by blast

end
