(* ===== verification/EchoPrethreadLive.thy ===== *)
theory EchoPrethreadLive
  imports EchoPrethread Systems
begin

text \<open>
  The prethreaded echo server does not get stuck: as long as nobody connects, every run ends, and
  it ends with all accepted connections served and closed, whatever the threads wait for in
  between: a slot or an item of the buffer, the thread that runs \<open>init_echo_cnt\<close>, the mutex.
\<close>

section \<open>The work that is left\<close>

text \<open>A step of any thread that is no \<open>accept\<close>.\<close>

definition pre_quiet :: "('r, 'k) rio_api \<Rightarrow> ('r \<Rightarrow> int) \<Rightarrow> ('r \<Rightarrow> 'k \<Rightarrow> bytes) \<Rightarrow> ('k \<Rightarrow> int \<Rightarrow> bytes) \<Rightarrow>
    's sem_api \<Rightarrow> 'b sbuf_api \<Rightarrow> (int \<Rightarrow> bytes \<Rightarrow> bool) \<Rightarrow> ('r, 'k, 's, 'b) pre_sys \<Rightarrow> ('r, 'k, 's, 'b) pre_sys \<Rightarrow> bool" where
  "pre_quiet api fd_of pending wire sa sb up s s' \<longleftrightarrow>
     pre_step api fd_of pending wire sa sb up s s' \<and> paccepted s' = paccepted s"

text \<open>
  A line takes seven steps and is at least one byte long. \<open>L\<close> gives the bytes that wait on a
  descriptor, \<open>R\<close> those that wait for a reader.
\<close>

fun echo_pc_work :: "(int \<Rightarrow> nat) \<Rightarrow> ('r \<Rightarrow> nat) \<Rightarrow> 'r echo_pc \<Rightarrow> nat" where
  "echo_pc_work L R K_Detach = 1"
| "echo_pc_work L R K_Remove = 0"
| "echo_pc_work L R (K_Once fd) = 7 * L fd + 6"
| "echo_pc_work L R (K_SemInit fd) = 7 * L fd + 5"
| "echo_pc_work L R (K_CntInit fd) = 7 * L fd + 4"
| "echo_pc_work L R (K_Open fd) = 7 * L fd + 3"
| "echo_pc_work L R (K_Read fd rio) = 7 * R rio + 2"
| "echo_pc_work L R (K_P fd rio buf) = 7 * R rio + 8"
| "echo_pc_work L R (K_Load fd rio buf) = 7 * R rio + 7"
| "echo_pc_work L R (K_Store fd rio buf tmp) = 7 * R rio + 6"
| "echo_pc_work L R (K_Print fd rio buf) = 7 * R rio + 5"
| "echo_pc_work L R (K_V fd rio buf) = 7 * R rio + 4"
| "echo_pc_work L R (K_Write fd rio buf) = 7 * R rio + 3"
| "echo_pc_work L R (K_Close fd) = 1"

fun main_pc_work :: "(int \<Rightarrow> nat) \<Rightarrow> pre_pc \<Rightarrow> nat" where
  "main_pc_work L (PM_Create i) = 2 * (NTHREADS - i) + 1"
| "main_pc_work L PM_Accept = 0"
| "main_pc_work L (PM_Insert fd) = 7 * L fd + 8"

definition workers_work :: "(int \<Rightarrow> nat) \<Rightarrow> ('r \<Rightarrow> nat) \<Rightarrow> (nat \<rightharpoonup> 'r echo_pc) \<Rightarrow> nat" where
  "workers_work L R t = (\<Sum>i < NTHREADS. case t i of None \<Rightarrow> 0 | Some pc \<Rightarrow> echo_pc_work L R pc)"

lemma workers_work_upd:
  assumes "i < NTHREADS"
  shows "workers_work L R (t(i \<mapsto> pc)) + (case t i of None \<Rightarrow> 0 | Some pc \<Rightarrow> echo_pc_work L R pc) =
    workers_work L R t + echo_pc_work L R pc"
proof -
  have "workers_work L R u = (case u i of None \<Rightarrow> 0 | Some pc \<Rightarrow> echo_pc_work L R pc) +
      (\<Sum>j \<in> {..<NTHREADS} - {i}. case u j of None \<Rightarrow> 0 | Some pc \<Rightarrow> echo_pc_work L R pc)" for u
    unfolding workers_work_def using assms by (simp add: sum.remove [where x = i])
  from this [of t] this [of "t(i \<mapsto> pc)"] show ?thesis by simp
qed

lemma workers_work_cong:
  assumes "\<And>i pc. t i = Some pc \<Longrightarrow> echo_pc_work L' R' pc = echo_pc_work L R pc"
  shows "workers_work L' R' t = workers_work L R t"
  unfolding workers_work_def by (rule sum.cong) (use assms in \<open>auto split: option.split\<close>)

text \<open>Reading on one descriptor leaves the work on the others.\<close>

lemma echo_pc_work_frame:
  assumes "data_pc f pe w k out d pc" "pc_fd pc \<noteq> Some fd"
    and "\<And>e. e \<noteq> fd \<Longrightarrow> w k' e = w k e" "\<And>u. f u \<noteq> fd \<Longrightarrow> pe u k' = pe u k"
  shows "echo_pc_work (\<lambda>e. length (w k' e)) (\<lambda>r. length (pe r k')) pc =
    echo_pc_work (\<lambda>e. length (w k e)) (\<lambda>r. length (pe r k)) pc"
  using assms by (cases pc) auto

section \<open>Who can move\<close>

text \<open>A thread in the critical section or in \<open>init_echo_cnt\<close> is never blocked.\<close>

definition worker_moves :: "('r, 'k) rio_api \<Rightarrow> 's sem_api \<Rightarrow> 'b sbuf_api \<Rightarrow> (int \<Rightarrow> bytes \<Rightarrow> bool) \<Rightarrow>
    nat \<Rightarrow> 'r echo_pc \<Rightarrow> ('r, 'k, 's, 'b) pre_sys \<Rightarrow> bool" where
  "worker_moves api sa sb up i pc s \<longleftrightarrow> thread_outer sb i pc s \<noteq> None \<or> init_echo_cnt sa i pc s \<noteq> None \<or>
     echo_cnt api sa up i pc s \<noteq> None"

lemma worker_moves_cases:
  assumes "\<not> worker_moves api sa sb up i pc s"
  shows "pc = K_Remove \<and> sbuf_remove sb (psbuf s) = None \<or> (\<exists>fd. pc = K_Once fd \<and> once s = ORunning) \<or>
    (\<exists>fd rio buf m. pc = K_P fd rio buf \<and> cnt_mutex s = Some m \<and> semP sa m = None)"
proof (cases pc)
  case (K_Read fd rio)
  then show ?thesis using assms by (auto simp: worker_moves_def split: prod.splits)
qed (use assms in \<open>auto simp: worker_moves_def split: option.splits prod.splits once_state.splits if_splits\<close>)

lemma holder_moves: "in_mutex pc \<or> in_init pc \<Longrightarrow> worker_moves api sa sb up i pc s"
  by (rule ccontr) (auto dest!: worker_moves_cases)

text \<open>What no step of a worker touches.\<close>

lemma worker_frame:
  "thread_outer sb i pc s = Some s' \<Longrightarrow>
     pmain s' = pmain s \<and> paccepted s' = paccepted s \<and> pdata s' = pdata s \<and> dom (pworker s') \<subseteq> insert i (dom (pworker s))"
  "init_echo_cnt sa i pc s = Some s' \<Longrightarrow> psbuf s' = psbuf s \<and>
     pmain s' = pmain s \<and> paccepted s' = paccepted s \<and> pdata s' = pdata s \<and> dom (pworker s') \<subseteq> insert i (dom (pworker s))"
  "echo_cnt api sa up i pc s = Some s' \<Longrightarrow> psbuf s' = psbuf s \<and>
     pmain s' = pmain s \<and> paccepted s' = paccepted s \<and> pdata s' = pdata s \<and> dom (pworker s') \<subseteq> insert i (dom (pworker s))"
proof -
  show "pmain s' = pmain s \<and> paccepted s' = paccepted s \<and> pdata s' = pdata s \<and> dom (pworker s') \<subseteq> insert i (dom (pworker s))"
    if "thread_outer sb i pc s = Some s'"
    using that by (cases pc) (auto simp: set_pc_def split: option.splits if_splits)
  show "psbuf s' = psbuf s \<and>
     pmain s' = pmain s \<and> paccepted s' = paccepted s \<and> pdata s' = pdata s \<and> dom (pworker s') \<subseteq> insert i (dom (pworker s))"
    if "init_echo_cnt sa i pc s = Some s'"
    using that by (cases pc) (auto simp: set_pc_def split: once_state.splits)
  show "psbuf s' = psbuf s \<and>
     pmain s' = pmain s \<and> paccepted s' = paccepted s \<and> pdata s' = pdata s \<and> dom (pworker s') \<subseteq> insert i (dom (pworker s))"
    if "echo_cnt api sa up i pc s = Some s'"
    using that by (cases pc) (auto simp: set_pc_def split: option.splits prod.splits rl.splits if_splits)
qed


section \<open>No deadlock\<close>

context prethread
begin

definition live_inv :: "('r, 'k, 's, 'b) pre_sys \<Rightarrow> bool" where
  "live_inv s \<longleftrightarrow> pre_inv s \<and> capacity (psbuf s) = SBUFSIZE \<and> dom (pworker s) \<subseteq> {..<NTHREADS} \<and>
     (case pmain s of PM_Create i \<Rightarrow> i \<le> NTHREADS | _ \<Rightarrow> dom (pworker s) = {..<NTHREADS})"

definition waiting_on :: "'k \<Rightarrow> int \<Rightarrow> nat" where
  "waiting_on k fd = length (wire k fd)"

definition waiting_for :: "'k \<Rightarrow> 'r \<Rightarrow> nat" where
  "waiting_for k r = length (pending r k)"

definition pre_work :: "('r, 'k, 's, 'b) pre_sys \<Rightarrow> nat" where
  "pre_work s = main_pc_work (waiting_on (pkern s)) (pmain s) +
     sum_list (map (\<lambda>fd. 7 * waiting_on (pkern s) fd + 7) (contents (psbuf s))) +
     workers_work (waiting_on (pkern s)) (waiting_for (pkern s)) (pworker s) + (if pstop s = Going then 1 else 0)"

definition all_served :: "('r, 'k, 's, 'b) pre_sys \<Rightarrow> bool" where
  "all_served s \<longleftrightarrow> pmain s = PM_Accept \<and> contents (psbuf s) = [] \<and> (\<forall>i < NTHREADS. pworker s i = Some K_Remove)"

text \<open>The step of a worker that leaves the kernel alone.\<close>

lemma work_still:
  assumes "pworker s i = Some pc" "i < NTHREADS" "pworker s' = (pworker s)(i \<mapsto> pc')"
    and "pkern s' = pkern s" "pmain s' = pmain s" "psbuf s' = psbuf s" "pstop s' = pstop s"
    and "echo_pc_work (waiting_on (pkern s)) (waiting_for (pkern s)) pc' < echo_pc_work (waiting_on (pkern s)) (waiting_for (pkern s)) pc"
  shows "pre_work s' < pre_work s"
  using workers_work_upd [OF assms(2), of "waiting_on (pkern s)" "waiting_for (pkern s)" "pworker s" pc'] assms
  by (simp add: pre_work_def)

text \<open>The step that reads: the descriptor is with this worker alone.\<close>

lemma work_read:
  assumes inv: "pre_inv s" and w: "pworker s i = Some pc" "i < NTHREADS" "pc_fd pc = Some fd"
    and s': "s' = set_pc i pc' (s\<lparr>pkern := k\<rparr>)"
    and fr: "\<And>e. e \<noteq> fd \<Longrightarrow> wire k e = wire (pkern s) e" "\<And>u. fd_of u \<noteq> fd \<Longrightarrow> pending u k = pending u (pkern s)"
    and less: "echo_pc_work (waiting_on k) (waiting_for k) pc' < echo_pc_work (waiting_on (pkern s)) (waiting_for (pkern s)) pc"
  shows "pre_work s' < pre_work s"
proof -
  note I = pre_invD [OF inv]
  obtain p where p: "places s (contents (psbuf s)) p" using I(3) by (auto simp: hand_ok_def)
  have wi: "worker_fd s i = Some fd" using w by (simp add: worker_fd_def)
  then have at: "p fd = Some (At i)" using placesD(3) [OF p, of i fd] by simp
  have other: "echo_pc_work (waiting_on k) (waiting_for k) q =
      echo_pc_work (waiting_on (pkern s)) (waiting_for (pkern s)) q" if j: "pworker s j = Some q" "j \<noteq> i" for j q
  proof (cases "pc_fd q")
    case None
    then show ?thesis by (cases q) simp_all
  next
    case (Some e)
    then have "worker_fd s j = Some e" using j(1) by (simp add: worker_fd_def)
    then have "e \<noteq> fd" using hand_conn(2) [OF I(3) w(1,3), of j] j(2) by blast
    obtain c where "pconn s e = Some c" using hand_conn(1) [OF I(3) j(1) Some] by blast
    note d = data_worker [OF I(4) j(1) Some this]
    show ?thesis unfolding waiting_on_def [abs_def] waiting_for_def [abs_def]
      by (rule echo_pc_work_frame [where fd = fd, OF d]) (use Some \<open>e \<noteq> fd\<close> fr in auto)
  qed
  have n: "fd \<notin> set (contents (psbuf s))" "pmain s \<noteq> PM_Insert fd" using placesD(1,2) [OF p, of fd] at by auto
  have "waiting_on k e = waiting_on (pkern s) e" if e: "e \<in> set (contents (psbuf s))" for e
  proof -
    have "e \<noteq> fd" using n(1) e by blast
    from fr(1) [OF this] show ?thesis by (simp add: waiting_on_def)
  qed
  then have "(\<Sum>fd\<leftarrow>contents (psbuf s). 7 * waiting_on k fd + 7) = (\<Sum>fd\<leftarrow>contents (psbuf s). 7 * waiting_on (pkern s) fd + 7)"
    by (intro arg_cong [of _ _ sum_list] map_cong) simp_all
  moreover have "main_pc_work (waiting_on k) (pmain s) = main_pc_work (waiting_on (pkern s)) (pmain s)"
    using n(2) fr(1) by (cases "pmain s") (simp_all add: waiting_on_def)
  moreover have "workers_work (waiting_on k) (waiting_for k) ((pworker s)(i := None)) =
      workers_work (waiting_on (pkern s)) (waiting_for (pkern s)) ((pworker s)(i := None))"
    by (rule workers_work_cong) (use other in \<open>auto split: if_splits\<close>)
  with workers_work_upd [OF w(2), of "waiting_on k" "waiting_for k" "(pworker s)(i := None)" pc']
    workers_work_upd [OF w(2), of "waiting_on (pkern s)" "waiting_for (pkern s)" "(pworker s)(i := None)" pc] w(1) less
  have "workers_work (waiting_on k) (waiting_for k) ((pworker s)(i \<mapsto> pc')) <
      workers_work (waiting_on (pkern s)) (waiting_for (pkern s)) (pworker s)"
    by (simp add: fun_upd_idem)
  ultimately show ?thesis by (simp add: pre_work_def s' set_pc_def)
qed

lemma work_gone: "pstop s = Going \<Longrightarrow> pre_work (s\<lparr>pstop := Gone\<rparr>) < pre_work s"
  by (simp add: pre_work_def)

lemma take_line_shorter: "bs \<noteq> [] \<Longrightarrow> length (rest_line 8191 bs) < length bs"
  using rest_line_shorter [of 8191 bs] by simp

lemma work_echo:
  assumes "pre_inv s" "pstop s = Going" "pworker s i = Some pc" "i < NTHREADS" "echo_cnt api sa up i pc s = Some s'"
  shows "pre_work s' < pre_work s"
proof -
  note inv = pre_invD [OF assms(1)]
  obtain g q e ns where cn: "count_ok val s g q e ns" using inv(5) by blast
  note own = count_owner [OF cn assms(3)]
  note still = work_still [OF assms(3,4)]
  show ?thesis
  proof (cases pc)
    case (K_Open fd)
    then show ?thesis using assms(5) by (intro still) (auto simp: set_pc_def waiting_on_def waiting_for_def init_pending)
  next
    case (K_Read fd rio)
    then have fd: "pc_fd pc = Some fd" by simp
    obtain c where c: "pconn s fd = Some c" using hand_conn(1) [OF inv(3) assms(3) fd] by blast
    obtain res rio' k where rd: "readlineb api rio (pkern s) 8192 = (res, rio', k)" by (metis prod_cases3)
    have d: "fd_of rio = fd" using data_worker [OF inv(4) assms(3) fd c] K_Read by simp
    have fr: "\<And>e. e \<noteq> fd \<Longrightarrow> wire k e = wire (pkern s) e" "\<And>u. fd_of u \<noteq> fd \<Longrightarrow> pending u k = pending u (pkern s)"
      using frame [OF rd] pending_frame [OF rd] d by simp_all
    show ?thesis
    proof (cases "pending rio (pkern s) = []")
      case True
      then have "res = Eof" using eof [of 8192 rio "pkern s"] rd by simp
      then have "s' = set_pc i (K_Close fd) (s\<lparr>pkern := k\<rparr>)" using assms(5) K_Read rd by simp
      from work_read [OF assms(1,3,4) fd this fr] show ?thesis using K_Read by simp
    next
      case False
      then have l: "res = Line (take_line 8191 (pending rio (pkern s)))"
        "pending rio' k = rest_line 8191 (pending rio (pkern s))"
        using line [of 8192 rio "pkern s"] rd by auto
      have "s' = set_pc i (K_P fd rio' (take_line 8191 (pending rio (pkern s)))) (s\<lparr>pkern := k\<rparr>)"
        using assms(5) K_Read rd l(1) by simp
      from work_read [OF assms(1,3,4) fd this fr] show ?thesis
        using K_Read take_line_shorter [OF False] by (simp add: waiting_for_def l(2))
    qed
  next
    case (K_P fd rio buf)
    then have "cnt_mutex s \<noteq> None" using own(3) cn by (auto simp: count_ok_def)
    with K_P show ?thesis using assms(5) by (intro still) (auto simp: set_pc_def split: option.splits)
  next
    case (K_V fd rio buf)
    then have "cnt_mutex s \<noteq> None" using own(3) cn by (auto simp: count_ok_def)
    with K_V show ?thesis using assms(5) by (intro still) (auto simp: set_pc_def split: option.splits)
  next
    case (K_Write fd rio buf)
    then have "pc_fd pc = Some fd" by simp
    then obtain c where c: "pconn s fd = Some c" using hand_conn(1) [OF inv(3) assms(3)] by blast
    show ?thesis
    proof (cases "up fd buf")
      case True
      with K_Write c show ?thesis using assms(5) by (intro still) (auto simp: set_pc_def)
    next
      case False
      with K_Write c have "s' = s\<lparr>pstop := Gone\<rparr>" using assms(5) by simp
      then show ?thesis using work_gone assms(2) by simp
    qed
  next
    case (K_Load fd rio buf)
    then show ?thesis using assms(5) by (intro still) (auto simp: set_pc_def)
  next
    case (K_Store fd rio buf tmp)
    then show ?thesis using assms(5) by (intro still) (auto simp: set_pc_def)
  next
    case (K_Print fd rio buf)
    then show ?thesis using assms(5) by (intro still) (auto simp: set_pc_def)
  qed (use assms(5) in simp_all)
qed

lemma work_once:
  assumes "pworker s i = Some pc" "i < NTHREADS" "init_echo_cnt sa i pc s = Some s'"
  shows "pre_work s' < pre_work s"
proof (cases pc)
  case (K_Once fd)
  then show ?thesis using assms(3)
    by (cases "once s"; intro work_still [OF assms(1,2)]) (auto simp: set_pc_def)
next
  case (K_SemInit fd)
  then show ?thesis using assms(3) by (intro work_still [OF assms(1,2)]) (auto simp: set_pc_def)
next
  case (K_CntInit fd)
  then show ?thesis using assms(3) by (intro work_still [OF assms(1,2)]) (auto simp: set_pc_def)
qed (use assms(3) in simp_all)

lemma work_outer:
  assumes "pre_inv s" "pworker s i = Some pc" "i < NTHREADS" "thread_outer sb i pc s = Some s'"
  shows "pre_work s' < pre_work s"
proof (cases pc)
  case K_Detach
  then show ?thesis using assms(4) by (intro work_still [OF assms(2,3)]) (auto simp: set_pc_def)
next
  case K_Remove
  then obtain fd b where rm: "sbuf_remove sb (psbuf s) = Some (fd, b)"
    and s': "s' = set_pc i (K_Once fd) (s\<lparr>psbuf := b, taken := taken s @ [(i, pconn s fd)]\<rparr>)"
    using assms(4) by (auto split: option.splits)
  have "contents (psbuf s) = fd # contents b" using remove_laws [OF pre_invD(2) [OF assms(1)] rm] by simp
  then show ?thesis
    using workers_work_upd [OF assms(3), of "waiting_on (pkern s)" "waiting_for (pkern s)" "pworker s" "K_Once fd"] assms(2) K_Remove
    by (simp add: pre_work_def s' set_pc_def)
next
  case (K_Close fd)
  have "pconn s fd \<noteq> None" using hand_conn(1) [OF pre_invD(3) [OF assms(1)] assms(2)] K_Close by auto
  then show ?thesis using assms(4) K_Close by (intro work_still [OF assms(2,3)]) (auto simp: set_pc_def)
qed (use assms(4) in simp_all)

end


context prethread
begin

lemma quiet_cases:
  assumes "pre_quiet api fd_of pending wire sa sb up s s'"
  obtains (create) i where "pmain s = PM_Create i" "i < NTHREADS"
      "s' = s\<lparr>pworker := (pworker s)(i \<mapsto> K_Detach), pmain := PM_Create (Suc i)\<rparr>"
  | (created) i where "pmain s = PM_Create i" "\<not> i < NTHREADS" "s' = s\<lparr>pmain := PM_Accept\<rparr>"
  | (insert) fd b where "pmain s = PM_Insert fd" "sbuf_insert sb (psbuf s) fd = Some b"
      "s' = s\<lparr>psbuf := b, pmain := PM_Accept\<rparr>"
  | (outer) i pc where "pworker s i = Some pc" "thread_outer sb i pc s = Some s'"
  | (once) i pc where "pworker s i = Some pc" "init_echo_cnt sa i pc s = Some s'"
  | (echo) i pc where "pworker s i = Some pc" "echo_cnt api sa up i pc s = Some s'"
proof -
  have st: "pre_step api fd_of pending wire sa sb up s s'" and n: "paccepted s' = paccepted s"
    using assms by (auto simp: pre_quiet_def)
  from st show thesis by (cases rule: pre_step.cases) (use n that in auto)
qed

lemma quiet_going: "pre_quiet api fd_of pending wire sa sb up s s' \<Longrightarrow> pstop s = Going"
  unfolding pre_quiet_def by (auto elim: pre_step.cases)

lemma live_worker: "live_inv s \<Longrightarrow> pworker s i = Some pc \<Longrightarrow> i < NTHREADS"
  by (auto simp: live_inv_def)

lemma live_frame:
  assumes "live_inv s" "pre_inv s'" "capacity (psbuf s') = capacity (psbuf s)" "pmain s' = pmain s"
    and "dom (pworker s') = dom (pworker s)"
  shows "live_inv s'"
  using assms unfolding live_inv_def by (auto split: pre_pc.splits)

lemma live_step:
  assumes "live_inv s" "pre_quiet api fd_of pending wire sa sb up s s'"
  shows "live_inv s' \<and> pre_work s' < pre_work s"
proof -
  have inv: "pre_inv s" "capacity (psbuf s) = SBUFSIZE" "dom (pworker s) \<subseteq> {..<NTHREADS}"
    using assms(1) by (simp_all add: live_inv_def)
  have going: "pstop s = Going" by (rule quiet_going [OF assms(2)])
  have inv': "pre_inv s'" using pre_inv_step inv(1) assms(2) by (auto simp: pre_quiet_def)
  show ?thesis using assms(2)
  proof (cases rule: quiet_cases)
    case (create i)
    have new: "dom (pworker s) = {..<i}" using pre_invD(3) [OF inv(1)] create(1) by (simp add: hand_ok_def fifo_def)
    then have "pworker s i = None" by (auto simp: dom_def set_eq_iff)
    then have "pre_work s' < pre_work s"
      using create workers_work_upd [OF create(2), of "waiting_on (pkern s)" "waiting_for (pkern s)" "pworker s" K_Detach]
      by (simp add: pre_work_def)
    moreover have "live_inv s'" using inv' inv create new by (auto simp: live_inv_def)
    ultimately show ?thesis by simp
  next
    case (created i)
    have "dom (pworker s) = {..<i}" using pre_invD(3) [OF inv(1)] created(1) by (simp add: hand_ok_def fifo_def)
    moreover have "i = NTHREADS" using assms(1) created by (simp add: live_inv_def)
    ultimately show ?thesis using inv' inv created by (simp add: live_inv_def pre_work_def)
  next
    case (insert fd b)
    note laws = insert_laws [OF pre_invD(2) [OF inv(1)] insert(2)]
    then show ?thesis using assms(1) inv' insert by (simp add: live_inv_def pre_work_def)
  next
    case (outer i pc)
    note i = live_worker [OF assms(1) outer(1)]
    have "capacity (psbuf s') = capacity (psbuf s)" using outer(2) remove_laws pre_invD(2) [OF inv(1)]
      by (cases pc) (auto simp: set_pc_def split: option.splits if_splits)
    moreover have "dom (pworker s') = dom (pworker s)" using outer
      by (cases pc) (auto simp: set_pc_def split: option.splits if_splits)
    ultimately have "live_inv s'" using live_frame [OF assms(1) inv'] worker_frame(1) [OF outer(2)] by simp
    then show ?thesis using work_outer [OF inv(1) outer(1) i outer(2)] by simp
  next
    case (once i pc)
    note i = live_worker [OF assms(1) once(1)]
    have "dom (pworker s') = dom (pworker s)" using once
      by (cases pc) (auto simp: set_pc_def split: once_state.splits if_splits)
    then have "live_inv s'" using live_frame [OF assms(1) inv'] worker_frame(2) [OF once(2)] by simp
    then show ?thesis using work_once [OF once(1) i once(2)] by simp
  next
    case (echo i pc)
    note i = live_worker [OF assms(1) echo(1)]
    have "dom (pworker s') = dom (pworker s)" using echo
      by (cases pc) (auto simp: set_pc_def split: option.splits prod.splits rl.splits if_splits)
    then have "live_inv s'" using live_frame [OF assms(1) inv'] worker_frame(3) [OF echo(2)] by simp
    then show ?thesis using work_echo [OF inv(1) going echo(1) i echo(2)] by simp
  qed
qed

lemma quietI: "pre_step api fd_of pending wire sa sb up s s' \<Longrightarrow> paccepted s' = paccepted s \<Longrightarrow>
    \<exists>s'. pre_quiet api fd_of pending wire sa sb up s s'"
  by (auto simp: pre_quiet_def)

text \<open>A worker that can move gives a quiet step.\<close>

lemma moves_quiet:
  assumes "pstop s = Going" "pworker s i = Some pc" "worker_moves api sa sb up i pc s"
  shows "\<exists>s'. pre_quiet api fd_of pending wire sa sb up s s'"
proof -
  consider s' where "thread_outer sb i pc s = Some s'" | s' where "init_echo_cnt sa i pc s = Some s'"
    | s' where "echo_cnt api sa up i pc s = Some s'"
    using assms(3) by (auto simp: worker_moves_def)
  then show ?thesis
  proof cases
    case (1 s')
    show ?thesis by (rule quietI [OF pre_step.outer [OF assms(1,2) 1]]) (simp add: worker_frame(1) [OF 1])
  next
    case (2 s')
    show ?thesis by (rule quietI [OF pre_step.once [OF assms(1,2) 2]]) (simp add: worker_frame(2) [OF 2])
  next
    case (3 s')
    show ?thesis by (rule quietI [OF pre_step.echo [OF assms(1,2) 3]]) (simp add: worker_frame(3) [OF 3])
  qed
qed

text \<open>
  Whoever waits for the mutex or for \<open>init_echo_cnt\<close> waits for a worker that is not blocked; whoever
  waits for an item of the buffer waits for nobody; and the buffer is not full when all are waiting.
\<close>

lemma worker_progress:
  assumes "live_inv s" "pstop s = Going" "pworker s i = Some pc" "pc \<noteq> K_Remove"
  shows "\<exists>s'. pre_quiet api fd_of pending wire sa sb up s s'"
proof (cases "worker_moves api sa sb up i pc s")
  case False
  have inv: "pre_inv s" using assms(1) by (simp add: live_inv_def)
  obtain g q e ns where cn: "count_ok val s g q e ns" using pre_invD(5) [OF inv] by blast
  have "\<exists>j pc'. pworker s j = Some pc' \<and> (in_mutex pc' \<or> in_init pc')"
    using worker_moves_cases [OF False] assms(4)
  proof (elim disjE exE conjE)
    fix fd assume "once s = ORunning"
    then obtain j where "q = Some j" using cn by (auto simp: count_ok_def)
    then have "pworker s j \<noteq> None" using cn unfolding count_ok_def by blast
    then show ?thesis using count_owner(2) [OF cn] \<open>q = Some j\<close> by blast
  next
    fix fd rio buf m
    assume p: "pc = K_P fd rio buf" "cnt_mutex s = Some m" "semP sa m = None"
    then have "once s = ODone" using count_owner(3) [OF cn assms(3)] by simp
    then have "val m = (if g = None then 1 else 0)" using cn p(2) by (auto simp: count_ok_def)
    moreover have "val m = 0" using p(3) P_blocks by blast
    ultimately obtain j where "g = Some j" by (cases g) auto
    then have "pworker s j \<noteq> None" using cn unfolding count_ok_def by blast
    then show ?thesis using count_owner(1) [OF cn] \<open>g = Some j\<close> by blast
  qed simp
  then show ?thesis using moves_quiet [OF assms(2)] holder_moves by blast
qed (rule moves_quiet [OF assms(2,3)])

lemma live_progress:
  assumes "live_inv s" "\<not> (all_served s \<or> pstop s \<noteq> Going)"
  shows "\<exists>s'. pre_quiet api fd_of pending wire sa sb up s s'"
proof -
  have inv: "pre_inv s" "capacity (psbuf s) = 16" using assms(1) by (simp_all add: live_inv_def SBUFSIZE_def)
  have going: "pstop s = Going" using assms(2) by simp
  show ?thesis
  proof (cases "pmain s")
    case (PM_Create i)
    show ?thesis
    proof (cases "i < NTHREADS")
      case True
      show ?thesis by (rule quietI [OF pre_step.create [OF going PM_Create True]]) simp
    next
      case False
      show ?thesis by (rule quietI [OF pre_step.created [OF going PM_Create False]]) simp
    qed
  next
    case PM_Accept
    then have d: "dom (pworker s) = {..<NTHREADS}" using assms(1) by (simp add: live_inv_def)
    show ?thesis
    proof (cases "\<exists>i pc. pworker s i = Some pc \<and> pc \<noteq> K_Remove")
      case True
      then show ?thesis using worker_progress [OF assms(1) going] by blast
    next
      case False
      have all: "pworker s i = Some K_Remove" if i: "i < NTHREADS" for i
      proof -
        have "i \<in> dom (pworker s)" using d i by simp
        with False show ?thesis by auto
      qed
      then have "contents (psbuf s) \<noteq> []" using assms(2) PM_Accept by (auto simp: all_served_def)
      then have "sbuf_remove sb (psbuf s) \<noteq> None" using remove_blocks [OF pre_invD(2) [OF inv(1)]] by simp
      then have "worker_moves api sa sb up 0 K_Remove s" by (auto simp: worker_moves_def)
      then show ?thesis using moves_quiet [OF going all [of 0]] by (simp add: NTHREADS_def)
    qed
  next
    case (PM_Insert fd)
    then have d: "dom (pworker s) = {..<NTHREADS}" using assms(1) by (simp add: live_inv_def)
    show ?thesis
    proof (cases "sbuf_insert sb (psbuf s) fd")
      case (Some b)
      show ?thesis by (rule quietI [OF pre_step.insert [OF going PM_Insert Some]]) simp
    next
      case None
      then have "contents (psbuf s) \<noteq> []" using insert_blocks [OF pre_invD(2) [OF inv(1)]] inv(2) by auto
      then have rm: "sbuf_remove sb (psbuf s) \<noteq> None" using remove_blocks [OF pre_invD(2) [OF inv(1)]] by simp
      have "pworker s 0 \<noteq> None" using d by (auto simp: dom_def set_eq_iff NTHREADS_def)
      then obtain pc where pc: "pworker s 0 = Some pc" by blast
      show ?thesis
      proof (cases "pc = K_Remove")
        case True
        then have "worker_moves api sa sb up 0 pc s" using rm by (auto simp: worker_moves_def)
        then show ?thesis using moves_quiet [OF going pc] by blast
      qed (rule worker_progress [OF assms(1) going pc])
    qed
  qed
qed

end

sublocale prethread \<subseteq> live: terminating_system "pre_quiet api fd_of pending wire sa sb up" live_inv pre_work
    "\<lambda>s. all_served s \<or> pstop s \<noteq> Going" for up
  by unfold_locales (use live_step live_progress in blast)+

context prethread
begin

text \<open>Nobody terminates the process unless a client stops reading.\<close>

lemma echo_going:
  assumes "pre_inv s" "pstop s = Going" "pworker s i = Some pc" "echo_cnt api sa up i pc s = Some s'" "\<And>fd bs. up fd bs"
  shows "pstop s' \<noteq> Gone"
proof (cases pc)
  case (K_Read fd rio)
  obtain res rio' k where rd: "readlineb api rio (pkern s) 8192 = (res, rio', k)" by (metis prod_cases3)
  have "res \<noteq> ReadErr" using eof [of 8192 rio "pkern s"] line [of 8192 rio "pkern s"] rd
    by (cases "pending rio (pkern s) = []") auto
  with K_Read show ?thesis using assms(2,4) rd by (cases res) (auto simp: set_pc_def)
qed (use assms(2,4,5) in \<open>auto simp: set_pc_def split: option.splits\<close>)

lemma step_going:
  assumes "pre_inv s" "pre_step api fd_of pending wire sa sb up s s'" "\<And>fd bs. up fd bs"
  shows "pstop s' = Going"
proof -
  have "pstop s' \<noteq> Gone" using assms(2)
  proof (cases rule: pre_step.cases)
    case (outer i pc)
    then show ?thesis by (cases pc) (auto simp: set_pc_def split: option.splits if_splits)
  next
    case (once i pc)
    then show ?thesis by (cases pc) (auto simp: set_pc_def split: once_state.splits)
  next
    case (echo i pc)
    then show ?thesis using echo_going [OF assms(1) echo(1-3) assms(3)] by simp
  qed simp_all
  moreover have "pstop s' \<noteq> Wrong" using pre_invD(1) [OF pre_inv_step [OF assms(2,1)]] .
  ultimately show ?thesis by (cases "pstop s'") simp_all
qed

lemma live_accept:
  assumes "live_inv s" "pre_step api fd_of pending wire sa sb up s s'"
  shows "live_inv s'"
proof (cases "paccepted s' = paccepted s")
  case True
  with assms(2) show ?thesis using live_step [OF assms(1)] by (auto simp: pre_quiet_def)
next
  case False
  have inv: "pre_inv s'" using pre_inv_step [OF assms(2)] assms(1) by (simp add: live_inv_def)
  from assms(2) show ?thesis
  proof (cases rule: pre_step.cases)
    case (accept fd k)
    then show ?thesis using assms(1) inv by (auto simp: live_inv_def)
  qed (use False in \<open>simp_all add: worker_frame\<close>)
qed

lemma live_reach:
  assumes "pre_reach api fd_of pending wire sa sb up argv s" "\<And>fd bs. up fd bs"
  shows "live_inv s \<and> pstop s = Going"
  using assms(1)
proof (induction rule: pre_reach.induct)
  case (init k es s)
  have i: "pre_inv s" by (rule pre_reach_inv [OF pre_reach.init [OF init]])
  have "pmain s = PM_Create 0" "pworker s = Map.empty" "psbuf s = sbuf_init sb SBUFSIZE" "pstop s = Going"
    using init by (auto simp: echo6_start_def split: if_splits)
  then show ?case using i init_laws [of SBUFSIZE] by (simp add: live_inv_def SBUFSIZE_def)
next
  case (step s s')
  then show ?case using live_accept [of s] step_going [of s] assms(2) by (simp add: live_inv_def)
qed

text \<open>When all is served, nothing is open.\<close>

lemma all_served_closed:
  assumes "pre_inv s" "all_served s" "dom (pworker s) \<subseteq> {..<NTHREADS}"
  shows "pconn s = Map.empty \<and> (\<forall>c < paccepted s. pout s c = pdata s c)"
proof -
  note inv = pre_invD [OF assms(1)]
  obtain p where p: "places s (contents (psbuf s)) p" using inv(3) by (auto simp: hand_ok_def)
  have "worker_fd s i = None" for i
  proof (cases "i < NTHREADS")
    case False
    then have "pworker s i = None" using assms(3) by (auto simp: dom_def)
    then show ?thesis by (simp add: worker_fd_def)
  qed (use assms(2) in \<open>simp add: all_served_def worker_fd_def\<close>)
  then have "p fd \<noteq> Some (At i)" for fd i using placesD(3) [OF p, of i fd] by simp
  moreover have "p fd \<noteq> Some InMain" "p fd \<noteq> Some InBuf" for fd
    using placesD(1,2) [OF p, of fd] assms(2) by (auto simp: all_served_def)
  ultimately have "p fd = None" for fd by (cases "p fd"; cases "the (p fd)") auto
  then have "pconn s fd = None" for fd using placesD(4) [OF p] by blast
  then have "pconn s = Map.empty" by (rule ext)
  then show ?thesis using inv(4) by (simp add: data_ok_def)
qed

lemma quiet_data:
  assumes "pre_quiet api fd_of pending wire sa sb up s s'"
  shows "pdata s' = pdata s \<and> paccepted s' = paccepted s"
proof -
  have "paccepted s' = paccepted s" using assms by (simp add: pre_quiet_def)
  with assms show ?thesis
    by (cases rule: quiet_cases) (simp_all add: worker_frame)
qed

lemma quiet_run:
  assumes "(pre_quiet api fd_of pending wire sa sb up)\<^sup>*\<^sup>* s s'" "live_inv s" "pstop s = Going" "\<And>fd bs. up fd bs"
  shows "live_inv s' \<and> pstop s' = Going \<and> pdata s' = pdata s \<and> paccepted s' = paccepted s"
  using assms(1)
proof (induction rule: rtranclp_induct)
  case (step s' s'')
  then have "pre_step api fd_of pending wire sa sb up s' s''" by (simp add: pre_quiet_def)
  then show ?case using step quiet_data [OF step(2)] live_accept [of s'] step_going [of s'] assms(4)
    by (simp add: live_inv_def)
qed (use assms in simp)

lemmas live_rests = live.comes_to_rest and live_finite = live.no_infinite_run

lemma rest_served:
  assumes "live_inv s" "pstop s = Going" "\<not> (\<exists>s'. pre_quiet api fd_of pending wire sa sb up s s')"
  shows "pmain s = PM_Accept \<and> (\<forall>i < NTHREADS. pworker s i = Some K_Remove) \<and> pconn s = Map.empty \<and>
    (\<forall>c < paccepted s. pout s c = pdata s c)"
proof -
  have "all_served s" using live_progress [OF assms(1)] assms(2,3) by blast
  with all_served_closed [of s] assms(1) show ?thesis by (simp add: live_inv_def all_served_def)
qed

end

section \<open>Properties\<close>

definition pre_ends :: "('r, 'k) rio_api \<Rightarrow> ('r \<Rightarrow> int) \<Rightarrow> ('r \<Rightarrow> 'k \<Rightarrow> bytes) \<Rightarrow> ('k \<Rightarrow> int \<Rightarrow> bytes) \<Rightarrow>
    's sem_api \<Rightarrow> 'b sbuf_api \<Rightarrow> (int \<Rightarrow> bytes \<Rightarrow> bool) \<Rightarrow> ('r, 'k, 's, 'b) pre_sys \<Rightarrow> ('r, 'k, 's, 'b) pre_sys set" where
  "pre_ends api fd_of pending wire sa sb up s =
     {s'. (pre_quiet api fd_of pending wire sa sb up)\<^sup>*\<^sup>* s s' \<and>
        \<not> (\<exists>s''. pre_quiet api fd_of pending wire sa sb up s' s'')}"

text \<open>C4: the prethreaded server always finishes what it has accepted: from every reachable state, while no
  further client connects, there is no infinite run, and wherever the threads come to rest
  \<open>main\<close> is in \<open>accept\<close>, all four workers are waiting for a descriptor, no connection is open and every
  client has got all its bytes back: no deadlock over the buffer, the counter's mutex or \<open>pthread_once\<close>.\<close>

theorem echo6_serves_all:
  assumes "rio_reader api fd_of pending wire" and "semaphore sa val" and "bounded_queue sb sb_ok contents capacity"
    and "pre_reach api fd_of pending wire sa sb up argv s" and "\<And>fd bs. up fd bs"
  shows "(\<nexists>f. f 0 = s \<and> (\<forall>k. pre_quiet api fd_of pending wire sa sb up (f k) (f (Suc k)))) \<and>
    pre_ends api fd_of pending wire sa sb up s \<noteq> {} \<and>
    pre_ends api fd_of pending wire sa sb up s \<subseteq>
      {s'. pmain s' = PM_Accept \<and> (\<forall>i < NTHREADS. pworker s' i = Some K_Remove) \<and> pconn s' = Map.empty \<and>
         paccepted s' = paccepted s \<and> (\<forall>c < paccepted s. pout s' c = pdata s c)}"
proof -
  have p: "prethread api fd_of pending wire sa val sb sb_ok contents capacity"
    using assms(1-3) by (rule prethread.intro)
  note live = prethread.live_reach [OF p assms(4,5)]
  have run: "prethread.live_inv fd_of pending wire val sb_ok contents capacity s' \<and> pstop s' = Going \<and>
      pdata s' = pdata s \<and> paccepted s' = paccepted s"
    if "(pre_quiet api fd_of pending wire sa sb up)\<^sup>*\<^sup>* s s'" for s'
    by (rule prethread.quiet_run [OF p that]) (simp_all add: live assms(5))
  have "pre_ends api fd_of pending wire sa sb up s \<noteq> {}"
    using prethread.live_rests [OF p conjunct1 [OF live], of up] by (auto simp: pre_ends_def)
  moreover have "\<nexists>f. f 0 = s \<and> (\<forall>k. pre_quiet api fd_of pending wire sa sb up (f k) (f (Suc k)))"
    using prethread.live_finite [OF p, of _ up] live by blast
  moreover have "pmain s' = PM_Accept \<and> (\<forall>i < NTHREADS. pworker s' i = Some K_Remove) \<and> pconn s' = Map.empty \<and>
      paccepted s' = paccepted s \<and> (\<forall>c < paccepted s. pout s' c = pdata s c)"
    if e: "s' \<in> pre_ends api fd_of pending wire sa sb up s" for s'
  proof -
    from e have r: "(pre_quiet api fd_of pending wire sa sb up)\<^sup>*\<^sup>* s s'"
      "\<not> (\<exists>s''. pre_quiet api fd_of pending wire sa sb up s' s'')" by (simp_all add: pre_ends_def)
    from run [OF r(1)] prethread.rest_served [OF p _ _ r(2)] show ?thesis by simp
  qed
  ultimately show ?thesis by blast
qed

text \<open>Connection 0 of \<open>echo6_at\<close> is with worker 0, nothing of it is read, and the counter does not exist yet.\<close>

theorem echo6_serves_all_witness:
  "pre_ends rio_ref rio_fd ref_pending (\<lambda>k fd. concat (k fd)) posix_sem ring (\<lambda>fd bs. True) (echo6_at (K_Once 4)) \<noteq> {} \<and>
   pre_ends rio_ref rio_fd ref_pending (\<lambda>k fd. concat (k fd)) posix_sem ring (\<lambda>fd bs. True) (echo6_at (K_Once 4)) \<subseteq>
     {s'. pconn s' = Map.empty \<and> pout s' 0 = [LF]}"
proof -
  note all = echo6_serves_all [OF ref.rio_reader_axioms posix.semaphore_axioms ring.bounded_queue_axioms reach_echo6_taken TrueI]
  have "paccepted (echo6_at (K_Once 4)) = 1" "pdata (echo6_at (K_Once 4)) 0 = [LF]"
    by (simp_all add: echo6_at_def)
  with all show ?thesis by auto
qed

end
