(* ===== verification/EpollServer.thy ===== *)
theory EpollServer
  imports Csapp
begin

text \<open>
  \<open>socket_program/linux\<close>: the epoll server and its client. The server keeps one array for all
  clients and the set of descriptors it watches; the calls into the kernel are events of the trace,
  and what \<open>epoll_wait\<close>, \<open>accept\<close> and \<open>read\<close> answer are arguments. No return value is checked by
  the programs. \<open>Writen\<close> records the bytes given to \<open>send\<close>. The missing semicolons and the missing
  \<open>=\<close> of \<open>char *hello\<close> are read as if they were there.
\<close>

section \<open>The server\<close>

definition MAX_EVENTS :: nat where "MAX_EVENTS = 10"
definition SOCK_BUF :: nat where "SOCK_BUF = 1024"

record epoll_sys =
  sbuffer :: bytes
  watched :: "int set"

definition epoll_start :: "int \<Rightarrow> epoll_sys" where
  "epoll_start server_fd = \<lparr>sbuffer = replicate SOCK_BUF NUL, watched = {server_fd}\<rparr>"

text \<open>\<open>read\<close> puts what it gets (\<open>None\<close>: an error) at the front of the array and leaves the rest.\<close>

definition read_into :: "bytes option \<Rightarrow> bytes \<Rightarrow> bytes" where
  "read_into got buf =
     (case got of None \<Rightarrow> buf
      | Some bs \<Rightarrow> (let d = take SOCK_BUF bs in d @ drop (length d) buf))"

text \<open>\<open>printf\<close> with \<open>%s\<close> on an array: it runs past the end when the array holds no NUL.\<close>

definition print_array :: "string \<Rightarrow> bytes \<Rightarrow> unit run" where
  "print_array msg buf =
     (if NUL \<in> set buf then Ret [Stdout (msg @ cstr buf @ [LF])] () else Undef [] BadRead)"

text \<open>One event of the inner loop: on the listening descriptor \<open>accept\<close> answers \<open>client_fd\<close> (-1: an
  error, and \<open>epoll_ctl\<close> then refuses it), on another one \<open>read\<close> gets \<open>got\<close>.\<close>

datatype io_event = Incoming int | Readable int "bytes option"

definition epoll_event :: "io_event \<Rightarrow> epoll_sys \<Rightarrow> epoll_sys run" where
  "epoll_event ev s =
     (case ev of
        Incoming client_fd \<Rightarrow>
          Ret (if client_fd < 0 then [] else [Accepted client_fd])
            (if client_fd < 0 then s else s\<lparr>watched := insert client_fd (watched s)\<rparr>)
      | Readable fd got \<Rightarrow>
          (let buf = read_into got (sbuffer s) in
           bindE (print_array ''Message from client: '' buf) (\<lambda>_.
           Ret [Writen fd ''Hello from server'', Closed fd]
             (s\<lparr>sbuffer := buf, watched := watched s - {fd}\<rparr>))))"

fun epoll_turn :: "io_event list \<Rightarrow> epoll_sys \<Rightarrow> epoll_sys run" where
  "epoll_turn [] s = Ret [] s"
| "epoll_turn (ev # evs) s = bindE (epoll_event ev s) (epoll_turn evs)"

section \<open>The client\<close>

definition socket_client :: "int \<Rightarrow> bytes option \<Rightarrow> unit run" where
  "socket_client sock reply =
     (let buffer = read_into reply (replicate SOCK_BUF NUL) in
      emit [Writen sock ''Hello from client'', Stdout (''Hello message send'' @ [LF])]
        (bindE (print_array ''Message from server: '' buffer) (\<lambda>_. Ret [Closed sock] ())))"

section \<open>Lemmas\<close>

fun event_fds :: "io_event list \<Rightarrow> int list" where
  "event_fds [] = []"
| "event_fds (Incoming fd # evs) = event_fds evs"
| "event_fds (Readable fd got # evs) = fd # event_fds evs"

fun short_reads :: "io_event list \<Rightarrow> bool" where
  "short_reads [] = True"
| "short_reads (Incoming fd # evs) = short_reads evs"
| "short_reads (Readable fd got # evs) =
     ((case got of None \<Rightarrow> True | Some bs \<Rightarrow> length bs < SOCK_BUF) \<and> short_reads evs)"

text \<open>The last byte of the array stays NUL as long as no message fills it.\<close>

definition terminated :: "bytes \<Rightarrow> bool" where
  "terminated buf \<longleftrightarrow> length buf = SOCK_BUF \<and> last buf = NUL"

lemma terminated_nul: "terminated buf \<Longrightarrow> NUL \<in> set buf"
  using last_in_set [of buf] by (cases "buf = []") (auto simp: terminated_def SOCK_BUF_def)

lemma terminated_read:
  assumes "terminated buf" "case got of None \<Rightarrow> True | Some bs \<Rightarrow> length bs < SOCK_BUF"
  shows "terminated (read_into got buf)"
proof (cases got)
  case (Some bs)
  then have "length bs < length buf" using assms by (simp add: terminated_def)
  then show ?thesis using assms(1) Some
    by (auto simp: terminated_def read_into_def last_drop last_append Let_def)
qed (use assms(1) in \<open>simp add: read_into_def\<close>)

lemma terminated_zeros: "terminated (replicate SOCK_BUF NUL)"
  by (simp add: terminated_def SOCK_BUF_def last_replicate)

lemma epoll_turn_correct:
  assumes "terminated (sbuffer s)" "short_reads evs" "distinct (event_fds evs)"
  shows "\<exists>es s'. epoll_turn evs s = Ret es s' \<and> terminated (sbuffer s') \<and>
    (\<forall>fd. sent fd es = (if fd \<in> set (event_fds evs) then ''Hello from server'' else [])) \<and>
    (\<forall>fd. count_list es (Closed fd) = (if fd \<in> set (event_fds evs) then 1 else 0))"
  using assms
proof (induction evs s rule: epoll_turn.induct)
  case (1 s)
  then show ?case by simp
next
  case (2 ev evs s)
  show ?case
  proof (cases ev)
    case (Incoming fd)
    let ?s = "if fd < 0 then s else s\<lparr>watched := insert fd (watched s)\<rparr>"
    have e: "epoll_event ev s = Ret (if fd < 0 then [] else [Accepted fd]) ?s"
      using Incoming by (simp add: epoll_event_def)
    have "terminated (sbuffer ?s)" using 2(2) by simp
    then obtain es s' where "epoll_turn evs ?s = Ret es s'" "terminated (sbuffer s')"
      "\<forall>fd. sent fd es = (if fd \<in> set (event_fds evs) then ''Hello from server'' else [])"
      "\<forall>fd. count_list es (Closed fd) = (if fd \<in> set (event_fds evs) then 1 else 0)"
      using 2(1) [OF e] 2(3,4) Incoming by auto
    then show ?thesis using e Incoming by auto
  next
    case (Readable fd got)
    let ?b = "read_into got (sbuffer s)"
    let ?s = "s\<lparr>sbuffer := ?b, watched := watched s - {fd}\<rparr>"
    have t: "terminated ?b" using terminated_read [OF 2(2), of got] 2(3) Readable by simp
    have e: "epoll_event ev s = Ret [Stdout (''Message from client: '' @ cstr ?b @ [LF]),
        Writen fd ''Hello from server'', Closed fd] ?s"
      using Readable terminated_nul [OF t] by (simp add: epoll_event_def print_array_def Let_def)
    obtain es s' where "epoll_turn evs ?s = Ret es s'" "terminated (sbuffer s')"
      "\<forall>fd. sent fd es = (if fd \<in> set (event_fds evs) then ''Hello from server'' else [])"
      "\<forall>fd. count_list es (Closed fd) = (if fd \<in> set (event_fds evs) then 1 else 0)"
      using 2(1) [OF e] 2(3,4) Readable t by auto
    then show ?thesis using e Readable 2(4) by auto
  qed
qed

text \<open>The array is shared and not cleared: a message shorter than the one before it is printed with
  the end of the older one, and a message of 1024 bytes is read past the end of the array.\<close>

lemma stale_message:
  "trace_of (epoll_turn [Readable 5 (Some ''secret''), Readable 6 (Some ''hi'')] (epoll_start 3)) =
    [Stdout (''Message from client: secret'' @ [LF]), Writen 5 ''Hello from server'', Closed 5,
     Stdout (''Message from client: hicret'' @ [LF]), Writen 6 ''Hello from server'', Closed 6]"
  by (simp add: epoll_event_def epoll_start_def read_into_def print_array_def SOCK_BUF_def cstr_def
      takeWhile_append takeWhile_replicate Let_def drop_replicate)

lemma full_message_overruns:
  assumes "length bs = 1024" "NUL \<notin> set bs" "length (sbuffer s) = 1024"
  shows "epoll_turn [Readable fd (Some bs)] s = Undef [] BadRead"
  using assms by (simp add: epoll_event_def read_into_def print_array_def SOCK_BUF_def Let_def)

section \<open>A turn, with any messages\<close>

text \<open>When every message fits (at most 1023 bytes), a turn of the server is free of undefined
  behaviour and answers each client that sent something with the 17 bytes of its greeting, closing
  the connection once; a client that receives what was sent on its descriptor prints exactly that
  greeting.\<close>

theorem epoll_exchange:
  assumes "terminated (sbuffer s)" and "short_reads evs" and "distinct (event_fds evs)"
    and "fd \<in> set (event_fds evs)"
  shows "\<exists>es s'. epoll_turn evs s = Ret es s' \<and> terminated (sbuffer s') \<and>
    length (sent fd es) = 17 \<and> count_list es (Closed fd) = 1 \<and>
    socket_client sock (Some (sent fd es)) =
      Ret [Writen sock ''Hello from client'', Stdout (''Hello message send'' @ [LF]),
        Stdout (''Message from server: Hello from server'' @ [LF]), Closed sock] ()"
proof -
  obtain es s' where t: "epoll_turn evs s = Ret es s'" "terminated (sbuffer s')"
    "sent fd es = ''Hello from server''" "count_list es (Closed fd) = 1"
    using epoll_turn_correct [OF assms(1-3)] assms(4) by auto
  have "read_into (Some ''Hello from server'') (replicate SOCK_BUF NUL) =
      ''Hello from server'' @ NUL # replicate 1006 NUL"
    by (simp add: read_into_def SOCK_BUF_def drop_replicate Let_def replicate_Suc [symmetric] del: replicate_Suc)
  then have "socket_client sock (Some ''Hello from server'') =
      Ret [Writen sock ''Hello from client'', Stdout (''Hello message send'' @ [LF]),
        Stdout (''Message from server: Hello from server'' @ [LF]), Closed sock] ()"
    using cstr_append_nul [of "''Hello from server''" "replicate 1006 NUL"]
    by (simp add: socket_client_def print_array_def Let_def)
  with t show ?thesis by auto
qed

theorem epoll_exchange_witness:
  "\<exists>es s'. epoll_turn [Incoming 5, Readable 5 (Some ''Hello from client'')] (epoll_start 3) = Ret es s' \<and>
     length (sent 5 es) = 17"
  using epoll_exchange [of "epoll_start 3" "[Incoming 5, Readable 5 (Some ''Hello from client'')]" 5 0]
    terminated_zeros by (auto simp: epoll_start_def SOCK_BUF_def)

end
