(* ===== verification/EpollRun.thy ===== *)
theory EpollRun
  imports EpollServer Systems
begin

text \<open>
  The two programs of \<open>socket_program/linux\<close> together: any number of clients run against the server, and
  their calls interleave with its loop. The kernel between them is what \<open>epoll_wait\<close>, \<open>accept\<close>, \<open>connect\<close> and \<open>read\<close>
  are documented to do: a descriptor is reported only if it is ready, \<open>accept\<close> returns a descriptor that is not in
  use and takes the connections in order, \<open>connect\<close> waits while the queue of the listening socket is full, and the
  few bytes of a message arrive in one piece.
\<close>

section \<open>Server, clients and kernel\<close>

text \<open>A client before \<open>connect\<close>, before \<open>send\<close>, in \<open>read\<close>, and when it has run to its end.\<close>

datatype ep_client = C_Connect | C_Send | C_Read | C_Done "unit run"

text \<open>
  The run of the server so far; the events of \<open>epoll_wait\<close> it has still to handle (none: it is in
  \<open>epoll_wait\<close>); the queue of the listening socket; the server's descriptor for a client; the bytes on their way up
  and down; the clients.
\<close>

record ep_sys =
  srv :: "epoll_sys run"
  evs :: "int list"
  accq :: "nat list"
  fd_of :: "nat \<Rightarrow> int option"
  up :: "nat \<Rightarrow> bytes"
  down :: "nat \<Rightarrow> bytes"
  cl :: "nat \<Rightarrow> ep_client"

definition BACKLOG :: nat where "BACKLOG = 3"

definition ep_start :: "int \<Rightarrow> ep_sys" where
  "ep_start server_fd = \<lparr>srv = Ret [] (epoll_start server_fd), evs = [], accq = [], fd_of = (\<lambda>_. None),
     up = (\<lambda>_. []), down = (\<lambda>_. []), cl = (\<lambda>_. C_Connect)\<rparr>"

text \<open>The bytes a client sends do not depend on what it reads.\<close>

definition client_message :: "int \<Rightarrow> bytes" where
  "client_message sock = sent sock (trace_of (socket_client sock None))"

text \<open>What \<open>epoll_wait\<close> may report.\<close>

definition ep_ready :: "int \<Rightarrow> ep_sys \<Rightarrow> int \<Rightarrow> bool" where
  "ep_ready server_fd s fd \<longleftrightarrow>
     (\<exists>es st. srv s = Ret es st \<and> fd \<in> watched st) \<and>
     (if fd = server_fd then accq s \<noteq> [] else \<exists>c. fd_of s c = Some fd \<and> up s c \<noteq> [])"

text \<open>The server takes part in an event with what the kernel answers to its calls.\<close>

definition ep_serve :: "io_event \<Rightarrow> ep_sys \<Rightarrow> ep_sys" where
  "ep_serve ev s = s\<lparr>srv := bindE (srv s) (epoll_event ev), evs := tl (evs s)\<rparr>"

definition ep_reply :: "int \<Rightarrow> io_event \<Rightarrow> ep_sys \<Rightarrow> bytes" where
  "ep_reply fd ev s = (case srv s of Ret es st \<Rightarrow> sent fd (trace_of (epoll_event ev st)) | _ \<Rightarrow> [])"

inductive ep_step :: "nat \<Rightarrow> int \<Rightarrow> int \<Rightarrow> ep_sys \<Rightarrow> ep_sys \<Rightarrow> bool" for n server_fd sock where
  connect: "c < n \<Longrightarrow> cl s c = C_Connect \<Longrightarrow> length (accq s) \<le> BACKLOG \<Longrightarrow>
    ep_step n server_fd sock s (s\<lparr>cl := (cl s)(c := C_Send), accq := accq s @ [c]\<rparr>)"
| send: "c < n \<Longrightarrow> cl s c = C_Send \<Longrightarrow>
    ep_step n server_fd sock s (s\<lparr>cl := (cl s)(c := C_Read), up := (up s)(c := client_message sock)\<rparr>)"
| receive: "c < n \<Longrightarrow> cl s c = C_Read \<Longrightarrow> down s c \<noteq> [] \<Longrightarrow>
    ep_step n server_fd sock s (s\<lparr>cl := (cl s)(c := C_Done (socket_client sock (Some (down s c))))\<rparr>)"
| wait: "evs s = [] \<Longrightarrow> fds \<noteq> [] \<Longrightarrow> distinct fds \<Longrightarrow> length fds \<le> MAX_EVENTS \<Longrightarrow>
    (\<And>fd. fd \<in> set fds \<Longrightarrow> ep_ready server_fd s fd) \<Longrightarrow> ep_step n server_fd sock s (s\<lparr>evs := fds\<rparr>)"
| accept: "evs s = server_fd # fds \<Longrightarrow> is_ret (srv s) \<Longrightarrow> accq s = c # cs \<Longrightarrow> 0 \<le> fd \<Longrightarrow> fd \<noteq> server_fd \<Longrightarrow>
    Some fd \<notin> range (fd_of s) \<Longrightarrow>
    ep_step n server_fd sock s (ep_serve (Incoming fd) (s\<lparr>accq := cs, fd_of := (fd_of s)(c := Some fd)\<rparr>))"
| read: "evs s = fd # fds \<Longrightarrow> is_ret (srv s) \<Longrightarrow> fd \<noteq> server_fd \<Longrightarrow> fd_of s c = Some fd \<Longrightarrow>
    ep_step n server_fd sock s (ep_serve (Readable fd (Some (up s c)))
      (s\<lparr>up := (up s)(c := []), down := (down s)(c := ep_reply fd (Readable fd (Some (up s c))) s),
         fd_of := (fd_of s)(c := None)\<rparr>))"

inductive_cases ep_stepE [step_elims]: "ep_step n server_fd sock s s'"

inductive ep_reach :: "nat \<Rightarrow> int \<Rightarrow> int \<Rightarrow> ep_sys \<Rightarrow> bool" for n server_fd sock where
  start: "ep_reach n server_fd sock (ep_start server_fd)"
| step: "ep_reach n server_fd sock s \<Longrightarrow> ep_step n server_fd sock s s' \<Longrightarrow> ep_reach n server_fd sock s'"

section \<open>One exchange\<close>

definition client_hello :: bytes where "client_hello = ''Hello from client''"
definition server_hello :: bytes where "server_hello = ''Hello from server''"

definition server_line :: event where
  "server_line = Stdout (''Message from client: '' @ client_hello @ [LF])"

text \<open>What a client prints and does that gets the greeting of the server.\<close>

definition client_run :: "int \<Rightarrow> unit run" where
  "client_run sock = Ret [Writen sock client_hello, Stdout (''Hello message send'' @ [LF]),
     Stdout (''Message from server: '' @ server_hello @ [LF]), Closed sock] ()"

text \<open>The array of the server is still empty or holds the message of a client, which all clients share.\<close>

definition client_buf :: bytes where
  "client_buf = client_hello @ replicate (SOCK_BUF - length client_hello) NUL"

definition buf_ok :: "bytes \<Rightarrow> bool" where
  "buf_ok b \<longleftrightarrow> b = replicate SOCK_BUF NUL \<or> b = client_buf"

lemma read_into_message: "buf_ok b \<Longrightarrow> read_into (Some client_hello) b = client_buf"
  by (auto simp: buf_ok_def read_into_def client_buf_def client_hello_def SOCK_BUF_def Let_def drop_replicate)

lemma cstr_padded: "NUL \<notin> set m \<Longrightarrow> 0 < k \<Longrightarrow> cstr (m @ replicate k NUL) = m"
  using cstr_append_nul [of m "replicate (k - 1) NUL"] by (cases k) simp_all

lemma cstr_client_buf: "cstr client_buf = client_hello" "NUL \<in> set client_buf"
proof -
  show "cstr client_buf = client_hello" unfolding client_buf_def
    by (rule cstr_padded) (simp_all add: client_hello_def SOCK_BUF_def)
  show "NUL \<in> set client_buf" by (simp add: client_buf_def client_hello_def SOCK_BUF_def)
qed

lemma epoll_event_message:
  "buf_ok (sbuffer st) \<Longrightarrow> epoll_event (Readable fd (Some client_hello)) st =
     Ret [server_line, Writen fd server_hello, Closed fd] (st\<lparr>sbuffer := client_buf, watched := watched st - {fd}\<rparr>)"
  by (simp add: epoll_event_def read_into_message print_array_def cstr_client_buf server_line_def server_hello_def Let_def)

lemma client_message_hello: "client_message sock = client_hello"
  by (simp add: client_message_def socket_client_def read_into_def print_array_def client_hello_def SOCK_BUF_def)

lemma socket_client_hello: "socket_client sock (Some server_hello) = client_run sock"
proof -
  have "read_into (Some server_hello) (replicate SOCK_BUF NUL) = server_hello @ replicate 1007 NUL"
    by (simp add: read_into_def server_hello_def SOCK_BUF_def Let_def drop_replicate)
  moreover have "cstr (server_hello @ replicate 1007 NUL) = server_hello"
    by (rule cstr_padded) (simp_all add: server_hello_def)
  ultimately show ?thesis
    by (simp add: socket_client_def print_array_def client_run_def client_hello_def)
qed

section \<open>The invariant\<close>

text \<open>Where a client, its connection and its bytes are.\<close>

definition ep_client_ok :: "int \<Rightarrow> ep_sys \<Rightarrow> nat \<Rightarrow> bool" where
  "ep_client_ok sock s c \<longleftrightarrow>
     (case cl s c of
        C_Connect \<Rightarrow> c \<notin> set (accq s) \<and> fd_of s c = None \<and> up s c = [] \<and> down s c = []
      | C_Send \<Rightarrow> (c \<in> set (accq s) \<longleftrightarrow> fd_of s c = None) \<and> up s c = [] \<and> down s c = []
      | C_Read \<Rightarrow> (c \<in> set (accq s) \<longleftrightarrow> fd_of s c = None) \<and> up s c = client_hello \<and> down s c = [] \<or>
          c \<notin> set (accq s) \<and> fd_of s c = None \<and> up s c = [] \<and> down s c = server_hello
      | C_Done r \<Rightarrow> c \<notin> set (accq s) \<and> fd_of s c = None \<and> up s c = [] \<and> down s c = server_hello \<and> r = client_run sock)"

definition ep_clients :: "nat \<Rightarrow> int \<Rightarrow> int \<Rightarrow> ep_sys \<Rightarrow> bool" where
  "ep_clients n server_fd sock s \<longleftrightarrow>
     (\<forall>c. ep_client_ok sock s c) \<and> (\<forall>c \<ge> n. cl s c = C_Connect) \<and> distinct (accq s) \<and>
     (\<forall>c d fd. fd_of s c = Some fd \<longrightarrow> fd_of s d = Some fd \<longrightarrow> c = d) \<and> (\<forall>c. fd_of s c \<noteq> Some server_fd)"

text \<open>What is reported and not yet handled stays ready.\<close>

definition ep_events :: "int \<Rightarrow> ep_sys \<Rightarrow> bool" where
  "ep_events server_fd s \<longleftrightarrow> distinct (evs s) \<and>
     (\<forall>fd \<in> set (evs s). if fd = server_fd then accq s \<noteq> [] else \<exists>c. fd_of s c = Some fd \<and> up s c \<noteq> [])"

text \<open>The server: its array, the descriptors it watches, and its trace.\<close>

definition answered :: "ep_sys \<Rightarrow> nat set" where
  "answered s = {c. down s c \<noteq> []}"

definition ep_log :: "ep_sys \<Rightarrow> event list \<Rightarrow> bool" where
  "ep_log s es \<longleftrightarrow>
     set es \<subseteq> {server_line} \<union> range Accepted \<union> range Closed \<union> range (\<lambda>fd. Writen fd server_hello) \<and>
     count_list es server_line = card (answered s) \<and>
     (\<forall>fd. count_list es (Accepted fd) = count_list es (Closed fd) + (if Some fd \<in> range (fd_of s) then 1 else 0))"

definition ep_server :: "int \<Rightarrow> ep_sys \<Rightarrow> bool" where
  "ep_server server_fd s \<longleftrightarrow>
     (\<exists>es st. srv s = Ret es st \<and> buf_ok (sbuffer st) \<and> watched st = insert server_fd {fd. Some fd \<in> range (fd_of s)} \<and>
        ep_log s es)"

definition ep_inv :: "nat \<Rightarrow> int \<Rightarrow> int \<Rightarrow> ep_sys \<Rightarrow> bool" where
  "ep_inv n server_fd sock s \<longleftrightarrow> ep_clients n server_fd sock s \<and> ep_events server_fd s \<and> ep_server server_fd s"

lemma hellos [simp]: "client_hello \<noteq> []" "server_hello \<noteq> []" "[] \<noteq> client_hello" "[] \<noteq> server_hello"
  by (simp_all add: client_hello_def server_hello_def)

lemma ep_answered_finite: "ep_clients n server_fd sock s \<Longrightarrow> finite (answered s)"
proof (rule finite_subset [of _ "{..<n}"])
  assume i: "ep_clients n server_fd sock s"
  show "answered s \<subseteq> {..<n}"
  proof
    fix c assume "c \<in> answered s"
    moreover have "ep_client_ok sock s c" "n \<le> c \<Longrightarrow> cl s c = C_Connect" using i by (simp_all add: ep_clients_def)
    ultimately show "c \<in> {..<n}" by (cases "c < n") (auto simp: answered_def ep_client_ok_def)
  qed
qed simp

text \<open>At an accept and at a read: what is known of the client concerned.\<close>

lemma ep_read_client:
  assumes "ep_inv n server_fd sock s" "evs s = fd # fds" "fd \<noteq> server_fd" "fd_of s c = Some fd"
  shows "cl s c = C_Read" "up s c = client_hello" "down s c = []" "c \<notin> set (accq s)"
proof -
  have e: "ep_events server_fd s" and k: "ep_clients n server_fd sock s" using assms(1) by (simp_all add: ep_inv_def)
  have "up s c \<noteq> []" using e k assms(2-4) by (fastforce simp: ep_events_def ep_clients_def)
  moreover have "ep_client_ok sock s c" using k by (simp add: ep_clients_def)
  ultimately show "cl s c = C_Read" "up s c = client_hello" "down s c = []" "c \<notin> set (accq s)"
    using assms(4) by (auto simp: ep_client_ok_def split: ep_client.splits)
qed

lemma ep_reply_hello:
  assumes "ep_server server_fd s"
  shows "ep_reply fd (Readable fd (Some client_hello)) s = server_hello"
  using assms by (auto simp: ep_server_def ep_reply_def epoll_event_message server_line_def)

lemma open_add:
  assumes "f c = None"
  shows "Some x \<in> range (f(c := Some y)) \<longleftrightarrow> x = y \<or> Some x \<in> range f"
proof
  assume "Some x \<in> range (f(c := Some y))"
  then show "x = y \<or> Some x \<in> range f" by (auto split: if_splits)
next
  assume "x = y \<or> Some x \<in> range f"
  then show "Some x \<in> range (f(c := Some y))"
  proof
    assume "Some x \<in> range f"
    then obtain d where "f d = Some x" by (metis rangeE)
    with assms have "(f(c := Some y)) d = Some x" by auto
    then show ?thesis by (metis rangeI)
  qed (metis fun_upd_same rangeI)
qed

lemma open_remove:
  assumes "f c = Some y" "\<And>d. f d = Some y \<Longrightarrow> d = c"
  shows "Some x \<in> range (f(c := None)) \<longleftrightarrow> x \<noteq> y \<and> Some x \<in> range f"
proof
  assume "Some x \<in> range (f(c := None))"
  then obtain d where "(f(c := None)) d = Some x" by (metis rangeE)
  then have "d \<noteq> c" "f d = Some x" by (auto split: if_splits)
  then show "x \<noteq> y \<and> Some x \<in> range f" using assms(2) by (metis rangeI)
next
  assume "x \<noteq> y \<and> Some x \<in> range f"
  then obtain d where "f d = Some x" "x \<noteq> y" by (metis rangeE)
  with assms(1) have "(f(c := None)) d = Some x" by auto
  then show "Some x \<in> range (f(c := None))" by (metis rangeI)
qed

lemma ep_events_mono:
  assumes "ep_events server_fd s" "evs s' = evs s" "accq s \<noteq> [] \<Longrightarrow> accq s' \<noteq> []" "fd_of s' = fd_of s"
    "\<And>c. up s c \<noteq> [] \<Longrightarrow> up s' c \<noteq> []"
  shows "ep_events server_fd s'"
  unfolding ep_events_def
proof (intro conjI ballI)
  show "distinct (evs s')" using assms(1,2) by (simp add: ep_events_def)
  fix fd assume "fd \<in> set (evs s')"
  then have "if fd = server_fd then accq s \<noteq> [] else \<exists>c. fd_of s c = Some fd \<and> up s c \<noteq> []"
    using assms(1,2) by (simp add: ep_events_def)
  then show "if fd = server_fd then accq s' \<noteq> [] else \<exists>c. fd_of s' c = Some fd \<and> up s' c \<noteq> []"
    using assms(3-5) by (auto split: if_splits)
qed

lemma ep_clients_step:
  assumes st: "ep_step n server_fd sock s s'" and inv: "ep_inv n server_fd sock s"
  shows "ep_clients n server_fd sock s'"
proof -
  have k: "ep_clients n server_fd sock s" and srv: "ep_server server_fd s" using inv by (simp_all add: ep_inv_def)
  have ok: "ep_client_ok sock s c" for c using k by (simp add: ep_clients_def)
  from st show ?thesis
  proof (cases rule: ep_step.cases)
    case (connect c)
    then show ?thesis using k ok [of c] by (auto simp: ep_clients_def ep_client_ok_def split: ep_client.splits)
  next
    case (send c)
    then show ?thesis using k ok [of c]
      by (auto simp: ep_clients_def ep_client_ok_def client_message_hello split: ep_client.splits)
  next
    case (receive c)
    then have "down s c = server_hello" using ok [of c] by (auto simp: ep_client_ok_def)
    then show ?thesis using receive k ok [of c]
      by (auto simp: ep_clients_def ep_client_ok_def socket_client_hello split: ep_client.splits)
  next
    case (wait fds)
    then have "ep_client_ok sock s' c" for c using ok [of c] by (auto simp: ep_client_ok_def split: ep_client.splits)
    then show ?thesis using wait k by (simp add: ep_clients_def)
  next
    case (accept fds c cs fd)
    have "fd_of s d \<noteq> Some fd" for d using accept(7) by (metis rangeI)
    moreover have "c \<in> set (accq s)" "c \<notin> set cs" "distinct cs" using accept(4) k by (simp_all add: ep_clients_def)
    ultimately show ?thesis using accept k ok [of c]
      by (auto simp: ep_clients_def ep_client_ok_def ep_serve_def split: ep_client.splits)
  next
    case (read fd fds c)
    note c = ep_read_client [OF inv read(2,4,5)]
    show ?thesis using read k c ok [of c]
      by (auto simp: ep_clients_def ep_client_ok_def ep_serve_def ep_reply_hello [OF srv] split: ep_client.splits)
  qed
qed

lemma ep_events_step:
  assumes st: "ep_step n server_fd sock s s'" and inv: "ep_inv n server_fd sock s"
  shows "ep_events server_fd s'"
proof -
  have e: "ep_events server_fd s" using inv by (simp add: ep_inv_def)
  have inj: "fd_of s c = Some fd \<Longrightarrow> fd_of s d = Some fd \<Longrightarrow> c = d" for c d fd
    using inv by (auto simp: ep_inv_def ep_clients_def)
  from st show ?thesis
  proof (cases rule: ep_step.cases)
    case (connect c)
    then show ?thesis by (intro ep_events_mono [OF e]) simp_all
  next
    case (send c)
    then show ?thesis by (intro ep_events_mono [OF e]) (simp_all add: client_message_hello)
  next
    case (receive c)
    then show ?thesis by (intro ep_events_mono [OF e]) simp_all
  next
    case (wait fds)
    then show ?thesis by (auto simp: ep_events_def ep_ready_def)
  next
    case (accept fds c cs fd)
    have "ep_client_ok sock s c" using inv by (simp add: ep_inv_def ep_clients_def)
    then have "fd_of s c = None" using accept(4) by (auto simp: ep_client_ok_def split: ep_client.splits)
    then have "fd_of s d = Some x \<Longrightarrow> d \<noteq> c" for d x by auto
    then show ?thesis using e accept by (fastforce simp: ep_events_def ep_serve_def)
  next
    case (read fd fds c)
    have "fd_of s d = Some x \<Longrightarrow> x \<noteq> fd \<Longrightarrow> d \<noteq> c" for d x using read(5) by auto
    then show ?thesis using e read by (fastforce simp: ep_events_def ep_serve_def)
  qed
qed

lemma ep_server_same:
  "ep_server server_fd s \<Longrightarrow> srv s' = srv s \<Longrightarrow> fd_of s' = fd_of s \<Longrightarrow> down s' = down s \<Longrightarrow> ep_server server_fd s'"
  by (simp add: ep_server_def ep_log_def answered_def)

lemma ep_server_step:
  assumes st: "ep_step n server_fd sock s s'" and inv: "ep_inv n server_fd sock s"
  shows "ep_server server_fd s'"
proof -
  have srv: "ep_server server_fd s" and k: "ep_clients n server_fd sock s" using inv by (simp_all add: ep_inv_def)
  obtain es stt where s: "srv s = Ret es stt" "buf_ok (sbuffer stt)"
    "watched stt = insert server_fd {fd. Some fd \<in> range (fd_of s)}" "ep_log s es"
    using srv by (auto simp: ep_server_def)
  from st show ?thesis
  proof (cases rule: ep_step.cases)
    case (accept fds c cs fd)
    have n: "fd_of s c = None"
    proof -
      have "ep_client_ok sock s c" using k by (simp add: ep_clients_def)
      then show ?thesis using accept(4) by (auto simp: ep_client_ok_def split: ep_client.splits)
    qed
    then have r: "Some x \<in> range ((fd_of s)(c := Some fd)) \<longleftrightarrow> x = fd \<or> Some x \<in> range (fd_of s)" for x
      by (rule open_add)
    have "srv s' = Ret (es @ [Accepted fd]) (stt\<lparr>watched := insert fd (watched stt)\<rparr>)"
      using accept s(1) by (simp add: ep_serve_def epoll_event_def)
    moreover have "ep_log s' (es @ [Accepted fd])" using s(4) accept(1,7) r
      by (auto simp: ep_log_def answered_def ep_serve_def server_line_def)
    ultimately show ?thesis using s(2,3) accept(1) r by (auto simp: ep_server_def ep_serve_def)
  next
    case (read fd fds c)
    note c = ep_read_client [OF inv read(2,4,5)]
    have r: "Some x \<in> range ((fd_of s)(c := None)) \<longleftrightarrow> x \<noteq> fd \<and> Some x \<in> range (fd_of s)" for x
    proof -
      have "fd_of s d = Some fd \<Longrightarrow> d = c" for d using k read(5) by (auto simp: ep_clients_def)
      with read(5) show ?thesis by (rule open_remove)
    qed
    have a: "answered s' = insert c (answered s)" "c \<notin> answered s"
      using read(1) c by (auto simp: answered_def ep_serve_def ep_reply_hello [OF srv])
    have fdin: "Some fd \<in> range (fd_of s)" using read(5) by (metis rangeI)
    have "srv s' = Ret (es @ [server_line, Writen fd server_hello, Closed fd])
        (stt\<lparr>sbuffer := client_buf, watched := watched stt - {fd}\<rparr>)"
      using read(1) s(1) c(2) by (simp add: ep_serve_def epoll_event_message [OF s(2)])
    moreover have "ep_log s' (es @ [server_line, Writen fd server_hello, Closed fd])"
      using s(4) a ep_answered_finite [OF k] r read(1) fdin
      by (auto simp: ep_log_def ep_serve_def server_line_def)
    ultimately show ?thesis using s(3) read(1,4) r by (auto simp: ep_server_def ep_serve_def buf_ok_def)
  qed (use ep_server_same [OF srv] in auto)
qed

lemma ep_inv_step: "ep_inv n server_fd sock s \<Longrightarrow> ep_step n server_fd sock s s' \<Longrightarrow> ep_inv n server_fd sock s'"
  using ep_clients_step ep_events_step ep_server_step by (simp add: ep_inv_def)

lemma ep_inv_start: "ep_inv n server_fd sock (ep_start server_fd)"
  by (auto simp: ep_inv_def ep_clients_def ep_client_ok_def ep_events_def ep_server_def ep_log_def ep_start_def
      epoll_start_def buf_ok_def answered_def)

lemma ep_inv_reach: "ep_reach n server_fd sock s \<Longrightarrow> ep_inv n server_fd sock s"
  by (induction rule: ep_reach.induct) (auto intro: ep_inv_start ep_inv_step)

section \<open>Every client is served\<close>

fun ep_todo :: "ep_client \<Rightarrow> nat" where
  "ep_todo C_Connect = 3"
| "ep_todo C_Send = 2"
| "ep_todo C_Read = 1"
| "ep_todo (C_Done r) = 0"

definition ep_stage :: "ep_sys \<Rightarrow> nat \<Rightarrow> nat" where
  "ep_stage s c = (if down s c \<noteq> [] then 0 else if fd_of s c \<noteq> None then 1 else 2)"

definition ep_work :: "nat \<Rightarrow> ep_sys \<Rightarrow> nat" where
  "ep_work n s = 2 * (\<Sum>c<n. ep_todo (cl s c) + ep_stage s c) + (if evs s = [] then 1 else 0)"

lemma ep_work_one:
  assumes "c < n" "\<And>d. d \<noteq> c \<Longrightarrow> cl s' d = cl s d \<and> ep_stage s' d = ep_stage s d"
    "ep_todo (cl s' c) + ep_stage s' c < ep_todo (cl s c) + ep_stage s c"
  shows "ep_work n s' < ep_work n s"
proof -
  have "(\<Sum>d<n. ep_todo (cl s' d) + ep_stage s' d) < (\<Sum>d<n. ep_todo (cl s d) + ep_stage s d)"
  proof (rule sum_strict_mono_ex1)
    show "\<forall>d \<in> {..<n}. ep_todo (cl s' d) + ep_stage s' d \<le> ep_todo (cl s d) + ep_stage s d"
    proof
      fix d show "ep_todo (cl s' d) + ep_stage s' d \<le> ep_todo (cl s d) + ep_stage s d"
        using assms(2) [of d] assms(3) by (cases "d = c") auto
    qed
    show "\<exists>d \<in> {..<n}. ep_todo (cl s' d) + ep_stage s' d < ep_todo (cl s d) + ep_stage s d"
      using assms(1,3) by blast
  qed simp
  then show ?thesis by (simp add: ep_work_def)
qed

lemma ep_known: "ep_clients n server_fd sock s \<Longrightarrow> c \<in> set (accq s) \<or> fd_of s c \<noteq> None \<Longrightarrow> c < n"
proof -
  assume k: "ep_clients n server_fd sock s" and c: "c \<in> set (accq s) \<or> fd_of s c \<noteq> None"
  then have "ep_client_ok sock s c" "n \<le> c \<Longrightarrow> cl s c = C_Connect" by (simp_all add: ep_clients_def)
  with c show "c < n" by (cases "c < n") (auto simp: ep_client_ok_def)
qed

lemma ep_work_step:
  assumes st: "ep_step n server_fd sock s s'" and inv: "ep_inv n server_fd sock s"
  shows "ep_work n s' < ep_work n s"
proof -
  have srv: "ep_server server_fd s" and k: "ep_clients n server_fd sock s" using inv by (simp_all add: ep_inv_def)
  from st show ?thesis
  proof (cases rule: ep_step.cases)
    case (wait fds)
    then have "ep_stage s' = ep_stage s" by (auto simp: ep_stage_def fun_eq_iff)
    then show ?thesis using wait by (simp add: ep_work_def)
  next
    case (accept fds c cs fd)
    have "ep_client_ok sock s c" using k by (simp add: ep_clients_def)
    then have "fd_of s c = None" "down s c = []" using accept(4) by (auto simp: ep_client_ok_def split: ep_client.splits)
    then show ?thesis using accept(1,4) ep_known [OF k, of c]
      by (intro ep_work_one [of c]) (auto simp: ep_stage_def ep_serve_def)
  next
    case (read fd fds c)
    note c = ep_read_client [OF inv read(2,4,5)]
    show ?thesis using read(1,5) c ep_known [OF k, of c]
      by (intro ep_work_one [of c]) (auto simp: ep_stage_def ep_serve_def ep_reply_hello [OF srv])
  qed (rule ep_work_one; auto simp: ep_stage_def)+
qed

definition ep_finished :: "nat \<Rightarrow> int \<Rightarrow> ep_sys \<Rightarrow> bool" where
  "ep_finished n sock s \<longleftrightarrow> evs s = [] \<and> (\<forall>c<n. cl s c = C_Done (client_run sock))"

lemma ep_step_wait:
  assumes "ep_server server_fd s" "evs s = []" "if fd = server_fd then accq s \<noteq> [] else \<exists>c. fd_of s c = Some fd \<and> up s c \<noteq> []"
  shows "ep_step n server_fd sock s (s\<lparr>evs := [fd]\<rparr>)"
proof (rule ep_step.wait)
  fix x assume "x \<in> set [fd]"
  moreover have "fd_of s c = Some fd \<Longrightarrow> Some fd \<in> range (fd_of s)" for c by (metis rangeI)
  ultimately show "ep_ready server_fd s x"
    using assms(1,3) by (auto simp: ep_ready_def ep_server_def split: if_splits)
qed (simp_all add: assms(2) MAX_EVENTS_def)

lemma ep_step_event:
  assumes inv: "ep_inv n server_fd sock s" and e: "evs s = fd # fds"
  shows "\<exists>s'. ep_step n server_fd sock s s'"
proof -
  have ev: "ep_events server_fd s" and k: "ep_clients n server_fd sock s" using inv by (simp_all add: ep_inv_def)
  have r: "is_ret (srv s)" using inv by (auto simp: ep_inv_def ep_server_def)
  show ?thesis
  proof (cases "fd = server_fd")
    case True
    then obtain c cs where q: "accq s = c # cs" using ev e by (cases "accq s") (auto simp: ep_events_def)
    have "{c. fd_of s c \<noteq> None} \<subseteq> {..<n}" using ep_known [OF k] by auto
    then have "finite (fd_of s ` {c. fd_of s c \<noteq> None})" by (simp add: finite_subset)
    then have "finite (insert server_fd (the ` fd_of s ` {c. fd_of s c \<noteq> None}))" by simp
    then have "finite (int -` insert server_fd (the ` fd_of s ` {c. fd_of s c \<noteq> None}))"
      by (rule finite_vimageI) (simp add: inj_on_def)
    then obtain m where "m \<notin> int -` insert server_fd (the ` fd_of s ` {c. fd_of s c \<noteq> None})"
      using ex_new_if_finite [OF infinite_UNIV_nat] by blast
    then have m: "int m \<notin> insert server_fd (the ` fd_of s ` {c. fd_of s c \<noteq> None})" by simp
    have "Some (int m) \<notin> range (fd_of s)"
    proof
      assume "Some (int m) \<in> range (fd_of s)"
      then obtain d where "fd_of s d = Some (int m)" by (metis rangeE)
      then have "int m \<in> the ` fd_of s ` {c. fd_of s c \<noteq> None}" by (force simp: image_iff)
      with m show False by auto
    qed
    moreover have "int m \<noteq> server_fd" using m by auto
    ultimately show ?thesis using ep_step.accept [of s server_fd fds c cs "int m" n sock] e r q True by fastforce
  next
    case False
    then obtain c where "fd_of s c = Some fd" using ev e by (auto simp: ep_events_def)
    then show ?thesis using ep_step.read [of s fd fds server_fd c n sock] e r False by blast
  qed
qed

lemma ep_progress:
  assumes inv: "ep_inv n server_fd sock s" and nf: "\<not> ep_finished n sock s"
  shows "\<exists>s'. ep_step n server_fd sock s s'"
proof (cases "evs s")
  case Nil
  have srv: "ep_server server_fd s" and k: "ep_clients n server_fd sock s" using inv by (simp_all add: ep_inv_def)
  have ok: "ep_client_ok sock s c" for c using k by (simp add: ep_clients_def)
  show ?thesis
  proof (cases "accq s = []")
    case False
    then show ?thesis using ep_step_wait [OF srv Nil, of server_fd n sock] by auto
  next
    case True
    obtain c where c: "c < n" "cl s c \<noteq> C_Done (client_run sock)" using nf Nil by (auto simp: ep_finished_def)
    show ?thesis
    proof (cases "cl s c")
      case C_Connect
      then show ?thesis using ep_step.connect [of c n s server_fd sock] c(1) True by (auto simp: BACKLOG_def)
    next
      case C_Send
      then show ?thesis using ep_step.send [of c n s server_fd sock] c(1) by blast
    next
      case C_Read
      show ?thesis
      proof (cases "down s c = []")
        case False
        then show ?thesis using ep_step.receive [of c n s server_fd sock] c(1) C_Read by blast
      next
        case d: True
        then obtain fd where fd: "fd_of s c = Some fd" "up s c \<noteq> []" using ok [of c] C_Read True by (auto simp: ep_client_ok_def)
        then have "fd \<noteq> server_fd" using k by (auto simp: ep_clients_def)
        then show ?thesis using ep_step_wait [OF srv Nil, of fd n sock] fd by auto
      qed
    next
      case (C_Done r)
      then show ?thesis using ok [of c] c(2) by (simp add: ep_client_ok_def)
    qed
  qed
qed (rule ep_step_event [OF inv])

interpretation ep: terminating_system "ep_step n server_fd sock" "ep_inv n server_fd sock" "ep_work n" "ep_finished n sock"
  for n server_fd sock
  by unfold_locales (use ep_inv_step ep_work_step ep_progress in blast)+

lemma ep_rest:
  assumes inv: "ep_inv n server_fd sock s" and rest: "\<not> (\<exists>s'. ep_step n server_fd sock s s')"
  shows "(\<exists>es st. srv s = Ret es st \<and> watched st = {server_fd} \<and> count_list es server_line = n \<and>
      (\<forall>fd. count_list es (Accepted fd) = count_list es (Closed fd))) \<and>
    (\<forall>c < n. cl s c = C_Done (client_run sock))"
proof -
  have fin: "\<forall>c < n. cl s c = C_Done (client_run sock)" using ep.progress [OF inv] rest by (auto simp: ep_finished_def)
  have k: "ep_clients n server_fd sock s" and srv: "ep_server server_fd s" using inv by (simp_all add: ep_inv_def)
  have ok: "ep_client_ok sock s c" "n \<le> c \<Longrightarrow> cl s c = C_Connect" for c using k by (simp_all add: ep_clients_def)
  have "answered s = {..<n}"
  proof (intro set_eqI)
    fix c show "c \<in> answered s \<longleftrightarrow> c \<in> {..<n}"
      using ok [of c] fin by (cases "c < n") (auto simp: answered_def ep_client_ok_def)
  qed
  moreover have "fd_of s c = None" for c
    using ok [of c] fin ep_known [OF k, of c] by (cases "c < n") (auto simp: ep_client_ok_def)
  then have "Some fd \<notin> range (fd_of s)" for fd by (metis option.distinct(1) rangeE)
  ultimately show ?thesis using srv fin by (auto simp: ep_server_def ep_log_def)
qed

section \<open>Property\<close>

text \<open>C36: any number of the repository's clients against its epoll server, in every interleaving and for every
  choice the kernel makes: nothing undefined happens, although all clients share one array, and the server prints
  nothing but the message of a client; no run goes on for ever, every run can be continued to the end, and when
  nothing can move any more every client has sent its message, printed the greeting of the server and
  closed, the server has printed one line for each of them, has closed every descriptor as often as it accepted
  it, and watches its listening descriptor only.\<close>

theorem epoll_serves_all:
  assumes "ep_reach n server_fd sock s"
  shows "(\<exists>es st. srv s = Ret es st \<and> {e \<in> set es. \<exists>t. e = Stdout t} \<subseteq> {server_line}) \<and>
    (\<nexists>f. f 0 = s \<and> (\<forall>k. ep_step n server_fd sock (f k) (f (Suc k)))) \<and>
    (\<exists>s'. (ep_step n server_fd sock)\<^sup>*\<^sup>* s s' \<and> ep_finished n sock s') \<and>
    ((\<exists>s'. ep_step n server_fd sock s s') \<or>
     (\<exists>es st. srv s = Ret es st \<and> watched st = {server_fd} \<and> count_list es server_line = n \<and>
        (\<forall>fd. count_list es (Accepted fd) = count_list es (Closed fd))) \<and>
     map (cl s) [0..<n] = replicate n (C_Done (client_run sock)))"
proof -
  have inv: "ep_inv n server_fd sock s" by (rule ep_inv_reach [OF assms])
  have "\<exists>es st. srv s = Ret es st \<and> {e \<in> set es. \<exists>t. e = Stdout t} \<subseteq> {server_line}"
    using inv by (auto simp: ep_inv_def ep_server_def ep_log_def)
  moreover have "\<nexists>f. f 0 = s \<and> (\<forall>k. ep_step n server_fd sock (f k) (f (Suc k)))"
    using ep.no_infinite_run inv by blast
  moreover have "\<exists>s'. (ep_step n server_fd sock)\<^sup>*\<^sup>* s s' \<and> ep_finished n sock s'"
    using ep.inevitable [OF inv] by blast
  moreover have "map (cl s) [0..<n] = replicate n (C_Done (client_run sock))" if "\<forall>c < n. cl s c = C_Done (client_run sock)"
    using that by (simp add: list_eq_iff_nth_eq)
  ultimately show ?thesis using ep_rest [OF inv] by (intro conjI) blast+
qed

theorem epoll_serves_all_witness:
  "\<exists>s. (ep_step 2 3 7)\<^sup>*\<^sup>* (ep_start 3) s \<and> cl s 0 = C_Done (client_run 7) \<and> cl s 1 = C_Done (client_run 7)"
proof -
  have "\<exists>s. (ep_step 2 3 7)\<^sup>*\<^sup>* (ep_start 3) s \<and> ep_finished 2 7 s"
    using epoll_serves_all [OF ep_reach.start, where n = 2 and server_fd = 3 and sock = 7] by blast
  then show ?thesis by (auto simp: ep_finished_def)
qed

end
