(* ===== verification/ChatProtocol.thy ===== *)
theory ChatProtocol
  imports Prelude
begin

text \<open>
  The line protocol of the chat programs (\<open>chatserver/protocol\<close>): the commands, the writer that
  turns a command into bytes, and the reader that takes commands off a byte stream. The stream is
  the list of bytes that arrive, and the error \<open>fin\<close> that the connection reports after them:
  \<open>EOF\<close> when the peer closes, another error when the connection breaks.
\<close>

section \<open>Commands\<close>

datatype chat_command =
    SendCommand string
  | NameCommand string
  | MessageCommand string string

datatype go_error = EOF | ConnErr | UnknownCommand

section \<open>The writer\<close>

text \<open>\<open>Write\<close> takes a value of any type; \<open>None\<close> is a value of a type that is no command.\<close>

fun encode :: "chat_command \<Rightarrow> bytes" where
  "encode (SendCommand m) = ''SEND '' @ m @ [LF]"
| "encode (MessageCommand n m) = ''MESSAGE '' @ n @ '' '' @ m @ [LF]"
| "encode (NameCommand n) = ''NAME '' @ n @ [LF]"

definition Write :: "chat_command option \<Rightarrow> go_error + bytes" where
  "Write command = (case command of Some v \<Rightarrow> Inr (encode v) | None \<Rightarrow> Inl UnknownCommand)"

section \<open>The reader\<close>

text \<open>
  \<open>ReadString\<close>: everything up to and including the first delimiter; without one, the bytes are
  consumed and the error of the connection is returned (\<open>None\<close> here).
\<close>

fun ReadString :: "char \<Rightarrow> bytes \<Rightarrow> string option \<times> bytes" where
  "ReadString d [] = (None, [])"
| "ReadString d (c # cs) =
     (if c = d then (Some [c], cs)
      else case ReadString d cs of (l, rest) \<Rightarrow> (map_option ((#) c) l, rest))"

abbreviation SP :: char where "SP \<equiv> CHR '' ''"

definition Read :: "go_error \<Rightarrow> bytes \<Rightarrow> (go_error + chat_command) \<times> bytes" where
  "Read fin bs =
     (case ReadString SP bs of
        (None, bs) \<Rightarrow> (Inl fin, bs)
      | (Some commandName, bs) \<Rightarrow>
          if commandName = ''MESSAGE '' then
            (case ReadString SP bs of
               (None, bs) \<Rightarrow> (Inl fin, bs)
             | (Some user, bs) \<Rightarrow>
                 (case ReadString LF bs of
                    (None, bs) \<Rightarrow> (Inl fin, bs)
                  | (Some message, bs) \<Rightarrow>
                      (Inr (MessageCommand (take (length user - 1) user)
                         (take (length message - 1) message)), bs)))
          else if commandName = ''SEND '' then
            (case ReadString LF bs of
               (None, bs) \<Rightarrow> (Inl fin, bs)
             | (Some message, bs) \<Rightarrow> (Inr (SendCommand (take (length message - 1) message)), bs))
          else if commandName = ''NAME '' then
            (case ReadString LF bs of
               (None, bs) \<Rightarrow> (Inl fin, bs)
             | (Some name, bs) \<Rightarrow> (Inr (NameCommand (take (length name - 1) name)), bs))
          else (Inl UnknownCommand, bs))"

lemma ReadString_append:
  "d \<notin> set xs \<Longrightarrow> ReadString d (xs @ d # ys) = (Some (xs @ [d]), ys)"
  by (induction xs) auto

lemma ReadString_None: "d \<notin> set xs \<Longrightarrow> ReadString d xs = (None, [])"
  by (induction xs) auto

lemma ReadString_cases:
  obtains "d \<notin> set bs" "ReadString d bs = (None, [])"
  | xs ys where "bs = xs @ d # ys" "d \<notin> set xs" "ReadString d bs = (Some (xs @ [d]), ys)"
proof (cases "d \<in> set bs")
  case True
  then obtain xs ys where "bs = xs @ d # ys" "d \<notin> set xs" by (meson split_list_first)
  then show ?thesis using that(2) ReadString_append by blast
qed (use that(1) ReadString_None in blast)

lemma Read_shorter: "Read fin bs = (Inr cmd, bs') \<Longrightarrow> length bs' < length bs"
proof (rule ReadString_cases [of SP bs])
  fix xs ys
  assume r: "Read fin bs = (Inr cmd, bs')" and bs: "bs = xs @ SP # ys" "ReadString SP bs = (Some (xs @ [SP]), ys)"
  obtain l zs where l: "ReadString LF ys = (l, zs)" "length zs \<le> length ys"
    by (rule ReadString_cases [of LF ys]) auto
  obtain u us where u: "ReadString SP ys = (u, us)" "length us \<le> length ys"
    by (rule ReadString_cases [of SP ys]) auto
  obtain m ms where m: "ReadString LF us = (m, ms)" "length ms \<le> length us"
    by (rule ReadString_cases [of LF us]) auto
  show ?thesis using r bs l u m by (auto simp: Read_def split: if_splits option.splits)
qed (auto simp: Read_def)

function ReadAll_from :: "go_error \<Rightarrow> bytes \<Rightarrow> chat_command list \<Rightarrow> chat_command list \<times> go_error option" where
  "ReadAll_from fin bs commands =
     (case Read fin bs of
        (Inr command, bs') \<Rightarrow> ReadAll_from fin bs' (commands @ [command])
      | (Inl err, bs') \<Rightarrow> if err = EOF then (commands, None) else (commands, Some err))"
  by pat_completeness auto
termination
  by (relation "measure (\<lambda>(fin, bs, commands). length bs)") (auto dest: Read_shorter [OF sym])

declare ReadAll_from.simps [simp del]

definition ReadAll :: "go_error \<Rightarrow> bytes \<Rightarrow> chat_command list \<times> go_error option" where
  "ReadAll fin bs = ReadAll_from fin bs []"

section \<open>The grammar of the protocol\<close>

text \<open>
  The commands that survive the wire: no newline in a message or a name, no space in the name of
  a \<open>MESSAGE\<close>. \<open>incomplete\<close>: bytes that begin a command and do not finish it.
\<close>

fun wire_safe :: "chat_command \<Rightarrow> bool" where
  "wire_safe (SendCommand m) = (LF \<notin> set m)"
| "wire_safe (MessageCommand n m) = (SP \<notin> set n \<and> LF \<notin> set m)"
| "wire_safe (NameCommand n) = (LF \<notin> set n)"

definition incomplete :: "bytes \<Rightarrow> bool" where
  "incomplete bs \<longleftrightarrow> SP \<notin> set bs \<or>
     (\<exists>r. bs = ''SEND '' @ r \<and> LF \<notin> set r) \<or> (\<exists>r. bs = ''NAME '' @ r \<and> LF \<notin> set r) \<or>
     (\<exists>r. bs = ''MESSAGE '' @ r \<and> SP \<notin> set r) \<or>
     (\<exists>n r. bs = ''MESSAGE '' @ n @ SP # r \<and> SP \<notin> set n \<and> LF \<notin> set r)"

lemma Read_word:
  assumes "SP \<notin> set w"
  shows "ReadString SP (w @ SP # r) = (Some (w @ '' ''), r)"
  using ReadString_append [OF assms] by simp

lemma Read_encode: "wire_safe cmd \<Longrightarrow> Read fin (encode cmd @ rest) = (Inr cmd, rest)"
proof (cases cmd)
  case (SendCommand m)
  assume "wire_safe cmd"
  then show ?thesis using Read_word [of "''SEND''" "m @ LF # rest"] SendCommand
    by (simp add: Read_def ReadString_append)
next
  case (NameCommand n)
  assume "wire_safe cmd"
  then show ?thesis using Read_word [of "''NAME''" "n @ LF # rest"] NameCommand
    by (simp add: Read_def ReadString_append)
next
  case (MessageCommand n m)
  assume "wire_safe cmd"
  then show ?thesis using Read_word [of "''MESSAGE''" "n @ SP # m @ LF # rest"] MessageCommand
    by (simp add: Read_def ReadString_append)
qed

lemma Read_incomplete: "incomplete bs \<Longrightarrow> Read fin bs = (Inl fin, [])"
  using Read_word [of "''SEND''"] Read_word [of "''NAME''"] Read_word [of "''MESSAGE''"]
  by (auto simp: incomplete_def Read_def ReadString_None ReadString_append)

text \<open>The three answers of \<open>Read\<close>, and the bytes behind each.\<close>

lemma Read_cases:
  obtains (command) cmd rest where "wire_safe cmd" "bs = encode cmd @ rest"
  | (unfinished) "incomplete bs"
  | (unknown) w rest where "bs = w @ SP # rest" "SP \<notin> set w" "w \<notin> {''SEND'', ''NAME'', ''MESSAGE''}"
proof (rule ReadString_cases [of SP bs])
  assume "SP \<notin> set bs"
  then show thesis using unfinished by (simp add: incomplete_def)
next
  fix w r assume bs: "bs = w @ SP # r" "SP \<notin> set w"
  consider "w = ''SEND''" | "w = ''NAME''" | "w = ''MESSAGE''" | "w \<notin> {''SEND'', ''NAME'', ''MESSAGE''}" by blast
  then show thesis
  proof cases
    case 1
    show thesis
    proof (cases "LF \<in> set r")
      case True
      then obtain m rest where "r = m @ LF # rest" "LF \<notin> set m" by (meson split_list_first)
      then show thesis using command [of "SendCommand m" rest] bs 1 by simp
    next
      case False
      then show thesis using bs 1 by (intro unfinished) (auto simp: incomplete_def)
    qed
  next
    case 2
    show thesis
    proof (cases "LF \<in> set r")
      case True
      then obtain m rest where "r = m @ LF # rest" "LF \<notin> set m" by (meson split_list_first)
      then show thesis using command [of "NameCommand m" rest] bs 2 by simp
    next
      case False
      then show thesis using bs 2 by (intro unfinished) (auto simp: incomplete_def)
    qed
  next
    case 3
    show thesis
    proof (cases "SP \<in> set r")
      case sp: True
      then obtain n r' where r: "r = n @ SP # r'" "SP \<notin> set n" by (meson split_list_first)
      show thesis
      proof (cases "LF \<in> set r'")
        case True
        then obtain m rest where "r' = m @ LF # rest" "LF \<notin> set m" by (meson split_list_first)
        then show thesis using command [of "MessageCommand n m" rest] bs 3 r by simp
      next
        case False
        then show thesis using bs 3 r by (intro unfinished) (auto simp: incomplete_def)
      qed
    next
      case False
      then show thesis using bs 3 by (intro unfinished) (auto simp: incomplete_def)
    qed
  next
    case 4
    then show thesis using unknown bs by blast
  qed
qed

lemma Read_unknown:
  assumes "SP \<notin> set w" "w \<notin> {''SEND'', ''NAME'', ''MESSAGE''}"
  shows "Read fin (w @ SP # rest) = (Inl UnknownCommand, rest)"
proof -
  have "w @ '' '' \<noteq> ''SEND '' \<and> w @ '' '' \<noteq> ''NAME '' \<and> w @ '' '' \<noteq> ''MESSAGE ''"
  proof (intro conjI notI)
    assume "w @ '' '' = ''SEND ''" then have "butlast (w @ '' '') = ''SEND''" by simp
    then show False using assms(2) by simp
  next
    assume "w @ '' '' = ''NAME ''" then have "butlast (w @ '' '') = ''NAME''" by simp
    then show False using assms(2) by simp
  next
    assume "w @ '' '' = ''MESSAGE ''" then have "butlast (w @ '' '') = ''MESSAGE''" by simp
    then show False using assms(2) by simp
  qed
  then show ?thesis by (simp add: Read_def Read_word [OF assms(1)])
qed

lemma Read_Inr_iff:
  "Read fin bs = (Inr cmd, rest) \<longleftrightarrow> wire_safe cmd \<and> bs = encode cmd @ rest"
proof
  assume r: "Read fin bs = (Inr cmd, rest)"
  show "wire_safe cmd \<and> bs = encode cmd @ rest"
    by (rule Read_cases [of bs]) (use r in \<open>auto simp: Read_encode Read_incomplete Read_unknown\<close>)
qed (auto intro: Read_encode)

lemma Read_eof_iff:
  "Read fin bs = (Inl fin, rest) \<and> fin \<noteq> UnknownCommand \<longleftrightarrow> incomplete bs \<and> rest = [] \<and> fin \<noteq> UnknownCommand"
proof
  assume r: "Read fin bs = (Inl fin, rest) \<and> fin \<noteq> UnknownCommand"
  show "incomplete bs \<and> rest = [] \<and> fin \<noteq> UnknownCommand"
    by (rule Read_cases [of bs]) (use r in \<open>auto simp: Read_encode Read_incomplete Read_unknown\<close>)
qed (auto intro: Read_incomplete)

lemma ReadAll_from_Inr:
  "wire_safe cmd \<Longrightarrow> ReadAll_from fin (encode cmd @ bs) acc = ReadAll_from fin bs (acc @ [cmd])"
  by (simp add: ReadAll_from.simps [of fin "encode cmd @ bs"] Read_encode)

lemma ReadAll_from_encoded:
  "\<forall>c \<in> set cmds. wire_safe c \<Longrightarrow>
   ReadAll_from fin (concat (map encode cmds) @ bs) acc = ReadAll_from fin bs (acc @ cmds)"
  by (induction cmds arbitrary: acc) (simp_all add: ReadAll_from_Inr)

section \<open>Properties\<close>

text \<open>C19: \<open>ReadAll\<close> accepts exactly the language of the protocol: on a stream that the peer closes it
  returns the commands \<open>cmds\<close> without error if and only if the stream is what the writer prints for
  them, one after the other, followed by at most one unfinished command, which is dropped; and all
  of them are commands that survive the wire.\<close>

theorem ReadAll_exact:
  "ReadAll EOF bs = (cmds, None) \<longleftrightarrow>
     (\<exists>tail. bs = concat (map encode cmds) @ tail \<and> list_all wire_safe cmds \<and> incomplete tail)"
proof
  assume "ReadAll EOF bs = (cmds, None)"
  moreover have "ReadAll_from EOF bs acc = (acc', None) \<Longrightarrow> \<exists>cs tail. acc' = acc @ cs \<and>
      bs = concat (map encode cs) @ tail \<and> list_all wire_safe cs \<and> incomplete tail" for acc acc'
  proof (induction "length bs" arbitrary: bs acc rule: less_induct)
    case less
    show ?case
    proof (rule Read_cases [of bs])
      fix cmd rest assume c: "wire_safe cmd" "bs = encode cmd @ rest"
      then obtain cs tail where "acc' = (acc @ [cmd]) @ cs" "rest = concat (map encode cs) @ tail"
        "list_all wire_safe cs" "incomplete tail"
        using less.hyps [of rest "acc @ [cmd]"] less.prems Read_shorter [of EOF bs cmd rest]
        by (auto simp: Read_encode ReadAll_from_Inr)
      with c show ?case by (intro exI [of _ "cmd # cs"] exI [of _ tail]) simp
    next
      assume i: "incomplete bs"
      then have "acc' = acc" using less.prems by (simp add: ReadAll_from.simps [of EOF bs] Read_incomplete)
      with i show ?case by (intro exI [of _ "[]"] exI [of _ bs]) simp
    next
      fix w rest assume "bs = w @ SP # rest" "SP \<notin> set w" "w \<notin> {''SEND'', ''NAME'', ''MESSAGE''}"
      then show ?case using less.prems by (simp add: ReadAll_from.simps [of EOF "w @ SP # rest"] Read_unknown)
    qed
  qed
  ultimately show "\<exists>tail. bs = concat (map encode cmds) @ tail \<and> list_all wire_safe cmds \<and> incomplete tail"
    by (fastforce simp: ReadAll_def)
next
  assume "\<exists>tail. bs = concat (map encode cmds) @ tail \<and> list_all wire_safe cmds \<and> incomplete tail"
  then show "ReadAll EOF bs = (cmds, None)"
    using ReadAll_from_encoded [of cmds EOF]
    by (auto simp: ReadAll_def list_all_iff ReadAll_from.simps Read_incomplete)
qed

text \<open>C35: the commands that come back from the wire unchanged, whatever follows them, are exactly the
  wire-safe ones: no newline in a message or name, no space in the name of a \<open>MESSAGE\<close>.\<close>

theorem write_read_roundtrip:
  assumes "Write (Some cmd) = Inr bs"
  shows "Read fin (bs @ rest) = (Inr cmd, rest) \<longleftrightarrow> wire_safe cmd"
  using assms by (auto simp: Write_def Read_Inr_iff)

theorem write_read_roundtrip_witness:
  "Read EOF (''MESSAGE user1 hello'' @ [LF] @ ''NAME x'') = (Inr (MessageCommand ''user1'' ''hello''), ''NAME x'')"
  using write_read_roundtrip [of "MessageCommand ''user1'' ''hello''" "''MESSAGE user1 hello'' @ [LF]" EOF "''NAME x''"]
  by (simp add: Write_def)

text \<open>The names that the server accepts are not all names the protocol can carry: \<open>NAME\<close> takes a
  name with a space in it, and every message of that user then reaches the other clients under the
  first word of the name, with the rest of the name in front of the text.\<close>

theorem name_with_space_garbled:
  assumes "SP \<notin> set first" and "LF \<notin> set more" and "LF \<notin> set first" and "LF \<notin> set m"
  shows "Read fin (encode (NameCommand (first @ '' '' @ more)) @ rest) =
      (Inr (NameCommand (first @ '' '' @ more)), rest) \<and>
    Read fin (encode (MessageCommand (first @ '' '' @ more) m) @ rest) =
      (Inr (MessageCommand first (more @ '' '' @ m)), rest)"
  using Read_encode [of "NameCommand (first @ '' '' @ more)" fin rest]
    Read_encode [of "MessageCommand first (more @ '' '' @ m)" fin rest] assms by simp

theorem name_with_space_garbled_witness:
  "Read EOF (encode (MessageCommand (''john'' @ '' '' @ ''doe'') ''hi'') @ []) =
   (Inr (MessageCommand ''john'' (''doe'' @ '' '' @ ''hi'')), [])"
  using name_with_space_garbled [of "''john''" "''doe''" "''hi''" EOF "[]"] by simp

text \<open>
  After a word that is no command only the word is gone: the rest of its line is read as the next
  command.
\<close>

lemma unknown_word_leaves_line:
  assumes "SP \<notin> set w" "w \<notin> {''SEND'', ''NAME'', ''MESSAGE''}" "wire_safe cmd"
  shows "Read fin (w @ '' '' @ encode cmd @ rest) = (Inl UnknownCommand, encode cmd @ rest)"
    "Read fin (encode cmd @ rest) = (Inr cmd, rest)"
  using Read_unknown [OF assms(1,2)] Read_encode [OF assms(3)] by simp_all

end
