(* ===== verification/ChatClients.thy ===== *)
theory ChatClients
  imports Prelude
begin

text \<open>
  The list of clients of the chat server, \<open>TcpChatServer.clients\<close>, as the Go slice it is: a view of
  an array that other slices may share. \<open>append\<close> writes into the array when there is room, and
  \<open>remove\<close> moves the later elements down in place. Clients are pointers, here numbers.
\<close>

section \<open>Slices\<close>

record slice =
  base :: nat
  count :: nat

type_synonym arrays = "nat list list"

text \<open>The array of a slice is \<open>mem ! base\<close>; its length is the capacity.\<close>

definition contents :: "arrays \<Rightarrow> slice \<Rightarrow> nat list" where
  "contents mem s = take (count s) (mem ! base s)"

definition wf_slice :: "arrays \<Rightarrow> slice \<Rightarrow> bool" where
  "wf_slice mem s \<longleftrightarrow> base s < length mem \<and> count s \<le> length (mem ! base s)"

text \<open>
  \<open>append(s.clients, client)\<close>: in place if the capacity allows it, otherwise in a new array, whose
  spare capacity \<open>grow\<close> is the runtime's choice.
\<close>

definition append_client :: "(nat \<Rightarrow> nat) \<Rightarrow> nat \<Rightarrow> arrays \<times> slice \<Rightarrow> arrays \<times> slice" where
  "append_client grow c = (\<lambda>(mem, s).
     if count s < length (mem ! base s)
     then (mem[base s := (mem ! base s)[count s := c]], s\<lparr>count := Suc (count s)\<rparr>)
     else (mem @ [contents mem s @ c # replicate (grow (count s)) 0],
           \<lparr>base = length mem, count = Suc (count s)\<rparr>))"

text \<open>
  \<open>append(s.clients[:i], s.clients[i+1:]...)\<close>: the elements behind \<open>i\<close> move down by one in the array
  itself; what was the last element stays behind the end. Slicing beyond the length panics.
\<close>

definition cut :: "nat \<Rightarrow> arrays \<times> slice \<Rightarrow> (arrays \<times> slice) option" where
  "cut i = (\<lambda>(mem, s).
     if Suc i \<le> count s
     then let a = mem ! base s in
       Some (mem[base s := take i a @ drop (Suc i) (contents mem s) @ drop (count s - 1) a],
             s\<lparr>count := count s - 1\<rparr>)
     else None)"

text \<open>
  \<open>for i, check := range s.clients\<close>: the slice is evaluated once (\<open>rng\<close>), its elements are read from
  the array as the loop gets to them.
\<close>

fun remove_loop :: "nat list \<Rightarrow> slice \<Rightarrow> nat \<Rightarrow> arrays \<times> slice \<Rightarrow> (arrays \<times> slice) option" where
  "remove_loop [] rng c ms = Some ms"
| "remove_loop (i # is) rng c ms =
     (if (fst ms ! base rng) ! i = c
      then (case cut i ms of None \<Rightarrow> None | Some ms \<Rightarrow> remove_loop is rng c ms)
      else remove_loop is rng c ms)"

definition remove_client :: "nat \<Rightarrow> arrays \<times> slice \<Rightarrow> (arrays \<times> slice) option" where
  "remove_client c ms = remove_loop [0..<count (snd ms)] (snd ms) c ms"

section \<open>append\<close>

lemma length_contents: "wf_slice mem s \<Longrightarrow> length (contents mem s) = count s"
  by (simp add: wf_slice_def contents_def)

lemma append_client_contents:
  assumes "wf_slice mem s" "append_client grow c (mem, s) = (mem', s')"
  shows "wf_slice mem' s'" "contents mem' s' = contents mem s @ [c]"
proof -
  show "wf_slice mem' s'"
    using assms by (auto simp: append_client_def wf_slice_def contents_def split: if_splits)
  show "contents mem' s' = contents mem s @ [c]"
  proof (cases "count s < length (mem ! base s)")
    case True
    then have "take (Suc (count s)) ((mem ! base s)[count s := c]) = take (count s) (mem ! base s) @ [c]"
      by (simp add: take_Suc_conv_app_nth)
    with True assms show ?thesis by (auto simp: append_client_def contents_def wf_slice_def)
  next
    case False
    with assms show ?thesis by (auto simp: append_client_def contents_def wf_slice_def)
  qed
qed

text \<open>Appending disturbs no other slice that ends at or before the one appended to.\<close>

lemma append_client_frame:
  assumes "append_client grow c (mem, s) = (mem', s')" "wf_slice mem t"
    and "base t = base s \<Longrightarrow> count t \<le> count s"
  shows "wf_slice mem' t" "contents mem' t = contents mem t"
proof -
  show "wf_slice mem' t"
    using assms by (cases "base t = base s")
      (auto simp: append_client_def wf_slice_def nth_append split: if_splits)
  show "contents mem' t = contents mem t"
    using assms
    by (cases "base t = base s")
      (auto simp: append_client_def contents_def wf_slice_def nth_append split: if_splits)
qed

section \<open>remove\<close>

lemma remove_loop_absent:
  "\<forall>i \<in> set is. (mem ! base rng) ! i \<noteq> c \<Longrightarrow> remove_loop is rng c (mem, s) = Some (mem, s)"
  by (induction "is") auto

lemma remove_loop_append:
  "remove_loop (is @ js) rng c ms = Option.bind (remove_loop is rng c ms) (remove_loop js rng c)"
  by (induction "is" arbitrary: ms) (auto split: option.split)

text \<open>
  The loop goes on after the cut and reads the shifted array up to the old length. Because no client
  is listed twice it finds the client no second time.
\<close>

lemma remove_client_present:
  assumes w: "wf_slice mem s" and d: "distinct (contents mem s)" and c: "c \<in> set (contents mem s)"
  obtains mem' s' where "remove_client c (mem, s) = Some (mem', s')" "wf_slice mem' s'"
    "contents mem' s' = remove1 c (contents mem s)" "base s' = base s" "Suc (count s') = count s"
    "length mem' = length mem" "length (mem' ! base s) = length (mem ! base s)"
    "\<And>a. a \<noteq> base s \<Longrightarrow> mem' ! a = mem ! a"
proof -
  let ?a = "mem ! base s"
  obtain xs ys where xy: "contents mem s = xs @ c # ys" "c \<notin> set xs"
    using c by (meson split_list_first)
  with d have cy: "c \<notin> set ys" by simp
  define i where "i = length xs"
  have n: "count s = Suc (i + length ys)"
    using length_contents [OF w] xy(1) by (simp add: i_def)
  have a: "?a = xs @ c # ys @ drop (count s) ?a"
    using xy(1) append_take_drop_id [of "count s" ?a] by (simp add: contents_def)
  define a' where "a' = take i ?a @ drop (Suc i) (contents mem s) @ drop (count s - 1) ?a"
  define l where "l = last (c # ys)"
  have last_elem: "?a ! (i + length ys) = l"
    by (subst a) (simp add: nth_append i_def l_def last_conv_nth)
  have dr: "drop (count s - 1) ?a = l # drop (count s) ?a"
    using w n last_elem Cons_nth_drop_Suc [of "i + length ys" ?a] by (simp add: wf_slice_def)
  have a'eq: "a' = xs @ ys @ l # drop (count s) ?a"
  proof -
    have "take i ?a = xs" by (subst a) (simp add: i_def)
    with dr show ?thesis by (simp add: a'_def xy(1) i_def)
  qed
  let ?mem = "mem[base s := a']" and ?s = "s\<lparr>count := count s - 1\<rparr>"
  have cut: "cut i (mem, s) = Some (?mem, ?s)" using n by (simp add: cut_def Let_def a'_def)
  have b: "base s < length mem" using w by (simp add: wf_slice_def)
  have split: "[0..<count s] = [0..<i] @ i # [Suc i..<count s]"
    using n upt_add_eq_append [of 0 i "Suc (length ys)"] by (simp add: upt_conv_Cons del: upt_Suc)
  have before: "remove_loop [0..<i] s c (mem, s) = Some (mem, s)"
    using xy(2) by (intro remove_loop_absent) (subst a, auto simp: nth_append i_def)
  have at: "?a ! i = c" by (subst a) (simp add: i_def)
  have after: "remove_loop [Suc i..<count s] s c (?mem, ?s) = Some (?mem, ?s)"
  proof (intro remove_loop_absent ballI)
    fix j assume j: "j \<in> set [Suc i..<count s]"
    then have "a' ! j \<in> set (ys @ [l])" "ys \<noteq> []"
      using n nth_mem [of "j - i" "ys @ [l]"] by (auto simp: a'eq nth_append i_def)
    then show "?mem ! base s ! j \<noteq> c" using cy b by (auto simp: l_def)
  qed
  have run: "remove_client c (mem, s) = Some (?mem, ?s)"
    using after by (simp add: remove_client_def split remove_loop_append before at cut)
  show thesis
  proof (rule that [OF run])
    have l': "length a' = length ?a" by (subst a) (simp add: a'eq)
    then show "wf_slice ?mem ?s" using w by (auto simp: wf_slice_def)
    show "contents ?mem ?s = remove1 c (contents mem s)"
      using b n xy by (simp add: contents_def a'eq remove1_append i_def xy(1) [unfolded contents_def])
    show "length (?mem ! base s) = length ?a" using l' b by simp
  qed (use n in simp_all)
qed

lemma remove_client_absent:
  assumes "wf_slice mem s" "c \<notin> set (contents mem s)"
  shows "remove_client c (mem, s) = Some (mem, s)"
proof -
  have "mem ! base s ! i \<noteq> c" if "i < count s" for i
    using assms that nth_mem [of i "contents mem s"] by (auto simp: contents_def wf_slice_def)
  then have "remove_loop [0..<count s] s c (mem, s) = Some (mem, s)"
    by (intro remove_loop_absent) simp
  then show ?thesis by (simp add: remove_client_def)
qed

lemma remove_client_equiv:
  assumes "wf_slice mem s" "distinct (contents mem s)"
  shows "\<exists>mem' s'. remove_client c (mem, s) = Some (mem', s') \<and> wf_slice mem' s' \<and>
    contents mem' s' = remove1 c (contents mem s)"
proof (cases "c \<in> set (contents mem s)")
  case True
  from remove_client_present [OF assms True] show ?thesis by metis
next
  case False
  with remove_client_absent [OF assms(1) False] assms(1) show ?thesis by (simp add: remove1_idem)
qed

section \<open>Property\<close>

text \<open>Although \<open>remove\<close> ranges over the list while it moves the elements of the same array, it is
  equivalent to deleting the client from the list: on a list without duplicates it never panics, and
  what the slice then shows is the list without the client, in the same order.\<close>

theorem remove_client_equiv_remove1:
  assumes "wf_slice mem s" and "distinct (contents mem s)"
  shows "\<exists>mem' s'. remove_client c (mem, s) = Some (mem', s') \<and> wf_slice mem' s' \<and>
    contents mem' s' = remove1 c (contents mem s)"
  using assms by (rule remove_client_equiv)

theorem remove_client_equiv_remove1_witness:
  "remove_client 7 ([[5, 7, 8, 9]], \<lparr>base = 0, count = 3\<rparr>) = Some ([[5, 8, 8, 9]], \<lparr>base = 0, count = 2\<rparr>) \<and>
   (\<exists>mem' s'. remove_client 7 ([[5, 7, 8, 9]], \<lparr>base = 0, count = 3\<rparr>) = Some (mem', s') \<and>
     contents mem' s' = [5, 8])"
proof -
  have "remove_client 7 ([[5, 7, 8, 9]], \<lparr>base = 0, count = 3\<rparr>) = Some ([[5, 8, 8, 9]], \<lparr>base = 0, count = 2\<rparr>)"
    by (simp add: remove_client_def cut_def contents_def upt_rec numeral_3_eq_3)
  moreover have "wf_slice [[5, 7, 8, 9]] \<lparr>base = 0, count = 3\<rparr>" "distinct (contents [[5, 7, 8, 9]] \<lparr>base = 0, count = 3\<rparr>)"
    "contents [[5, 7, 8, 9]] \<lparr>base = 0, count = 3\<rparr> = [5, 7, 8]"
    by (simp_all add: wf_slice_def contents_def)
  ultimately show ?thesis using remove_client_equiv_remove1 [of "[[5, 7, 8, 9]]" "\<lparr>base = 0, count = 3\<rparr>" 7]
    by auto
qed

end
