(* ===== verification/ChatServer.thy ===== *)
theory ChatServer
  imports ChatProtocol ChatClients
begin

text \<open>
  The chat server \<open>TcpChatServer\<close>. Its goroutines are the accept loop, one \<open>serve\<close> per client and one
  \<open>Broadcast\<close> per chat message; they share the slice of clients. \<open>accept\<close> and \<open>remove\<close> hold the mutex
  while they change it and are one step each; \<open>Broadcast\<close> takes no lock and reads the array element
  by element, so it interleaves with them. A client is the number of its connection, in the order
  of \<open>Accept\<close>.
\<close>

section \<open>The state\<close>

text \<open>\<open>serve\<close> reads commands, or is about to run its deferred \<open>remove\<close>, or has returned.\<close>

datatype serve_pc = Serving | Leaving | Gone

text \<open>\<open>Broadcast\<close> has just been started with its command, or is in its loop: the slice it ranges
  over, the next index and the command.\<close>

datatype broadcast = B_Start chat_command | B_Loop slice nat chat_command

record chat_sys =
  arrs :: arrays
  clients :: slice
  accepted :: nat
  cname :: "nat \<Rightarrow> string"
  input :: "nat \<Rightarrow> bytes"
  serve_at :: "nat \<Rightarrow> serve_pc"
  casts :: "(nat \<times> broadcast) list"
  written_to :: "(nat \<times> nat \<times> chat_command) list"

text \<open>
  \<open>casts\<close> lists the broadcasts in the order they were started, each with the client whose message it
  carries; \<open>written_to\<close> the writes to connections: which broadcast, which client, which command.
\<close>

definition chat_start :: "(nat \<Rightarrow> bytes) \<Rightarrow> chat_sys" where
  "chat_start sends = \<lparr>arrs = [[]], clients = \<lparr>base = 0, count = 0\<rparr>, accepted = 0, cname = (\<lambda>_. ''''),
     input = sends, serve_at = (\<lambda>_. Serving), casts = [], written_to = []\<rparr>"

section \<open>The operations\<close>

definition accept_conn :: "(nat \<Rightarrow> nat) \<Rightarrow> chat_sys \<Rightarrow> chat_sys" where
  "accept_conn grow s =
     (case append_client grow (accepted s) (arrs s, clients s) of (mem, sl) \<Rightarrow>
        s\<lparr>arrs := mem, clients := sl, accepted := Suc (accepted s)\<rparr>)"

text \<open>One turn of the loop in \<open>serve\<close>; an error other than \<open>EOF\<close> is logged and the loop goes on.\<close>

definition serve_turn :: "go_error \<Rightarrow> nat \<Rightarrow> chat_sys \<Rightarrow> chat_sys" where
  "serve_turn fin c s =
     (case Read fin (input s c) of (res, rest) \<Rightarrow>
        let s = s\<lparr>input := (input s)(c := rest)\<rparr> in
        (case res of
           Inr (SendCommand m) \<Rightarrow> s\<lparr>casts := casts s @ [(c, B_Start (MessageCommand (cname s c) m))]\<rparr>
         | Inr (NameCommand n) \<Rightarrow> s\<lparr>cname := (cname s)(c := n)\<rparr>
         | Inr (MessageCommand n m) \<Rightarrow> s
         | Inl err \<Rightarrow> if err = EOF then s\<lparr>serve_at := (serve_at s)(c := Leaving)\<rparr> else s))"

definition leave :: "nat \<Rightarrow> chat_sys \<Rightarrow> chat_sys option" where
  "leave c s = map_option (\<lambda>(mem, sl).
     s\<lparr>arrs := mem, clients := sl, serve_at := (serve_at s)(c := Gone)\<rparr>)
     (remove_client c (arrs s, clients s))"

text \<open>One step of broadcast \<open>b\<close>: evaluate \<open>range s.clients\<close>, or write to the next client.\<close>

definition broadcast_step :: "nat \<Rightarrow> chat_sys \<Rightarrow> chat_sys option" where
  "broadcast_step b s =
     (case casts s ! b of
        (c, B_Start cmd) \<Rightarrow> Some (s\<lparr>casts := (casts s)[b := (c, B_Loop (clients s) 0 cmd)]\<rparr>)
      | (c, B_Loop rng i cmd) \<Rightarrow>
          if i < count rng
          then Some (s\<lparr>casts := (casts s)[b := (c, B_Loop rng (Suc i) cmd)],
                       written_to := written_to s @ [(b, arrs s ! base rng ! i, cmd)]\<rparr>)
          else None)"

text \<open>\<open>Send\<close>, which no code calls: the first client of that name.\<close>

definition send_to :: "string \<Rightarrow> chat_sys \<Rightarrow> nat option" where
  "send_to nm s = find (\<lambda>c. cname s c = nm) (contents (arrs s) (clients s))"

inductive chat_step :: "(nat \<Rightarrow> nat) \<Rightarrow> (nat \<Rightarrow> go_error) \<Rightarrow> chat_sys \<Rightarrow> chat_sys \<Rightarrow> bool"
  for grow :: "nat \<Rightarrow> nat" and fin :: "nat \<Rightarrow> go_error" where
  accept: "chat_step grow fin s (accept_conn grow s)"
| serve: "c < accepted s \<Longrightarrow> serve_at s c = Serving \<Longrightarrow> chat_step grow fin s (serve_turn (fin c) c s)"
| remove: "c < accepted s \<Longrightarrow> serve_at s c = Leaving \<Longrightarrow> leave c s = Some s' \<Longrightarrow> chat_step grow fin s s'"
| cast: "b < length (casts s) \<Longrightarrow> broadcast_step b s = Some s' \<Longrightarrow> chat_step grow fin s s'"

inductive_cases chat_stepE [step_elims]: "chat_step grow fin s s'"

inductive chat_reach ::
  "(nat \<Rightarrow> nat) \<Rightarrow> (nat \<Rightarrow> go_error) \<Rightarrow> (nat \<Rightarrow> bytes) \<Rightarrow> chat_sys \<Rightarrow> bool"
  for grow :: "nat \<Rightarrow> nat" and fin :: "nat \<Rightarrow> go_error" and sends :: "nat \<Rightarrow> bytes" where
  init: "chat_reach grow fin sends (chat_start sends)"
| step: "chat_reach grow fin sends s \<Longrightarrow> chat_step grow fin s s' \<Longrightarrow> chat_reach grow fin sends s'"

section \<open>The list of clients\<close>

definition listed :: "chat_sys \<Rightarrow> nat list" where
  "listed s = filter (\<lambda>c. serve_at s c \<noteq> Gone) [0..<accepted s]"

definition clients_inv :: "chat_sys \<Rightarrow> bool" where
  "clients_inv s \<longleftrightarrow> wf_slice (arrs s) (clients s) \<and> contents (arrs s) (clients s) = listed s \<and>
     (\<forall>c. accepted s \<le> c \<longrightarrow> serve_at s c = Serving)"

lemma distinct_listed: "distinct (listed s)"
  by (simp add: listed_def)

lemma clients_inv_start: "clients_inv (chat_start sends)"
  by (simp add: clients_inv_def chat_start_def wf_slice_def contents_def listed_def)

lemma clients_inv_accept: "clients_inv s \<Longrightarrow> clients_inv (accept_conn grow s)"
proof -
  assume i: "clients_inv s"
  obtain mem sl where a: "append_client grow (accepted s) (arrs s, clients s) = (mem, sl)" by fastforce
  have "wf_slice (arrs s) (clients s)" using i by (simp add: clients_inv_def)
  from append_client_contents [OF this a] i show "clients_inv (accept_conn grow s)"
    by (auto simp: clients_inv_def accept_conn_def a listed_def)
qed

text \<open>What \<open>serve_turn\<close> leaves alone.\<close>

lemma serve_turn_frame [simp]:
  "arrs (serve_turn fin c s) = arrs s" "clients (serve_turn fin c s) = clients s"
  "accepted (serve_turn fin c s) = accepted s" "written_to (serve_turn fin c s) = written_to s"
  by (simp_all add: serve_turn_def Let_def split: prod.split sum.split chat_command.split)

lemma serve_turn_pc:
  "serve_at s c = Serving \<Longrightarrow> serve_at (serve_turn fin c s) d \<in> {serve_at s d, Leaving} \<and>
   (serve_at (serve_turn fin c s) d = Gone \<longleftrightarrow> serve_at s d = Gone) \<and>
   (d \<noteq> c \<longrightarrow> serve_at (serve_turn fin c s) d = serve_at s d)"
  by (auto simp: serve_turn_def Let_def split: prod.split sum.split chat_command.split)

lemma leave_some:
  assumes "clients_inv s" "c < accepted s" "serve_at s c \<noteq> Gone"
  obtains mem sl where "leave c s = Some (s\<lparr>arrs := mem, clients := sl, serve_at := (serve_at s)(c := Gone)\<rparr>)"
    "wf_slice mem sl" "contents mem sl = remove1 c (listed s)"
proof -
  have w: "wf_slice (arrs s) (clients s)" "contents (arrs s) (clients s) = listed s"
    using assms(1) by (simp_all add: clients_inv_def)
    have "distinct (contents (arrs s) (clients s))" using w(2) distinct_listed by simp
  then obtain mem sl where "remove_client c (arrs s, clients s) = Some (mem, sl)"
    "wf_slice mem sl" "contents mem sl = remove1 c (listed s)"
    using remove_client_equiv [OF w(1), of c] w(2) by auto
  then show thesis by (intro that [of sl mem]) (simp_all add: leave_def)
qed

lemma clients_inv_leave:
  assumes "clients_inv s" "c < accepted s" "serve_at s c \<noteq> Gone" "leave c s = Some s'"
  shows "clients_inv s'"
proof -
  obtain mem sl where "leave c s = Some (s\<lparr>arrs := mem, clients := sl, serve_at := (serve_at s)(c := Gone)\<rparr>)"
    "wf_slice mem sl" "contents mem sl = remove1 c (listed s)"
    using leave_some [OF assms(1-3)] .
  moreover have "remove1 c (listed s) = filter (\<lambda>d. ((serve_at s)(c := Gone)) d \<noteq> Gone) [0..<accepted s]"
    unfolding distinct_remove1_removeAll [OF distinct_listed] removeAll_filter_not_eq
    by (auto simp: listed_def intro: filter_cong)
  ultimately show ?thesis using assms(1,2,4) by (auto simp: clients_inv_def listed_def)
qed

lemma broadcast_step_frame:
  assumes "broadcast_step b s = Some s'"
  shows "arrs s' = arrs s" "clients s' = clients s" "accepted s' = accepted s" "serve_at s' = serve_at s"
    "input s' = input s" "cname s' = cname s"
  using assms by (auto simp: broadcast_step_def split: prod.splits broadcast.splits if_splits)

lemma clients_inv_step: "chat_step grow fin s s' \<Longrightarrow> clients_inv s \<Longrightarrow> clients_inv s'"
proof (induction rule: chat_step.induct)
  case (serve c s)
  have "listed (serve_turn (fin c) c s) = listed s"
    using serve_turn_pc [OF serve(2)] by (simp add: listed_def)
  moreover have "serve_at (serve_turn (fin c) c s) d = Serving" if "accepted s \<le> d" for d
    using serve_turn_pc [OF serve(2), of "fin c" d] serve(1,3) that by (auto simp: clients_inv_def)
  ultimately show ?case using serve(3) by (simp add: clients_inv_def)
next
  case (cast b s s')
  then show ?case using broadcast_step_frame [OF cast(2)] by (simp add: clients_inv_def listed_def)
qed (auto intro: clients_inv_accept clients_inv_leave)

lemma clients_inv_reach: "chat_reach grow fin sends s \<Longrightarrow> clients_inv s"
  by (induction rule: chat_reach.induct) (auto intro: clients_inv_start clients_inv_step)

end
