(* ===== verification/ChatDelivery.thy ===== *)
theory ChatDelivery
  imports ChatServer
begin

text \<open>
  What the chat server delivers: which messages its clients' byte streams announce, that exactly
  those are broadcast, whom a broadcast reaches, and how it can go wrong when a client leaves.
\<close>

section \<open>What a client announces\<close>

text \<open>The messages of a byte stream, each under the name set last before it; unknown words are skipped.\<close>

lemma Read_Unknown_shorter: "Read EOF bs = (Inl UnknownCommand, rest) \<Longrightarrow> length rest < length bs"
  by (rule Read_cases [of bs]) (auto simp: Read_encode Read_incomplete Read_unknown)

function announced :: "string \<Rightarrow> bytes \<Rightarrow> chat_command list" where
  "announced nm bs =
     (case Read EOF bs of
        (Inr (SendCommand m), rest) \<Rightarrow> MessageCommand nm m # announced nm rest
      | (Inr (NameCommand n), rest) \<Rightarrow> announced n rest
      | (Inr (MessageCommand n m), rest) \<Rightarrow> announced nm rest
      | (Inl err, rest) \<Rightarrow> if err = UnknownCommand then announced nm rest else [])"
  by pat_completeness auto
termination
  by (relation "measure (\<lambda>(nm, bs). length bs)")
    (auto dest: Read_shorter [OF sym] Read_Unknown_shorter [OF sym])

declare announced.simps [simp del]

lemma announced_incomplete: "incomplete bs \<Longrightarrow> announced nm bs = []"
  by (simp add: announced.simps [of nm bs] Read_incomplete)

lemma announced_Nil [simp]: "announced nm [] = []"
  by (rule announced_incomplete) (simp add: incomplete_def)

lemma announced_encode:
  assumes "wire_safe cmd"
  shows "announced nm (encode cmd @ bs) =
    (case cmd of SendCommand m \<Rightarrow> MessageCommand nm m # announced nm bs
     | NameCommand n \<Rightarrow> announced n bs | MessageCommand n m \<Rightarrow> announced nm bs)"
  using Read_encode [OF assms, of EOF bs]
  by (simp add: announced.simps [of nm "encode cmd @ bs"] split: chat_command.split)

text \<open>What \<open>Read\<close> gives on a connection is what it would give on one that is closed, up to the error
  at the end.\<close>

lemma Read_fin:
  assumes "fin \<noteq> UnknownCommand"
  obtains cmd rest where "Read fin bs = (Inr cmd, rest)" "Read EOF bs = (Inr cmd, rest)"
  | rest where "Read fin bs = (Inl UnknownCommand, rest)" "Read EOF bs = (Inl UnknownCommand, rest)"
  | "Read fin bs = (Inl fin, [])" "Read EOF bs = (Inl EOF, [])"
  by (rule Read_cases [of bs]) (auto simp: Read_encode Read_incomplete Read_unknown intro: that)

section \<open>What is broadcast\<close>

fun cast_cmd :: "broadcast \<Rightarrow> chat_command" where
  "cast_cmd (B_Start cmd) = cmd"
| "cast_cmd (B_Loop rng i cmd) = cmd"

definition launched :: "nat \<Rightarrow> chat_sys \<Rightarrow> chat_command list" where
  "launched c s = map (cast_cmd \<circ> snd) (filter (\<lambda>x. fst x = c) (casts s))"

definition launch_inv :: "(nat \<Rightarrow> bytes) \<Rightarrow> chat_sys \<Rightarrow> bool" where
  "launch_inv sends s \<longleftrightarrow>
     (\<forall>c. launched c s @ announced (cname s c) (input s c) = announced '''' (sends c)) \<and>
     (\<forall>c. serve_at s c \<noteq> Serving \<longrightarrow> input s c = [])"

lemma map_filter_update:
  "b < length xs \<Longrightarrow> P y = P (xs ! b) \<Longrightarrow> f y = f (xs ! b) \<Longrightarrow>
   map f (filter P (xs[b := y])) = map f (filter P xs)"
  by (induction xs arbitrary: b) (auto split: nat.split simp: less_Suc_eq_0_disj)

lemma launched_cast: "b < length (casts s) \<Longrightarrow> broadcast_step b s = Some s' \<Longrightarrow> launched c s' = launched c s"
  unfolding launched_def
  by (auto simp: broadcast_step_def intro!: map_filter_update split: prod.splits broadcast.splits if_splits)

lemma launch_inv_serve:
  assumes "launch_inv sends s" "serve_at s c = Serving" "fin \<noteq> UnknownCommand"
  shows "launch_inv sends (serve_turn fin c s)"
proof -
  note inv = assms(1) [unfolded launch_inv_def]
  let ?bs = "input s c" and ?nm = "cname s c"
  have eq: "launched c s @ announced ?nm ?bs = announced '''' (sends c)" using inv by blast
  show ?thesis
  proof (rule Read_fin [OF assms(3), of ?bs])
    fix cmd rest assume r: "Read fin ?bs = (Inr cmd, rest)" "Read EOF ?bs = (Inr cmd, rest)"
    show ?thesis using inv eq assms(2) r
      by (cases cmd) (auto simp: launch_inv_def serve_turn_def Let_def launched_def announced.simps [of ?nm ?bs] split: if_splits)
  next
    fix rest assume r: "Read fin ?bs = (Inl UnknownCommand, rest)" "Read EOF ?bs = (Inl UnknownCommand, rest)"
    show ?thesis using inv eq assms(2) r
      by (auto simp: launch_inv_def serve_turn_def Let_def launched_def announced.simps [of ?nm ?bs] split: if_splits)
  next
    assume r: "Read fin ?bs = (Inl fin, [])" "Read EOF ?bs = (Inl EOF, [])"
    show ?thesis using inv eq assms(2) r
      by (auto simp: launch_inv_def serve_turn_def Let_def launched_def announced.simps [of ?nm ?bs] split: if_splits)
  qed
qed

lemma leave_frame:
  assumes "leave c s = Some s'"
  shows "casts s' = casts s" "written_to s' = written_to s" "input s' = input s" "cname s' = cname s"
    "accepted s' = accepted s" "serve_at s' = (serve_at s)(c := Gone)"
  using assms by (auto simp: leave_def)

lemma accept_frame [simp]:
  "casts (accept_conn grow s) = casts s" "written_to (accept_conn grow s) = written_to s"
  "input (accept_conn grow s) = input s" "cname (accept_conn grow s) = cname s"
  "serve_at (accept_conn grow s) = serve_at s" "accepted (accept_conn grow s) = Suc (accepted s)"
  by (simp_all add: accept_conn_def split: prod.split)

lemma launch_inv_step:
  assumes "chat_step grow fin s s'" "launch_inv sends s" "\<And>c. fin c \<noteq> UnknownCommand"
  shows "launch_inv sends s'"
  using assms(1)
proof (cases rule: chat_step.cases)
  case accept
  then show ?thesis using assms(2) by (simp add: launch_inv_def launched_def)
next
  case (serve c)
  then show ?thesis using launch_inv_serve [OF assms(2) serve(3) assms(3)] by simp
next
  case (remove c)
  then show ?thesis using assms(2) leave_frame [OF remove(3)] by (auto simp: launch_inv_def launched_def)
next
  case (cast b)
  then show ?thesis using assms(2) launched_cast [OF cast] broadcast_step_frame [OF cast(2)]
    by (simp add: launch_inv_def)
qed

lemma launch_inv_reach:
  assumes "chat_reach grow fin sends s" "\<And>c. fin c \<noteq> UnknownCommand"
  shows "launch_inv sends s"
  using assms(1)
proof (induction rule: chat_reach.induct)
  case (step s s')
  from step.hyps(2) step.IH assms(2) show ?case by (rule launch_inv_step)
qed (simp add: launch_inv_def chat_start_def launched_def)

section \<open>Who receives a broadcast\<close>

text \<open>The clients that broadcast \<open>b\<close> has written to so far, in order.\<close>

definition recipients :: "nat \<Rightarrow> chat_sys \<Rightarrow> nat list" where
  "recipients b s = map (\<lambda>x. fst (snd x)) (filter (\<lambda>x. fst x = b) (written_to s))"

text \<open>Every write carries the command of its broadcast, and a broadcast that has not started wrote
  nothing.\<close>

definition log_inv :: "chat_sys \<Rightarrow> bool" where
  "log_inv s \<longleftrightarrow> list_all (\<lambda>(b, d, cmd). b < length (casts s) \<and>
     (\<exists>c rng i. casts s ! b = (c, B_Loop rng i cmd))) (written_to s)"

lemma casts_serve_turn: "\<exists>ys. casts (serve_turn fin c s) = casts s @ ys"
  by (auto simp: serve_turn_def Let_def split: prod.split sum.split chat_command.split)

lemma log_inv_more: "log_inv s \<Longrightarrow> casts s' = casts s @ ys \<Longrightarrow> written_to s' = written_to s \<Longrightarrow> log_inv s'"
  by (auto simp: log_inv_def list_all_iff nth_append)

lemma log_inv_step: "chat_step grow fin s s' \<Longrightarrow> log_inv s \<Longrightarrow> log_inv s'"
proof (induction rule: chat_step.induct)
  case (serve c s)
  then show ?case using casts_serve_turn log_inv_more serve_turn_frame(4) by metis
next
  case (remove c s s')
  then show ?case using leave_frame [OF remove(3)] log_inv_more [of s s' "[]"] by simp
next
  case (cast b s s')
  obtain c br where br: "casts s ! b = (c, br)" by (cases "casts s ! b")
  show ?case
  proof (cases br)
    case (B_Start cmd)
    then have "s' = s\<lparr>casts := (casts s)[b := (c, B_Loop (clients s) 0 cmd)]\<rparr>"
      using cast(2) br by (simp add: broadcast_step_def)
    moreover have "list_all (\<lambda>(b', d, cmd). b' \<noteq> b) (written_to s)"
      using cast(3) br B_Start by (fastforce simp: log_inv_def list_all_iff)
    ultimately show ?thesis using cast(3) by (fastforce simp: log_inv_def list_all_iff nth_list_update)
  next
    case (B_Loop rng i cmd)
    then have s': "s' = s\<lparr>casts := (casts s)[b := (c, B_Loop rng (Suc i) cmd)],
        written_to := written_to s @ [(b, arrs s ! base rng ! i, cmd)]\<rparr>"
      using cast(2) br by (simp add: broadcast_step_def split: if_splits)
    then show ?thesis using cast(1,3) br B_Loop
      by (fastforce simp: log_inv_def list_all_iff nth_list_update)
  qed
qed (auto intro: log_inv_more [where ys = "[]"])

lemma log_inv_start: "log_inv (chat_start sends)"
  by (simp add: log_inv_def chat_start_def)

lemma log_inv_reach: "chat_reach grow fin sends s \<Longrightarrow> log_inv s"
  by (induction rule: chat_reach.induct) (auto intro: log_inv_step log_inv_start)

text \<open>
  A quiet step removes no client. Seen from a state \<open>s0\<close> in which broadcast \<open>b\<close> has not evaluated its
  range yet, this is kept by quiet steps.
\<close>

definition quiet_step :: "(nat \<Rightarrow> nat) \<Rightarrow> (nat \<Rightarrow> go_error) \<Rightarrow> chat_sys \<Rightarrow> chat_sys \<Rightarrow> bool" where
  "quiet_step grow fin s s' \<longleftrightarrow> chat_step grow fin s s' \<and> {c. serve_at s' c = Gone} = {c. serve_at s c = Gone}"

definition on_course :: "nat list \<Rightarrow> nat \<Rightarrow> chat_sys \<Rightarrow> bool" where
  "on_course old b s \<longleftrightarrow> clients_inv s \<and> log_inv s \<and> b < length (casts s) \<and> prefix old (listed s) \<and>
     (case snd (casts s ! b) of
        B_Start cmd \<Rightarrow> recipients b s = []
      | B_Loop rng i cmd \<Rightarrow> wf_slice (arrs s) rng \<and> i \<le> count rng \<and>
          (base rng = base (clients s) \<longrightarrow> count rng \<le> count (clients s)) \<and>
          recipients b s = take i (contents (arrs s) rng) \<and>
          prefix old (contents (arrs s) rng) \<and> prefix (contents (arrs s) rng) (listed s))"

lemma on_course_start:
  assumes "clients_inv s" "log_inv s" "b < length (casts s)" "casts s ! b = (c, B_Start cmd)"
  shows "on_course (listed s) b s"
  using assms by (fastforce simp: on_course_def recipients_def log_inv_def list_all_iff filter_empty_conv)

lemma listed_same:
  "{c. serve_at s' c = Gone} = {c. serve_at s c = Gone} \<Longrightarrow> accepted s' = accepted s \<Longrightarrow> listed s' = listed s"
  by (auto simp: listed_def set_eq_iff intro: filter_cong)

lemma on_course_same:
  assumes "on_course old b s" "clients_inv s'" "log_inv s'" "casts s' ! b = casts s ! b" "b < length (casts s')"
    and "arrs s' = arrs s" "clients s' = clients s" "written_to s' = written_to s" "listed s' = listed s"
  shows "on_course old b s'"
  using assms by (simp add: on_course_def recipients_def split: broadcast.splits)

lemma on_course_accept:
  assumes "on_course old b s"
  shows "on_course old b (accept_conn grow s)"
proof -
  let ?s = "accept_conn grow s"
  obtain mem sl where a: "append_client grow (accepted s) (arrs s, clients s) = (mem, sl)" by fastforce
  have s': "arrs ?s = mem" "clients ?s = sl" by (simp_all add: accept_conn_def a)
  have i: "clients_inv s" "log_inv s" using assms by (simp_all add: on_course_def)
  have "listed ?s = listed s @ [accepted s]" using i(1) by (simp add: listed_def clients_inv_def)
  then have l: "prefix (listed s) (listed ?s)" by simp
  have keep: "wf_slice mem rng \<and> contents mem rng = contents (arrs s) rng \<and>
      (base rng = base sl \<longrightarrow> count rng \<le> count sl)"
    if "wf_slice (arrs s) rng" "base rng = base (clients s) \<longrightarrow> count rng \<le> count (clients s)" for rng
    using append_client_frame [OF a that(1)] that a
    by (auto simp: append_client_def wf_slice_def split: if_splits)
  show ?thesis
    using assms clients_inv_accept [OF i(1), of grow] log_inv_more [OF i(2), of ?s "[]"] l keep
    by (auto simp: on_course_def s' recipients_def split: broadcast.splits
        intro: prefix_order.order_trans)
qed

lemma on_course_cast:
  assumes "on_course old b s" "b' < length (casts s)" "broadcast_step b' s = Some s'" "log_inv s'"
  shows "on_course old b s'"
proof -
  note fr = broadcast_step_frame [OF assms(3)]
  have ci: "clients_inv s'" "listed s' = listed s"
    using assms(1) fr by (simp_all add: on_course_def clients_inv_def listed_def)
  show ?thesis
  proof (cases "b' = b")
    case False
    have "casts s' ! b = casts s ! b" "length (casts s') = length (casts s)" "recipients b s' = recipients b s"
      using assms(3) False
      by (auto simp: broadcast_step_def recipients_def split: prod.splits broadcast.splits if_splits)
    then show ?thesis using assms(1,4) ci fr by (simp add: on_course_def split: broadcast.splits)
  next
    case True
    obtain c br where br: "casts s ! b = (c, br)" by (cases "casts s ! b")
    show ?thesis
    proof (cases br)
      case (B_Start cmd)
      then have "casts s' ! b = (c, B_Loop (clients s) 0 cmd)" "length (casts s') = length (casts s)"
        "recipients b s' = recipients b s"
        using assms(2,3) br True by (auto simp: broadcast_step_def recipients_def)
      then show ?thesis using assms(1,4) ci fr br B_Start by (simp add: on_course_def clients_inv_def)
    next
      case (B_Loop rng i cmd)
      then have i: "i < count rng" and s': "casts s' ! b = (c, B_Loop rng (Suc i) cmd)"
        "length (casts s') = length (casts s)"
        "recipients b s' = recipients b s @ [arrs s ! base rng ! i]"
        using assms(2,3) br True by (auto simp: broadcast_step_def recipients_def split: if_splits)
      have "wf_slice (arrs s) rng" using assms(1) br B_Loop by (simp add: on_course_def)
      then have "take (Suc i) (contents (arrs s) rng) = take i (contents (arrs s) rng) @ [arrs s ! base rng ! i]"
        using i by (simp add: contents_def wf_slice_def take_Suc_conv_app_nth)
      then show ?thesis using assms(1,4) ci fr br B_Loop s' i by (simp add: on_course_def)
    qed
  qed
qed

lemma on_course_quiet:
  assumes "quiet_step grow fin s s'" "on_course old b s"
  shows "on_course old b s'"
proof -
  have st: "chat_step grow fin s s'" and g: "{c. serve_at s' c = Gone} = {c. serve_at s c = Gone}"
    using assms(1) by (simp_all add: quiet_step_def)
  have i: "clients_inv s'" "log_inv s'" "b < length (casts s)"
    using assms(2) clients_inv_step [OF st] log_inv_step [OF st] by (simp_all add: on_course_def)
  show ?thesis using st
  proof (cases rule: chat_step.cases)
    case accept
    then show ?thesis using on_course_accept [OF assms(2)] by simp
  next
    case (serve c)
    obtain ys where "casts s' = casts s @ ys" using casts_serve_turn serve(1) by blast
    moreover have "listed s' = listed s" using listed_same [OF g] serve(1) by simp
    ultimately show ?thesis using i serve(1) by (intro on_course_same [OF assms(2)]) (simp_all add: nth_append)
  next
    case (remove c)
    then have "c \<in> {c. serve_at s' c = Gone}" "c \<notin> {c. serve_at s c = Gone}"
      using leave_frame(6) [OF remove(3)] by simp_all
    with g show ?thesis by simp
  next
    case (cast b')
    then show ?thesis using on_course_cast [OF assms(2) cast i(2)] by simp
  qed
qed

lemma on_course_quiets: "(quiet_step grow fin)\<^sup>*\<^sup>* s s' \<Longrightarrow> on_course old b s \<Longrightarrow> on_course old b s'"
  by (induction rule: rtranclp_induct) (auto intro: on_course_quiet)

section \<open>Properties\<close>

text \<open>C23: the list of clients is right in every interleaving: it shows the connections accepted so far,
  without those whose \<open>serve\<close> has returned, in the order of \<open>Accept\<close>; and \<open>remove\<close> never panics.\<close>

theorem chat_clients_listed:
  assumes "chat_reach grow fin sends s"
  shows "contents (arrs s) (clients s) = filter (\<lambda>c. serve_at s c \<noteq> Gone) [0..<accepted s] \<and>
    (\<forall>c. c < accepted s \<and> serve_at s c = Leaving \<longrightarrow> leave c s \<noteq> None)"
proof -
  have i: "clients_inv s" by (rule clients_inv_reach [OF assms])
  then have "contents (arrs s) (clients s) = filter (\<lambda>c. serve_at s c \<noteq> Gone) [0..<accepted s]"
    by (simp add: clients_inv_def listed_def)
  moreover have "leave c s \<noteq> None" if "c < accepted s" "serve_at s c = Leaving" for c
    by (rule leave_some [OF i that(1)]) (use that(2) in simp_all)
  ultimately show ?thesis by blast
qed

lemma written_announced:
  assumes "chat_reach grow fin sends s" "\<And>c. fin c \<noteq> UnknownCommand" "(b, d, cmd) \<in> set (written_to s)"
  shows "cmd \<in> set (announced '''' (sends (fst (casts s ! b))))"
proof -
  have "log_inv s" by (rule log_inv_reach [OF assms(1)])
  with assms(3) obtain c rng i where b: "b < length (casts s)" "casts s ! b = (c, B_Loop rng i cmd)"
    by (fastforce simp: log_inv_def list_all_iff)
  then have "(c, B_Loop rng i cmd) \<in> set (casts s)" by (metis nth_mem)
  then have "cmd \<in> set (launched c s)" by (force simp: launched_def)
  moreover have "launched c s @ announced (cname s c) (input s c) = announced '''' (sends c)"
    using launch_inv_reach [OF assms(1,2)] by (simp add: launch_inv_def)
  then have "set (launched c s) \<subseteq> set (announced '''' (sends c))" by (metis set_append Un_upper1)
  ultimately show ?thesis using b(2) by auto
qed

text \<open>C40: every client's messages are broadcast as it sent them: when the error a connection ends with is one of
  the network and not \<open>UnknownCommand\<close>, in every interleaving of the goroutines the broadcasts started for a
  client are, in order, a prefix of the messages its byte stream announces, each under the name the client
  had set before it, and all of them once its goroutine has stopped reading; and every command written to any
  connection is one of these.\<close>

theorem chat_messages_announced:
  assumes "chat_reach grow fin sends s" and "\<And>c. fin c \<noteq> UnknownCommand"
  shows "prefix (launched c s) (announced '''' (sends c)) \<and>
    (serve_at s c = Serving \<or> launched c s = announced '''' (sends c)) \<and>
    list_all (\<lambda>(b, d, cmd). cmd \<in> set (announced '''' (sends (fst (casts s ! b))))) (written_to s)"
proof -
  have inv: "launch_inv sends s" by (rule launch_inv_reach [OF assms])
  have eq: "launched d s @ announced (cname s d) (input s d) = announced '''' (sends d)" for d
    using inv by (simp add: launch_inv_def)
  have "launched c s = announced '''' (sends c)" if "serve_at s c \<noteq> Serving"
    using eq [of c] inv that by (auto simp: launch_inv_def)
  moreover have "prefix (launched c s) (announced '''' (sends c))" using eq [of c] by (metis prefixI)
  ultimately show ?thesis using written_announced [OF assms] by (auto simp: list_all_iff)
qed

text \<open>While no client is removed a broadcast reaches everybody exactly once: from the moment it is
  started, over any quiet steps of the other goroutines, what it has written to is a duplicate-free
  list that, when its loop is done, begins with all clients listed at the start, in order, and
  continues only with clients accepted in the meantime.\<close>

theorem broadcast_reaches_all_once:
  assumes "chat_reach grow fin sends s" and "b < length (casts s)" and "casts s ! b = (c, B_Start cmd)"
    and "(quiet_step grow fin)\<^sup>*\<^sup>* s s'" and "casts s' ! b = (c', B_Loop rng i cmd')"
  shows "distinct (recipients b s') \<and>
    (if i = count rng then prefix (listed s) (recipients b s') else i < count rng) \<and>
    prefix (recipients b s') (listed s')"
proof -
  have "on_course (listed s) b s"
    by (rule on_course_start [OF clients_inv_reach [OF assms(1)] log_inv_reach [OF assms(1)] assms(2,3)])
  from on_course_quiets [OF assms(4) this] assms(5)
  have w: "wf_slice (arrs s') rng" "i \<le> count rng" "recipients b s' = take i (contents (arrs s') rng)"
    "prefix (listed s) (contents (arrs s') rng)" "prefix (contents (arrs s') rng) (listed s')"
    by (simp_all add: on_course_def)
  have p: "prefix (recipients b s') (listed s')"
    unfolding w(3) using w(5) take_is_prefix prefix_order.order_trans by blast
  then have "distinct (recipients b s')" using distinct_listed [of s'] by (auto simp: prefix_def)
  moreover have "recipients b s' = contents (arrs s') rng" if "i = count rng"
    using w(1,3) that by (simp add: contents_def wf_slice_def)
  ultimately show ?thesis using p w(2,4) by auto
qed

text \<open>A connection that breaks is never taken off the list: when reading ends with an error other
  than \<open>EOF\<close>, \<open>serve\<close> never gets to \<open>remove\<close>, so the client stays in the list for ever.\<close>

theorem broken_connection_stays:
  assumes "chat_reach grow fin sends s" and "fin c = ConnErr" and "c < accepted s"
  shows "serve_at s c = Serving \<and> c \<in> set (contents (arrs s) (clients s))"
proof -
  have "serve_at s c = Serving" using assms(1)
  proof (induction rule: chat_reach.induct)
    case (step s s')
    from step.hyps(2) show ?case
    proof (cases rule: chat_step.cases)
      case (serve d)
      have "Read ConnErr bs \<noteq> (Inl EOF, rest)" for bs rest
        by (rule Read_cases [of bs]) (auto simp: Read_encode Read_incomplete Read_unknown)
      then have "serve_at (serve_turn ConnErr c s) c = Serving" using step.IH
        by (auto simp: serve_turn_def Let_def split: prod.split sum.split chat_command.split)
      then show ?thesis using serve step.IH assms(2) serve_turn_pc [OF serve(3), of "fin d" c]
        by (cases "d = c") auto
    next
      case (remove d)
      then show ?thesis using leave_frame(6) [OF remove(3)] step.IH by auto
    qed (use step.IH broadcast_step_frame in auto)
  qed (simp add: chat_start_def)
  moreover have "clients_inv s" by (rule clients_inv_reach [OF assms(1)])
  ultimately show ?thesis using assms(3) by (auto simp: clients_inv_def listed_def)
qed

section \<open>A run, and a race\<close>

text \<open>Three clients connect; the first one sends a message and then closes.\<close>

definition demo_sends :: "nat \<Rightarrow> bytes" where
  "demo_sends = (\<lambda>_. [])(0 := ''SEND hi'' @ [LF])"

definition demo_start :: chat_sys where
  "demo_start = \<lparr>arrs = [[], [0, 1, 2, 0]], clients = \<lparr>base = 1, count = 3\<rparr>, accepted = 3, cname = (\<lambda>_. ''''),
     input = (\<lambda>_. []), serve_at = (\<lambda>_. Serving), casts = [(0, B_Start (MessageCommand '''' ''hi''))],
     written_to = []\<rparr>"

abbreviation demo_reach :: "chat_sys \<Rightarrow> bool" where
  "demo_reach \<equiv> chat_reach (\<lambda>_. 3) (\<lambda>_. EOF) demo_sends"

lemma demo_reach_start: "demo_reach demo_start"
proof -
  let ?step = "chat_step (\<lambda>_. 3) (\<lambda>_. EOF)"
  let ?s3 = "\<lparr>arrs = [[], [0, 1, 2, 0]], clients = \<lparr>base = 1, count = 3\<rparr>, accepted = 3, cname = (\<lambda>_. ''''),
     input = demo_sends, serve_at = (\<lambda>_. Serving), casts = [], written_to = []\<rparr>"
  let ?acc = "accept_conn (\<lambda>_. 3)"
  have "?acc (?acc (?acc (chat_start demo_sends))) = ?s3"
    by (simp add: accept_conn_def chat_start_def append_client_def contents_def numeral_3_eq_3)
  moreover have "demo_reach (?acc (?acc (?acc (chat_start demo_sends))))"
    by (intro chat_reach.step [OF _ chat_step.accept] chat_reach.init)
  ultimately have "demo_reach ?s3" by simp
  moreover have "serve_turn EOF 0 ?s3 = demo_start"
    using Read_encode [of "SendCommand ''hi''" EOF "[]"]
    by (simp add: serve_turn_def demo_sends_def demo_start_def fun_eq_iff)
  ultimately show ?thesis using chat_reach.step [OF _ chat_step.serve [of 0 ?s3 _ "\<lambda>_. EOF"]] by fastforce
qed

text \<open>The broadcast of the message, \<open>i\<close> writes into its loop.\<close>

definition demo_loop :: "nat \<Rightarrow> nat list \<Rightarrow> chat_sys \<Rightarrow> chat_sys" where
  "demo_loop i rs s = s\<lparr>casts := [(0, B_Loop \<lparr>base = 1, count = 3\<rparr> i (MessageCommand '''' ''hi''))],
     written_to := map (\<lambda>d. (0, d, MessageCommand '''' ''hi'')) rs\<rparr>"

lemma demo_loop_start: "broadcast_step 0 demo_start = Some (demo_loop 0 [] demo_start)"
  by (simp add: broadcast_step_def demo_start_def demo_loop_def)

lemma demo_loop_next:
  "i < 3 \<Longrightarrow> arrs s ! 1 ! i = d \<Longrightarrow> broadcast_step 0 (demo_loop i rs s) = Some (demo_loop (Suc i) (rs @ [d]) s)"
  by (simp add: broadcast_step_def demo_loop_def)

lemma demo_loop_step:
  "i < 3 \<Longrightarrow> arrs s ! 1 ! i = d \<Longrightarrow> chat_step grow fin (demo_loop i rs s) (demo_loop (Suc i) (rs @ [d]) s)"
  by (rule chat_step.cast [OF _ demo_loop_next]) (simp_all add: demo_loop_def)

lemma demo_loop_frame [simp]:
  "serve_at (demo_loop i rs s) = serve_at s" "accepted (demo_loop i rs s) = accepted s"
  "arrs (demo_loop i rs s) = arrs s" "clients (demo_loop i rs s) = clients s"
  "recipients 0 (demo_loop i rs s) = rs"
  by (simp_all add: demo_loop_def recipients_def comp_def)

lemma demo_reach_loop: "demo_reach (demo_loop 0 [] demo_start)"
  by (rule chat_reach.step [OF demo_reach_start chat_step.cast [OF _ demo_loop_start]])
    (simp add: demo_start_def)

theorem broadcast_reaches_all_once_witness:
  "\<exists>s'. (quiet_step (\<lambda>_. 3) (\<lambda>_. EOF))\<^sup>*\<^sup>* demo_start s' \<and> recipients 0 s' = [0, 1, 2] \<and>
     prefix (listed demo_start) (recipients 0 s')"
proof -
  let ?q = "quiet_step (\<lambda>_. 3) (\<lambda>_. EOF)"
  let ?s' = "demo_loop 3 [0, 1, 2] demo_start"
  have "?q demo_start (demo_loop 0 [] demo_start)"
    using chat_step.cast [OF _ demo_loop_start] by (simp add: quiet_step_def demo_start_def)
  moreover have "?q (demo_loop i rs demo_start) (demo_loop (Suc i) (rs @ [d]) demo_start)"
    if "i < 3" "arrs demo_start ! 1 ! i = d" for i rs d
    using demo_loop_step [OF that] by (simp add: quiet_step_def)
  from this [of 0 0 "[]"] this [of 1 1 "[0]"] this [of 2 2 "[0, 1]"]
  have "?q (demo_loop 0 [] demo_start) (demo_loop 1 [0] demo_start)"
    "?q (demo_loop 1 [0] demo_start) (demo_loop 2 [0, 1] demo_start)"
    "?q (demo_loop 2 [0, 1] demo_start) ?s'"
    by (simp_all add: demo_start_def numeral_eq_Suc)
  ultimately have r: "?q\<^sup>*\<^sup>* demo_start ?s'" by (meson converse_rtranclp_into_rtranclp rtranclp.rtrancl_refl)
  have "casts ?s' ! 0 = (0, B_Loop \<lparr>base = 1, count = 3\<rparr> 3 (MessageCommand '''' ''hi''))"
    by (simp add: demo_loop_def)
  from broadcast_reaches_all_once [OF demo_reach_start _ _ r this, of 0 "MessageCommand '''' ''hi''"]
  have "prefix (listed demo_start) (recipients 0 ?s')" by (simp add: demo_start_def)
  with r show ?thesis by (intro exI [of _ ?s']) simp
qed

text \<open>Without the lock a broadcast can miss a client: there is a run in which a client that is
  connected from before the broadcast starts until after it ends receives nothing, and another one
  receives the message twice, because a third client was removed in between.\<close>

theorem broadcast_can_miss_client:
  "\<exists>s c rng cmd. chat_reach (\<lambda>_. 3) (\<lambda>_. EOF) demo_sends s \<and>
     casts s = [(c, B_Loop rng (count rng) cmd)] \<and> recipients 0 s = [0, 2, 2] \<and>
     serve_at s 1 = Serving \<and> 1 \<in> set (contents (arrs s) (clients s))"
proof -
  let ?t1 = "demo_loop 1 [0] demo_start"
  let ?s2 = "demo_start\<lparr>serve_at := (\<lambda>_. Serving)(0 := Leaving)\<rparr>"
  let ?s3 = "demo_start\<lparr>arrs := [[], [1, 2, 2, 0]], clients := \<lparr>base = 1, count = 2\<rparr>,
    serve_at := (\<lambda>_. Serving)(0 := Gone)\<rparr>"
  have "demo_reach ?t1"
    using chat_reach.step [OF demo_reach_loop demo_loop_step [of 0 demo_start 0]] by (simp add: demo_start_def)
  moreover have "serve_turn EOF 0 ?t1 = demo_loop 1 [0] ?s2"
    using Read_incomplete [of "[]" EOF]
    by (simp add: serve_turn_def demo_loop_def demo_start_def incomplete_def fun_eq_iff)
  ultimately have "demo_reach (demo_loop 1 [0] ?s2)"
    using chat_reach.step [OF _ chat_step.serve [of 0 ?t1 _ "\<lambda>_. EOF"]] by (fastforce simp: demo_start_def)
  moreover have "leave 0 (demo_loop 1 [0] ?s2) = Some (demo_loop 1 [0] ?s3)"
    by (simp add: leave_def remove_client_def cut_def contents_def demo_loop_def demo_start_def upt_rec
        numeral_3_eq_3 fun_eq_iff)
  ultimately have "demo_reach (demo_loop 1 [0] ?s3)"
    using chat_reach.step [OF _ chat_step.remove [of 0 "demo_loop 1 [0] ?s2"]] by (fastforce simp: demo_start_def)
  then have "demo_reach (demo_loop 2 [0, 2] ?s3)"
    using chat_reach.step [OF _ demo_loop_step [of 1 ?s3 2]] by (fastforce simp: numeral_2_eq_2)
  then have "demo_reach (demo_loop 3 [0, 2, 2] ?s3)"
    using chat_reach.step [OF _ demo_loop_step [of 2 ?s3 2]] by (fastforce simp: numeral_3_eq_3 numeral_2_eq_2)
  then show ?thesis
    by (intro exI [of _ "demo_loop 3 [0, 2, 2] ?s3"]) (simp add: demo_loop_def recipients_def contents_def)
qed

theorem chat_clients_listed_witness:
  "contents (arrs demo_start) (clients demo_start) = filter (\<lambda>c. serve_at demo_start c \<noteq> Gone) [0..<3]"
  using chat_clients_listed [OF demo_reach_start] by (simp add: demo_start_def)

theorem chat_messages_announced_witness:
  "prefix (launched 0 demo_start) (announced '''' (demo_sends 0)) \<and>
   launched 0 demo_start = [MessageCommand '''' ''hi'']"
  using chat_messages_announced [OF demo_reach_start, of 0] by (simp add: launched_def demo_start_def)

theorem broken_connection_stays_witness:
  "\<exists>s. chat_reach (\<lambda>_. 3) (\<lambda>_. ConnErr) demo_sends s \<and> input s 0 = [] \<and> serve_at s 0 = Serving"
proof -
  let ?s = "accept_conn (\<lambda>_. 3) (chat_start demo_sends)"
  let ?s1 = "serve_turn ConnErr 0 ?s"
  have r: "chat_reach (\<lambda>_. 3) (\<lambda>_. ConnErr) demo_sends ?s"
    by (intro chat_reach.step [OF _ chat_step.accept] chat_reach.init)
  have a: "accepted ?s = 1" by (simp add: chat_start_def)
  have p: "serve_at ?s 0 = Serving" using broken_connection_stays [OF r, of 0] a by simp
  have r1: "chat_reach (\<lambda>_. 3) (\<lambda>_. ConnErr) demo_sends ?s1"
    using chat_reach.step [OF r chat_step.serve [of 0 ?s _ "\<lambda>_. ConnErr"]] a p by simp
  have p1: "serve_at ?s1 0 = Serving" using broken_connection_stays [OF r1, of 0] a by simp
  have "input ?s1 0 = []"
    using Read_encode [of "SendCommand ''hi''" ConnErr "[]"]
    by (simp add: serve_turn_def chat_start_def demo_sends_def)
  with r1 p1 show ?thesis by blast
qed

end
