(* ===== verification/ChatClient.thy ===== *)
theory ChatClient
  imports ChatDelivery
begin

text \<open>
  The chat client \<open>TcpChatClient\<close>, and a whole conversation: what clients write goes through the
  server and arrives in the channel \<open>incoming\<close> of the others. Whoever ranges over that channel takes
  every command, so it is the list of what was put into it.
\<close>

section \<open>The client\<close>

definition SetName :: "string \<Rightarrow> go_error + bytes" where
  "SetName nm = Write (Some (NameCommand nm))"

definition SendMessage :: "string \<Rightarrow> go_error + bytes" where
  "SendMessage m = Write (Some (SendCommand m))"

text \<open>The loop of \<open>Start\<close>: it ends at \<open>EOF\<close>; any other error is logged and it reads again.\<close>

partial_function (option) client_start ::
  "go_error \<Rightarrow> bytes \<Rightarrow> chat_command list \<Rightarrow> chat_command list option" where
  "client_start fin bs incoming =
     (case Read fin bs of (res, rest) \<Rightarrow>
        (case res of
           Inl err \<Rightarrow> if err = EOF then Some incoming else client_start fin rest incoming
         | Inr cmd \<Rightarrow> client_start fin rest
             (case cmd of MessageCommand n m \<Rightarrow> incoming @ [cmd] | _ \<Rightarrow> incoming)))"

lemma client_start_encode:
  "wire_safe (MessageCommand n m) \<Longrightarrow>
   client_start fin (encode (MessageCommand n m) @ bs) inc = client_start fin bs (inc @ [MessageCommand n m])"
  using Read_encode [of "MessageCommand n m" fin bs] by (simp add: client_start.simps)

lemma client_start_incomplete: "incomplete bs \<Longrightarrow> client_start EOF bs inc = Some inc"
  by (simp add: client_start.simps [of EOF bs] Read_incomplete)

lemma client_start_messages:
  "\<forall>c \<in> set cmds. wire_safe c \<and> (\<exists>n m. c = MessageCommand n m) \<Longrightarrow>
   client_start fin (concat (map encode cmds) @ bs) inc = client_start fin bs (inc @ cmds)"
proof (induction cmds arbitrary: inc)
  case (Cons c cmds)
  then obtain n m where "c = MessageCommand n m" "wire_safe c" by auto
  with Cons client_start_encode [of n m fin "concat (map encode cmds) @ bs" inc] show ?case by simp
qed simp

lemma client_start_returns: "\<exists>inc'. client_start EOF bs inc = Some inc'"
proof (induction "length bs" arbitrary: bs inc rule: less_induct)
  case less
  show ?case
  proof (rule Read_fin [of EOF bs])
    fix cmd rest assume r: "Read EOF bs = (Inr cmd, rest)"
    with less [OF Read_shorter [OF r]] show ?case by (subst client_start.simps) simp
  next
    fix rest assume r: "Read EOF bs = (Inl UnknownCommand, rest)"
    with less [OF Read_Unknown_shorter [OF r]] show ?case by (subst client_start.simps) simp
  next
    assume "Read EOF bs = (Inl EOF, [])"
    then show ?case by (subst client_start.simps) simp
  qed simp
qed

lemma client_start_extends: "client_start EOF bs inc = Some inc' \<Longrightarrow> prefix inc inc'"
proof (induction "length bs" arbitrary: bs inc rule: less_induct)
  case less
  show ?case
  proof (rule Read_fin [of EOF bs])
    fix cmd rest assume r: "Read EOF bs = (Inr cmd, rest)"
    with less.prems have "client_start EOF rest (case cmd of MessageCommand n m \<Rightarrow> inc @ [cmd] | _ \<Rightarrow> inc) = Some inc'"
      by (subst (asm) client_start.simps) simp
    from less.hyps [OF Read_shorter [OF r] this] show ?case
      by (cases cmd) (auto simp: prefix_def)
  next
    fix rest assume r: "Read EOF bs = (Inl UnknownCommand, rest)"
    with less.prems have "client_start EOF rest inc = Some inc'" by (subst (asm) client_start.simps) simp
    from less.hyps [OF Read_Unknown_shorter [OF r] this] show ?case .
  next
    assume "Read EOF bs = (Inl EOF, [])"
    with less.prems show ?case by (subst (asm) client_start.simps) simp
  qed simp
qed

lemma Read_ConnErr_no_EOF: "Read ConnErr bs \<noteq> (Inl EOF, rest)"
  by (rule Read_cases [of bs]) (auto simp: Read_encode Read_incomplete Read_unknown)

lemma client_start_diverges: "client_start ConnErr bs inc = None"
proof (rule ccontr)
  assume "client_start ConnErr bs inc \<noteq> None"
  then obtain y where y: "client_start ConnErr bs inc = Some y" by blast
  have "fin \<noteq> ConnErr" if "client_start fin bs inc = Some y" for fin bs inc y
  proof (rule client_start.raw_induct [where P = "\<lambda>fin bs inc y. fin \<noteq> ConnErr", OF _ that])
    fix f fin bs inc y
    assume IH: "\<And>fin bs inc y. f fin bs inc = Some y \<Longrightarrow> fin \<noteq> ConnErr"
      and eq: "(case Read fin bs of (res, rest) \<Rightarrow>
        (case res of
           Inl err \<Rightarrow> if err = EOF then Some inc else f fin rest inc
         | Inr cmd \<Rightarrow> f fin rest
             (case cmd of MessageCommand n m \<Rightarrow> inc @ [cmd] | _ \<Rightarrow> inc))) = Some y"
    show "fin \<noteq> ConnErr"
      using eq Read_ConnErr_no_EOF [of bs] by (auto split: prod.splits sum.splits if_splits dest: IH)
  qed
  with y show False by blast
qed

text \<open>The read loop of the client ends exactly on connections that end properly: on a stream that
  the peer closes it returns, on one that breaks it never does, whatever arrived before.\<close>

theorem client_start_returns_iff:
  assumes "fin \<noteq> UnknownCommand"
  shows "client_start fin bs inc \<noteq> None \<longleftrightarrow> fin = EOF"
  using assms client_start_returns [of bs inc] client_start_diverges [of bs inc] by (cases fin) auto

theorem client_start_returns_iff_witness:
  "client_start ConnErr (''MESSAGE a b'' @ [LF]) [] = None"
  using client_start_returns_iff [of ConnErr "''MESSAGE a b'' @ [LF]" "[]"] by simp

section \<open>A conversation\<close>

text \<open>The commands and the bytes the server has put on the connection of client \<open>d\<close>.\<close>

definition commands_to :: "nat \<Rightarrow> chat_sys \<Rightarrow> chat_command list" where
  "commands_to d s = map (\<lambda>x. snd (snd x)) (filter (\<lambda>x. fst (snd x) = d) (written_to s))"

definition bytes_to :: "nat \<Rightarrow> chat_sys \<Rightarrow> bytes" where
  "bytes_to d s = concat (map encode (commands_to d s))"

lemma announced_messages: "cmd \<in> set (announced nm bs) \<Longrightarrow> \<exists>n m. cmd = MessageCommand n m"
proof (induction "length bs" arbitrary: nm bs rule: less_induct)
  case less
  show ?case
  proof (rule Read_fin [of EOF bs])
    fix c rest assume r: "Read EOF bs = (Inr c, rest)"
    with less.hyps [OF Read_shorter [OF r]] less.prems show ?case
      by (cases c) (auto simp: announced.simps [of nm bs])
  next
    fix rest assume r: "Read EOF bs = (Inl UnknownCommand, rest)"
    with less.hyps [OF Read_Unknown_shorter [OF r]] less.prems show ?case
      by (auto simp: announced.simps [of nm bs])
  next
    assume "Read EOF bs = (Inl EOF, [])"
    with less.prems show ?case by (simp add: announced.simps [of nm bs])
  qed simp
qed

text \<open>A conversation end to end: when no client announces a name with a space, then in every
  interleaving what the server has put on the connection of any client is read back by that client's
  loop as exactly the commands written to it, in order, each a message that some client announced.\<close>

theorem chat_end_to_end:
  assumes "chat_reach grow fin sends s" and "\<And>c. fin c \<noteq> UnknownCommand"
    and "\<And>c. list_all wire_safe (announced '''' (sends c))"
  shows "client_start EOF (bytes_to d s) [] = Some (commands_to d s) \<and>
    set (commands_to d s) \<subseteq> (\<Union>c. set (announced '''' (sends c)))"
proof -
  have a: "\<exists>c. cmd \<in> set (announced '''' (sends c))" if "cmd \<in> set (commands_to d s)" for cmd
    using written_announced [OF assms(1,2)] that by (fastforce simp: commands_to_def)
  then have "\<forall>cmd \<in> set (commands_to d s). wire_safe cmd \<and> (\<exists>n m. cmd = MessageCommand n m)"
    using announced_messages assms(3) by (fastforce simp: list_all_iff)
  from client_start_messages [OF this, of EOF "[]" "[]"]
  have "client_start EOF (bytes_to d s) [] = Some (commands_to d s)"
    by (simp add: bytes_to_def client_start_incomplete incomplete_def)
  with a show ?thesis by blast
qed

theorem chat_end_to_end_witness:
  "\<exists>s. chat_reach (\<lambda>_. 3) (\<lambda>_. EOF) demo_sends s \<and>
     client_start EOF (bytes_to 0 s) [] = Some [MessageCommand '''' ''hi'']"
proof -
  let ?s = "demo_loop 1 [0] demo_start"
  have r: "demo_reach ?s"
    using chat_reach.step [OF demo_reach_loop demo_loop_step [of 0 demo_start 0]] by (simp add: demo_start_def)
  have "list_all wire_safe (announced '''' (demo_sends c))" for c
    using announced_encode [of "SendCommand ''hi''" "''''" "[]"] by (simp add: demo_sends_def)
  from chat_end_to_end [OF r _ this, of 0]
  have "client_start EOF (bytes_to 0 ?s) [] = Some [MessageCommand '''' ''hi'']"
    by (simp add: commands_to_def demo_loop_def)
  with r show ?thesis by blast
qed

end
