(* ===== verification/ChatRoom.thy ===== *)
theory ChatRoom
  imports ChatClient Systems "HOL-Library.Multiset"
begin

text \<open>
  The chat room as a whole: while nobody comes or goes, the goroutines of the server come to rest, and
  then every client has received every message of every client exactly once. The order is another
  matter: each message has a goroutine of its own.
\<close>

section \<open>Counting deliveries\<close>

lemma sum_one: "b < (n::nat) \<Longrightarrow> (\<Sum>j < n. if j = b then X else {#}) = X"
  using sum.delta [of "{..<n}" b "\<lambda>_. X"] by simp

lemma sum_nth: "(\<Sum>b < length xs. {#f (xs ! b)#}) = mset (map f xs)"
proof (induction xs rule: rev_induct)
  case (snoc x xs)
  have "(\<Sum>b < length xs. {#f ((xs @ [x]) ! b)#}) = (\<Sum>b < length xs. {#f (xs ! b)#})"
    by (rule sum.cong) (simp_all add: nth_append)
  with snoc show ?case by (simp add: nth_append)
qed simp

lemma mset_by_key:
  fixes n :: nat
  assumes "list_all (\<lambda>x. fst x < n) xs"
  shows "(\<Sum>c < n. mset (map f (filter (\<lambda>x. fst x = c) xs))) = mset (map f xs)"
  using assms
proof (induction xs)
  case (Cons x xs)
  have "(\<Sum>c < n. mset (map f (filter (\<lambda>x. fst x = c) (x # xs)))) =
      (\<Sum>c < n. (if c = fst x then {#f x#} else {#}) + mset (map f (filter (\<lambda>x. fst x = c) xs)))"
    by (rule sum.cong) auto
  also have "\<dots> = {#f x#} + mset (map f xs)"
    using Cons sum_one [of "fst x" n "{#f x#}"] unfolding sum.distrib by simp
  finally show ?case by simp
qed simp

text \<open>A log of writes: broadcast \<open>b\<close> writes \<open>f b\<close>, to the clients \<open>d\<close> that it reaches.\<close>

lemma mset_log:
  fixes n :: nat
  assumes "list_all (\<lambda>(b, d, cmd). b < n \<and> cmd = f b) ws"
  shows "mset (map (\<lambda>x. snd (snd x)) (filter (\<lambda>x. fst (snd x) = d) ws)) =
    (\<Sum>b < n. replicate_mset (count (mset (map (\<lambda>x. fst (snd x)) (filter (\<lambda>x. fst x = b) ws))) d) (f b))"
  using assms
proof (induction ws)
  case (Cons x ws)
  obtain b e cmd where x: "x = (b, e, cmd)" by (cases x) auto
  let ?n = "\<lambda>ws j. count (mset (map (\<lambda>x. fst (snd x)) (filter (\<lambda>x. fst x = j) ws))) d"
  have "(\<Sum>j < n. replicate_mset (?n (x # ws) j) (f j)) =
      (\<Sum>j < n. (if j = b then (if e = d then {#f b#} else {#}) else {#}) + replicate_mset (?n ws j) (f j))"
    by (rule sum.cong) (auto simp: x)
  also have "\<dots> = (if e = d then {#f b#} else {#}) + (\<Sum>j < n. replicate_mset (?n ws j) (f j))"
    using Cons.prems sum_one [of b n "{#f b#}"] unfolding sum.distrib by (simp add: x)
  finally show ?case using Cons by (auto simp: x)
qed simp

lemma image_mset_lessThan: "image_mset f (\<Sum>c < n. g c) = (\<Sum>c < (n::nat). image_mset f (g c))"
  by (induction n) simp_all

definition cmd_of :: "chat_sys \<Rightarrow> nat \<Rightarrow> chat_command" where
  "cmd_of s b = cast_cmd (snd (casts s ! b))"

lemma delivered_mset:
  assumes "log_inv s"
  shows "mset (commands_to d s) = (\<Sum>b < length (casts s). replicate_mset (count (mset (recipients b s)) d) (cmd_of s b))"
proof -
  have "list_all (\<lambda>(b, d, cmd). b < length (casts s) \<and> cmd = cmd_of s b) (written_to s)"
    using assms by (fastforce simp: log_inv_def list_all_iff cmd_of_def)
  from mset_log [OF this] show ?thesis by (simp add: commands_to_def recipients_def)
qed

text \<open>Only accepted clients have broadcasts.\<close>

definition owners_inv :: "chat_sys \<Rightarrow> bool" where
  "owners_inv s \<longleftrightarrow> list_all (\<lambda>x. fst x < accepted s) (casts s)"

lemma owners_inv_more:
  assumes "owners_inv s" "accepted s \<le> accepted s'" "map fst (casts s') = map fst (casts s) @ ys" "list_all (\<lambda>c. c < accepted s') ys"
  shows "owners_inv s'"
proof -
  have "list_all (\<lambda>c. c < accepted s') (map fst (casts s'))"
    using assms by (auto simp: owners_inv_def list_all_iff intro: less_le_trans)
  then show ?thesis by (simp add: owners_inv_def list_all_iff)
qed

lemma owners_cast: "broadcast_step b s = Some s' \<Longrightarrow> map fst (casts s') = map fst (casts s)"
  by (auto simp: broadcast_step_def map_update list_update_same_conv split: prod.splits broadcast.splits if_splits)
    (metis fst_conv list_update_id map_update)+

lemma owners_inv_step: "chat_step grow fin s s' \<Longrightarrow> owners_inv s \<Longrightarrow> owners_inv s'"
proof (induction rule: chat_step.induct)
  case (serve c s)
  have "casts (serve_turn (fin c) c s) = casts s \<or> (\<exists>cmd. casts (serve_turn (fin c) c s) = casts s @ [(c, cmd)])"
    by (auto simp: serve_turn_def Let_def split: prod.split sum.split chat_command.split)
  then show ?case using serve by (auto simp: owners_inv_def)
next
  case (remove c s s')
  then show ?case using leave_frame [OF remove(3)] by (simp add: owners_inv_def)
next
  case (cast b s s')
  then show ?case using owners_cast [OF cast(2)] broadcast_step_frame(3) [OF cast(2)]
    by (intro owners_inv_more [of s s' "[]"]) simp_all
qed (auto simp: owners_inv_def list_all_iff)

lemma owners_inv_reach: "chat_reach grow fin sends s \<Longrightarrow> owners_inv s"
proof (induction rule: chat_reach.induct)
  case (step s s')
  then show ?case by (blast intro: owners_inv_step)
qed (simp add: owners_inv_def chat_start_def)

lemma announced_mset:
  assumes "owners_inv s"
  shows "(\<Sum>b < length (casts s). {#cmd_of s b#}) = (\<Sum>c < accepted s. mset (launched c s))"
proof -
  have "(\<Sum>b < length (casts s). {#cmd_of s b#}) = mset (map (cast_cmd \<circ> snd) (casts s))"
    using sum_nth [of "cast_cmd \<circ> snd" "casts s"] by (simp add: cmd_of_def)
  also have "\<dots> = (\<Sum>c < accepted s. mset (launched c s))"
    using mset_by_key [of "accepted s" "casts s" "cast_cmd \<circ> snd"] assms by (simp add: owners_inv_def launched_def)
  finally show ?thesis .
qed

section \<open>All broadcasts on course\<close>

definition all_on :: "nat list \<Rightarrow> chat_sys \<Rightarrow> bool" where
  "all_on old s \<longleftrightarrow> clients_inv s \<and> log_inv s \<and> prefix old (listed s) \<and> (\<forall>b < length (casts s). on_course old b s)"

lemma on_course_less: "on_course new b s \<Longrightarrow> prefix old new \<Longrightarrow> on_course old b s"
  unfolding on_course_def by (auto split: broadcast.splits intro: prefix_order.order_trans)

lemma quiet_listed:
  assumes "quiet_step grow fin s s'" "clients_inv s"
  shows "prefix (listed s) (listed s')"
proof -
  have g: "{c. serve_at s' c = Gone} = {c. serve_at s c = Gone}" using assms(1) by (simp add: quiet_step_def)
  then have pc: "serve_at s' c = Gone \<longleftrightarrow> serve_at s c = Gone" for c by blast
  have "accepted s' = accepted s \<or> accepted s' = Suc (accepted s)"
    using assms(1) unfolding quiet_step_def
    by (auto elim!: chat_stepE dest: leave_frame(5) broadcast_step_frame(3))
  then show ?thesis unfolding listed_def pc by auto
qed

lemma all_on_quiet:
  assumes "quiet_step grow fin s s'" "all_on old s"
  shows "all_on old s'"
proof -
  have st: "chat_step grow fin s s'" using assms(1) by (simp add: quiet_step_def)
  have i: "clients_inv s'" "log_inv s'" "prefix old (listed s')"
    using assms clients_inv_step [OF st] log_inv_step [OF st] quiet_listed [OF assms(1)]
    by (auto simp: all_on_def intro: prefix_order.order_trans)
  have "on_course old b s'" if b: "b < length (casts s')" for b
  proof (cases "b < length (casts s)")
    case True
    then show ?thesis using assms(2) on_course_quiet [OF assms(1)] by (simp add: all_on_def)
  next
    case False
    from st have "\<exists>c cmd. casts s' ! b = (c, B_Start cmd)"
    proof (cases rule: chat_step.cases)
      case (serve c)
      then show ?thesis using False b
        by (auto simp: serve_turn_def Let_def nth_append split: prod.splits sum.splits chat_command.splits if_splits)
    next
      case (remove c)
      then show ?thesis using False b leave_frame(1) [OF remove(3)] by simp
    next
      case (cast b')
      have "length (casts s') = length (casts s)" using owners_cast [OF cast(2)] by (metis length_map)
      then show ?thesis using False b by simp
    qed (use False b in simp)
    then show ?thesis using on_course_start [OF i(1,2) b] on_course_less [OF _ i(3)] by blast
  qed
  with i show ?thesis by (simp add: all_on_def)
qed

lemma done_reaches:
  assumes "on_course old b s" "broadcast_step b s = None" "d \<in> set old"
  shows "count (mset (recipients b s)) d = 1"
proof -
  obtain c br where br: "casts s ! b = (c, br)" by (cases "casts s ! b")
  show ?thesis
  proof (cases br)
    case (B_Start cmd)
    with br assms(2) show ?thesis by (simp add: broadcast_step_def)
  next
    case (B_Loop rng i cmd)
    then have "\<not> i < slice.count rng" using br assms(2) by (auto simp: broadcast_step_def split: if_splits)
    then have r: "recipients b s = contents (arrs s) rng" "prefix old (contents (arrs s) rng)"
      "prefix (contents (arrs s) rng) (listed s)"
      using assms(1) br B_Loop length_contents [of "arrs s" rng] by (simp_all add: on_course_def)
    then have "distinct (recipients b s)" "d \<in> set (recipients b s)"
      using assms(3) distinct_listed [of s] by (auto simp: prefix_def)
    then show ?thesis by (simp add: distinct_count_atmost_1)
  qed
qed

lemma launched_none: "owners_inv s \<Longrightarrow> accepted s \<le> c \<Longrightarrow> launched c s = []"
  by (auto simp: owners_inv_def launched_def list_all_iff filter_empty_conv)

text \<open>When every broadcast is done and every stream read to its end, the old clients have everything.\<close>

lemma all_delivered:
  assumes "all_on old s" "owners_inv s" "launch_inv sends s" "d \<in> set old"
    and "\<And>b. b < length (casts s) \<Longrightarrow> broadcast_step b s = None"
    and "\<And>c. c < accepted s \<Longrightarrow> serve_at s c \<noteq> Serving"
  shows "mset (commands_to d s) = (\<Sum>c < accepted s. mset (announced '''' (sends c)))"
proof -
  have "log_inv s" using assms(1) by (simp add: all_on_def)
  from delivered_mset [OF this, of d]
  have "mset (commands_to d s) = (\<Sum>b < length (casts s). replicate_mset (count (mset (recipients b s)) d) (cmd_of s b))" .
  also have "\<dots> = (\<Sum>b < length (casts s). {#cmd_of s b#})"
    using assms(1) done_reaches [OF _ assms(5,4)] by (intro sum.cong) (simp_all add: all_on_def)
  also have "\<dots> = (\<Sum>c < accepted s. mset (launched c s))" by (rule announced_mset [OF assms(2)])
  also have "\<dots> = (\<Sum>c < accepted s. mset (announced '''' (sends c)))"
  proof (rule sum.cong)
    fix c assume "c \<in> {..<accepted s}"
    then have "input s c = []" using assms(3,6) by (simp add: launch_inv_def)
    moreover have "launched c s @ announced (cname s c) (input s c) = announced '''' (sends c)"
      using assms(3) by (simp add: launch_inv_def)
    ultimately show "mset (launched c s) = mset (announced '''' (sends c))" by simp
  qed simp
  finally show ?thesis .
qed

section \<open>The room comes to rest\<close>

text \<open>Nobody comes and nobody goes.\<close>

definition calm_step :: "(nat \<Rightarrow> nat) \<Rightarrow> (nat \<Rightarrow> go_error) \<Rightarrow> chat_sys \<Rightarrow> chat_sys \<Rightarrow> bool" where
  "calm_step grow fin s s' \<longleftrightarrow> quiet_step grow fin s s' \<and> accepted s' = accepted s"

fun cast_work :: "nat \<Rightarrow> broadcast \<Rightarrow> nat" where
  "cast_work n (B_Start cmd) = n + 1"
| "cast_work n (B_Loop rng i cmd) = slice.count rng - i"

definition room_work :: "chat_sys \<Rightarrow> nat" where
  "room_work s = (\<Sum>c < accepted s. length (input s c) * (slice.count (clients s) + 2) + (if serve_at s c = Serving then 1 else 0)) +
     sum_list (map (cast_work (slice.count (clients s)) \<circ> snd) (casts s))"

definition room_inv :: "(nat \<Rightarrow> bytes) \<Rightarrow> nat list \<Rightarrow> nat \<Rightarrow> chat_sys \<Rightarrow> bool" where
  "room_inv sends old n s \<longleftrightarrow> all_on old s \<and> owners_inv s \<and> launch_inv sends s \<and> accepted s = n"

lemma calm_cases:
  assumes "calm_step grow fin s s'"
  obtains (serve) c where "c < accepted s" "serve_at s c = Serving" "s' = serve_turn (fin c) c s"
  | (cast) b where "b < length (casts s)" "broadcast_step b s = Some s'"
proof -
  have st: "chat_step grow fin s s'" and g: "{c. serve_at s' c = Gone} = {c. serve_at s c = Gone}"
    and n: "accepted s' = accepted s"
    using assms by (simp_all add: calm_step_def quiet_step_def)
  show thesis using st
  proof (cases rule: chat_step.cases)
    case (remove c)
    then have "c \<in> {c. serve_at s' c = Gone}" "c \<notin> {c. serve_at s c = Gone}"
      using leave_frame(6) [OF remove(3)] by simp_all
    with g show ?thesis by simp
  qed (use n in \<open>auto intro: that\<close>)
qed

lemma room_inv_step:
  assumes "room_inv sends old n s" "calm_step grow (\<lambda>_. EOF) s s'"
  shows "room_inv sends old n s'"
proof -
  have q: "quiet_step grow (\<lambda>_. EOF) s s'" "accepted s' = accepted s" using assms(2) by (simp_all add: calm_step_def)
  then have st: "chat_step grow (\<lambda>_. EOF) s s'" by (simp add: quiet_step_def)
  show ?thesis
    using assms(1) q(2) all_on_quiet [OF q(1)] owners_inv_step [OF st] launch_inv_step [OF st] by (simp add: room_inv_def)
qed

lemma cast_work_step:
  assumes "b < length (casts s)" "broadcast_step b s = Some s'"
  shows "sum_list (map (cast_work (slice.count (clients s)) \<circ> snd) (casts s')) < sum_list (map (cast_work (slice.count (clients s)) \<circ> snd) (casts s))"
proof -
  have "\<exists>y. casts s' = (casts s)[b := y] \<and> cast_work (slice.count (clients s)) (snd y) < cast_work (slice.count (clients s)) (snd (casts s ! b))"
  proof -
    obtain c br where br: "casts s ! b = (c, br)" by (cases "casts s ! b")
    show ?thesis
    proof (cases br)
      case (B_Start cmd)
      then show ?thesis using assms(2) br
        by (intro exI [of _ "(c, B_Loop (clients s) 0 cmd)"]) (auto simp: broadcast_step_def)
    next
      case (B_Loop rng i cmd)
      then show ?thesis using assms(2) br
        by (intro exI [of _ "(c, B_Loop rng (Suc i) cmd)"]) (auto simp: broadcast_step_def split: if_splits)
    qed
  qed
  then obtain y where y: "casts s' = (casts s)[b := y]"
    "cast_work (slice.count (clients s)) (snd y) < cast_work (slice.count (clients s)) (snd (casts s ! b))" by blast
  let ?xs = "map (cast_work (slice.count (clients s)) \<circ> snd) (casts s)"
  have "map (cast_work (slice.count (clients s)) \<circ> snd) (casts s') = ?xs[b := cast_work (slice.count (clients s)) (snd y)]"
    by (simp add: y(1) map_update)
  moreover have "sum_list (?xs[b := k]) < sum_list ?xs" if "k < ?xs ! b" for k
    using that assms(1) elem_le_sum_list [of b ?xs] by (simp add: sum_list_update)
  ultimately show ?thesis using y(2) assms(1) by simp
qed

text \<open>A turn of \<open>serve\<close> on a connection that ends properly.\<close>

lemma less_mult: "a < b \<Longrightarrow> a * (n + 2) + (n + 2) \<le> b * (n + (2::nat))"
  by (metis Suc_leI add.commute mult_Suc mult_le_mono1)

lemma serve_work:
  assumes "c < accepted s" "serve_at s c = Serving"
  shows "room_work (serve_turn EOF c s) < room_work s"
proof -
  let ?n = "slice.count (clients s)" and ?s = "serve_turn EOF c s"
  define w where "w t c = length (input t c) * (?n + 2) + (if serve_at t c = Serving then 1 else 0)" for t :: chat_sys and c
  have rest: "w ?s d = w s d" if "d \<noteq> c" for d
    using that by (simp add: w_def serve_turn_def Let_def split: prod.split sum.split chat_command.split)
  have "\<exists>ys. casts ?s = casts s @ ys \<and> w ?s c + sum_list (map (cast_work ?n \<circ> snd) ys) < w s c"
  proof (rule Read_fin [of EOF "input s c"])
    fix cmd r assume r: "Read EOF (input s c) = (Inr cmd, r)"
    show ?thesis using assms(2) r less_mult [OF Read_shorter [OF r], of ?n] by (cases cmd) (simp_all add: w_def serve_turn_def Let_def algebra_simps)
  next
    fix r assume r: "Read EOF (input s c) = (Inl UnknownCommand, r)"
    then show ?thesis using assms(2) less_mult [OF Read_Unknown_shorter [OF r], of ?n]
      by (simp add: w_def serve_turn_def Let_def algebra_simps)
  next
    assume r: "Read EOF (input s c) = (Inl EOF, [])"
    then show ?thesis using assms(2) by (simp add: w_def serve_turn_def Let_def)
  qed simp
  then obtain ys where ys: "casts ?s = casts s @ ys" "w ?s c + sum_list (map (cast_work ?n \<circ> snd) ys) < w s c" by blast
  have "(\<Sum>d < accepted s. w t d) = w t c + (\<Sum>d \<in> {..<accepted s} - {c}. w t d)" for t
    using assms(1) by (simp add: sum.remove [where x = c])
  moreover have "(\<Sum>d \<in> {..<accepted s} - {c}. w ?s d) = (\<Sum>d \<in> {..<accepted s} - {c}. w s d)"
    by (rule sum.cong) (use rest in simp_all)
  moreover have "room_work t = (\<Sum>d < accepted s. w t d) + sum_list (map (cast_work ?n \<circ> snd) (casts t))"
    if "accepted t = accepted s" "clients t = clients s" for t :: chat_sys
    by (simp add: room_work_def w_def that)
  ultimately show ?thesis using ys by simp
qed

lemma calm_work:
  assumes "calm_step grow (\<lambda>_. EOF) s s'"
  shows "room_work s' < room_work s"
  using assms
proof (cases rule: calm_cases)
  case (serve c)
  then show ?thesis using serve_work by simp
next
  case (cast b)
  then show ?thesis using cast_work_step [OF cast] broadcast_step_frame [OF cast(2)] by (simp add: room_work_def)
qed

interpretation room: shrinking_system "calm_step grow (\<lambda>_. EOF)" "room_inv sends old n" room_work
  for grow sends old n
  by unfold_locales (auto intro: room_inv_step calm_work)

lemma rest_done:
  assumes "\<not> (\<exists>s'. calm_step grow (\<lambda>_. EOF) s s')"
  shows "b < length (casts s) \<Longrightarrow> broadcast_step b s = None" "c < accepted s \<Longrightarrow> serve_at s c \<noteq> Serving"
proof -
  show "broadcast_step b s = None" if b: "b < length (casts s)"
  proof (rule ccontr)
    assume "broadcast_step b s \<noteq> None"
    then obtain s' where s': "broadcast_step b s = Some s'" by blast
    have "calm_step grow (\<lambda>_. EOF) s s'"
      using chat_step.cast [OF b s'] broadcast_step_frame [OF s'] by (simp add: calm_step_def quiet_step_def)
    with assms show False by blast
  qed
  show "serve_at s c \<noteq> Serving" if c: "c < accepted s"
  proof
    assume p: "serve_at s c = Serving"
    have "calm_step grow (\<lambda>_. EOF) s (serve_turn EOF c s)"
      using chat_step.serve [OF c p, of grow "\<lambda>_. EOF"] serve_turn_pc [OF p, of EOF] by (simp add: calm_step_def quiet_step_def)
    with assms show False by blast
  qed
qed

section \<open>Property\<close>

definition room_ends :: "(nat \<Rightarrow> nat) \<Rightarrow> chat_sys \<Rightarrow> chat_sys set" where
  "room_ends grow s = {s'. (calm_step grow (\<lambda>_. EOF))\<^sup>*\<^sup>* s s' \<and> \<not> (\<exists>s''. calm_step grow (\<lambda>_. EOF) s' s'')}"

lemma room_inv_begin:
  assumes "chat_reach grow (\<lambda>_. EOF) sends s" "casts s = []"
  shows "room_inv sends (listed s) (accepted s) s"
  using clients_inv_reach [OF assms(1)] log_inv_reach [OF assms(1)] owners_inv_reach [OF assms(1)]
    launch_inv_reach [OF assms(1)] assms(2)
  by (simp add: room_inv_def all_on_def)

lemma room_delivers:
  assumes "chat_reach grow (\<lambda>_. EOF) sends s" "casts s = []" "s' \<in> room_ends grow s"
    and "d \<in> set (contents (arrs s) (clients s))"
  shows "mset (commands_to d s') = (\<Sum>c < accepted s. mset (announced '''' (sends c)))"
proof -
  have r: "(calm_step grow (\<lambda>_. EOF))\<^sup>*\<^sup>* s s'" "\<not> (\<exists>s''. calm_step grow (\<lambda>_. EOF) s' s'')"
    using assms(3) by (simp_all add: room_ends_def)
  have "room_inv sends (listed s) (accepted s) s'"
    by (rule room.inv_steps [OF r(1) room_inv_begin [OF assms(1,2)]])
  then have i: "all_on (listed s) s'" "owners_inv s'" "launch_inv sends s'" "accepted s' = accepted s"
    by (simp_all add: room_inv_def)
  have "d \<in> set (listed s)" using assms(4) clients_inv_reach [OF assms(1)] by (simp add: clients_inv_def)
  from all_delivered [OF i(1-3) this rest_done [OF r(2)]] i(4) show ?thesis by simp
qed

text \<open>C16: everybody gets everything: from any state of the server in which nothing has been broadcast yet,
  while nobody comes or goes and all streams end properly, every run of the goroutines is finite, and
  wherever they come to rest every client that is connected has been sent exactly the messages that
  all the clients' byte streams announce, each as often as it is announced (in some order).\<close>

theorem chat_room_complete:
  assumes "chat_reach grow (\<lambda>_. EOF) sends s" and "casts s = []"
  shows "(\<nexists>f. f 0 = s \<and> (\<forall>k. calm_step grow (\<lambda>_. EOF) (f k) (f (Suc k)))) \<and> room_ends grow s \<noteq> {} \<and>
    room_ends grow s \<subseteq> {s'. \<forall>d \<in> set (contents (arrs s) (clients s)).
      mset (commands_to d s') = (\<Sum>c < accepted s. mset (announced '''' (sends c)))}"
proof -
  note i = room_inv_begin [OF assms]
  have "room_ends grow s \<noteq> {}" using room.comes_to_rest [OF i] by (auto simp: room_ends_def)
  moreover have "\<nexists>f. f 0 = s \<and> (\<forall>k. calm_step grow (\<lambda>_. EOF) (f k) (f (Suc k)))"
    using room.no_infinite_run i by blast
  ultimately show ?thesis using room_delivers [OF assms] by blast
qed

text \<open>Two clients: the first sends two messages, the second sets a name and sends one.\<close>

definition duo_sends :: "nat \<Rightarrow> bytes" where
  "duo_sends = (\<lambda>_. [])(0 := ''SEND a'' @ [LF] @ ''SEND b'' @ [LF], 1 := ''NAME bob'' @ [LF] @ ''SEND c'' @ [LF])"

definition duo :: chat_sys where
  "duo = \<lparr>arrs = [[], [0, 1]], clients = \<lparr>base = 1, count = 2\<rparr>, accepted = 2, cname = (\<lambda>_. ''''),
     input = duo_sends, serve_at = (\<lambda>_. Serving), casts = [], written_to = []\<rparr>"

abbreviation duo_reach :: "chat_sys \<Rightarrow> bool" where
  "duo_reach \<equiv> chat_reach (\<lambda>_. 1) (\<lambda>_. EOF) duo_sends"

lemma reach_duo: "duo_reach duo"
proof -
  let ?acc = "accept_conn (\<lambda>_. 1)"
  have "?acc (?acc (chat_start duo_sends)) = duo"
    by (simp add: duo_def accept_conn_def chat_start_def append_client_def contents_def numeral_2_eq_2)
  moreover have "duo_reach (?acc (?acc (chat_start duo_sends)))"
    by (intro chat_reach.step [OF _ chat_step.accept] chat_reach.init)
  ultimately show ?thesis by simp
qed

lemma duo_announced:
  "announced '''' (duo_sends 0) = [MessageCommand '''' ''a'', MessageCommand '''' ''b'']"
  "announced '''' (duo_sends 1) = [MessageCommand ''bob'' ''c'']"
  using announced_encode [of "SendCommand ''a''" "''''" "''SEND b'' @ [LF]"] announced_encode [of "SendCommand ''b''" "''''" "[]"]
    announced_encode [of "NameCommand ''bob''" "''''" "''SEND c'' @ [LF]"] announced_encode [of "SendCommand ''c''" "''bob''" "[]"]
  by (simp_all add: duo_sends_def)

theorem chat_room_complete_witness:
  "room_ends (\<lambda>_. 1) duo \<noteq> {} \<and> room_ends (\<lambda>_. 1) duo \<subseteq> {s.
     mset (commands_to 0 s) = {#MessageCommand '''' ''a'', MessageCommand '''' ''b'', MessageCommand ''bob'' ''c''#}}"
proof -
  have "contents (arrs duo) (clients duo) = [0, 1]" "accepted duo = 2" "casts duo = []"
    by (simp_all add: duo_def contents_def)
  then show ?thesis using chat_room_complete [OF reach_duo] duo_announced
    by (auto simp: numeral_2_eq_2)
qed

text \<open>The order of one client's messages is not kept: each has its own goroutine.\<close>

lemma messages_can_arrive_reversed:
  "\<exists>s. chat_reach (\<lambda>_. 1) (\<lambda>_. EOF) duo_sends s \<and>
     launched 0 s = [MessageCommand '''' ''a'', MessageCommand '''' ''b''] \<and>
     commands_to 1 s = [MessageCommand '''' ''b'', MessageCommand '''' ''a'']"
proof -
  let ?a = "MessageCommand '''' ''a''" and ?b = "MessageCommand '''' ''b''" and ?r = "\<lparr>base = 1, count = 2\<rparr>"
  let ?in = "duo_sends(0 := [])"
  let ?s = "\<lambda>x y ws. duo\<lparr>input := ?in, casts := [(0, x), (0, y)], written_to := ws\<rparr>"
  have serve: "duo_reach (serve_turn EOF 0 s)" if "duo_reach s" "serve_at s 0 = Serving" "0 < accepted s" for s
    using chat_reach.step [OF that(1) chat_step.serve [of 0 s _ "\<lambda>_. EOF"]] that(2,3) by simp
  have cast: "duo_reach s'" if "duo_reach s" "broadcast_step b s = Some s'" "b < length (casts s)" for b s s'
    using chat_reach.step [OF that(1) chat_step.cast [OF that(3,2)]] .
  let ?one = "duo\<lparr>input := duo_sends(0 := ''SEND b'' @ [LF]), casts := [(0, B_Start ?a)]\<rparr>"
  have "serve_turn EOF 0 duo = ?one"
    using Read_encode [of "SendCommand ''a''" EOF "''SEND b'' @ [LF]"]
    by (simp add: serve_turn_def duo_def duo_sends_def fun_eq_iff)
  moreover have "serve_turn EOF 0 ?one = ?s (B_Start ?a) (B_Start ?b) []"
    using Read_encode [of "SendCommand ''b''" EOF "[]"]
    by (simp add: serve_turn_def duo_def duo_sends_def fun_eq_iff)
  moreover have "serve_at duo 0 = Serving" "0 < accepted duo" "serve_at ?one 0 = Serving" "0 < accepted ?one"
    by (simp_all add: duo_def)
  ultimately have "duo_reach (?s (B_Start ?a) (B_Start ?b) [])"
    using serve [OF serve [OF reach_duo]] by metis
  then have "duo_reach (?s (B_Start ?a) (B_Loop ?r 0 ?b) [])"
    by (rule cast [where b = 1]) (simp_all add: broadcast_step_def duo_def)
  then have "duo_reach (?s (B_Start ?a) (B_Loop ?r 1 ?b) [(1, 0, ?b)])"
    by (rule cast [where b = 1]) (simp_all add: broadcast_step_def duo_def)
  then have "duo_reach (?s (B_Start ?a) (B_Loop ?r 2 ?b) [(1, 0, ?b), (1, 1, ?b)])"
    by (rule cast [where b = 1]) (simp_all add: broadcast_step_def duo_def)
  then have "duo_reach (?s (B_Loop ?r 0 ?a) (B_Loop ?r 2 ?b) [(1, 0, ?b), (1, 1, ?b)])"
    by (rule cast [where b = 0]) (simp_all add: broadcast_step_def duo_def)
  then have "duo_reach (?s (B_Loop ?r 1 ?a) (B_Loop ?r 2 ?b) [(1, 0, ?b), (1, 1, ?b), (0, 0, ?a)])"
    by (rule cast [where b = 0]) (simp_all add: broadcast_step_def duo_def)
  then have "duo_reach (?s (B_Loop ?r 2 ?a) (B_Loop ?r 2 ?b) [(1, 0, ?b), (1, 1, ?b), (0, 0, ?a), (0, 1, ?a)])"
    by (rule cast [where b = 0]) (simp_all add: broadcast_step_def duo_def)
  then show ?thesis
    by (intro exI [of _ "?s (B_Loop ?r 2 ?a) (B_Loop ?r 2 ?b) [(1, 0, ?b), (1, 1, ?b), (0, 0, ?a), (0, 1, ?a)]"])
      (simp add: launched_def commands_to_def)
qed

end
