(* ===== verification/ChatUI.thy ===== *)
theory ChatUI
  imports ChatRoom
begin

text \<open>
  The terminal program of the chat (\<open>chatserver/tui\<close>): the login view, the chat view, \<open>StartUI\<close>, and the
  client's \<open>Start\<close> that runs beside it. Of the library \<open>tui-go\<close> it relies on this: the user edits the
  entry of the view that is shown, pressing Enter calls the handler given to \<open>OnSubmit\<close>, \<open>SetWidget\<close>
  shows another view, \<open>Update\<close> runs its argument on the thread of the user interface and waits for
  it, and \<open>Quit\<close> ends \<open>Run\<close>, with which the program ends. What it draws is left out, except for the
  lines of the history.
\<close>

section \<open>The state\<close>

datatype screen = LoginScreen | ChatScreen

text \<open>\<open>Start\<close> is about to read, is sending a message into \<open>incoming\<close>, or has returned; the goroutine that
  ranges over \<open>incoming\<close> waits for a message, or has one and waits for \<open>Update\<close>.\<close>

datatype start_pc = St_Read | St_Send chat_command | St_Returned
datatype recv_pc = Rv_Range | Rv_Update chat_command

record ui_sys =
  widget :: screen
  user_entry :: string
  chat_entry :: string
  history :: "string list"
  sent :: bytes
  arriving :: bytes
  start_at :: start_pc
  recv_at :: recv_pc
  quitted :: bool

text \<open>Just before \<open>Run\<close>: \<open>bs\<close> is what will arrive on the connection.\<close>

definition ui_start :: "bytes \<Rightarrow> ui_sys" where
  "ui_start bs = \<lparr>widget = LoginScreen, user_entry = '''', chat_entry = '''', history = [], sent = [],
     arriving = bs, start_at = St_Read, recv_at = Rv_Range, quitted = False\<rparr>"

section \<open>The operations\<close>

definition message_line :: "string \<Rightarrow> string \<Rightarrow> string" where
  "message_line user msg = user @ '': '' @ msg"

definition AddMessage :: "string \<Rightarrow> string \<Rightarrow> ui_sys \<Rightarrow> ui_sys" where
  "AddMessage user msg s = s\<lparr>history := history s @ [message_line user msg]\<rparr>"

text \<open>The handlers that \<open>StartUI\<close> installs. The errors of \<open>SetName\<close> and \<open>SendMessage\<close> are ignored.\<close>

definition put :: "go_error + bytes \<Rightarrow> ui_sys \<Rightarrow> ui_sys" where
  "put res s = (case res of Inl err \<Rightarrow> s | Inr bs \<Rightarrow> s\<lparr>sent := sent s @ bs\<rparr>)"

definition on_login :: "string \<Rightarrow> ui_sys \<Rightarrow> ui_sys" where
  "on_login username s = (put (SetName username) s)\<lparr>widget := ChatScreen\<rparr>"

definition on_message :: "string \<Rightarrow> ui_sys \<Rightarrow> ui_sys" where
  "on_message msg s = put (SendMessage msg) s"

text \<open>The submit functions of the two entries.\<close>

definition login_submit :: "(string \<Rightarrow> ui_sys \<Rightarrow> ui_sys) option \<Rightarrow> ui_sys \<Rightarrow> ui_sys" where
  "login_submit LoginHandler s =
     (if user_entry s \<noteq> ''''
      then (case LoginHandler of None \<Rightarrow> s | Some h \<Rightarrow> h (user_entry s) s)\<lparr>user_entry := ''''\<rparr>
      else s)"

definition chat_submit :: "(string \<Rightarrow> ui_sys \<Rightarrow> ui_sys) option \<Rightarrow> ui_sys \<Rightarrow> ui_sys" where
  "chat_submit onSubmit s =
     (if chat_entry s \<noteq> ''''
      then (case onSubmit of None \<Rightarrow> s | Some h \<Rightarrow> h (chat_entry s) s)\<lparr>chat_entry := ''''\<rparr>
      else s)"

text \<open>What the user does: edit the entry in view, press Enter, press Esc or Ctrl+c.\<close>

datatype ui_event = Edit string | Enter | Leave

fun user_turn :: "ui_event \<Rightarrow> ui_sys \<Rightarrow> ui_sys" where
  "user_turn (Edit t) s =
     (case widget s of LoginScreen \<Rightarrow> s\<lparr>user_entry := t\<rparr> | ChatScreen \<Rightarrow> s\<lparr>chat_entry := t\<rparr>)"
| "user_turn Enter s =
     (case widget s of
        LoginScreen \<Rightarrow> login_submit (Some on_login) s
      | ChatScreen \<Rightarrow> chat_submit (Some on_message) s)"
| "user_turn Leave s = s\<lparr>quitted := True\<rparr>"

text \<open>One turn of the loop in \<open>Start\<close>, up to the send on \<open>incoming\<close>.\<close>

definition start_turn :: "go_error \<Rightarrow> ui_sys \<Rightarrow> ui_sys" where
  "start_turn fin s =
     (case Read fin (arriving s) of (res, rest) \<Rightarrow>
        let s = s\<lparr>arriving := rest\<rparr> in
        (case res of
           Inl err \<Rightarrow> if err = EOF then s\<lparr>start_at := St_Returned\<rparr> else s
         | Inr (MessageCommand n m) \<Rightarrow> s\<lparr>start_at := St_Send (MessageCommand n m)\<rparr>
         | Inr cmd \<Rightarrow> s))"

text \<open>The goroutines; a label is what the user did. \<open>incoming\<close> has no buffer: sender and receiver meet.\<close>

inductive ui_step :: "go_error \<Rightarrow> ui_sys \<Rightarrow> ui_event option \<Rightarrow> ui_sys \<Rightarrow> bool" for fin where
  user: "\<not> quitted s \<Longrightarrow> ui_step fin s (Some e) (user_turn e s)"
| start: "\<not> quitted s \<Longrightarrow> start_at s = St_Read \<Longrightarrow> ui_step fin s None (start_turn fin s)"
| meet: "\<not> quitted s \<Longrightarrow> start_at s = St_Send cmd \<Longrightarrow> recv_at s = Rv_Range \<Longrightarrow>
    ui_step fin s None (s\<lparr>start_at := St_Read, recv_at := Rv_Update cmd\<rparr>)"
| update: "\<not> quitted s \<Longrightarrow> recv_at s = Rv_Update (MessageCommand n m) \<Longrightarrow>
    ui_step fin s None ((AddMessage n m s)\<lparr>recv_at := Rv_Range\<rparr>)"

inductive_cases ui_stepE: "ui_step fin s l s'"

text \<open>The runs with what the user did in them.\<close>

inductive ui_run :: "go_error \<Rightarrow> bytes \<Rightarrow> ui_event list \<Rightarrow> ui_sys \<Rightarrow> bool" for fin bs where
  init: "ui_run fin bs [] (ui_start bs)"
| step: "ui_run fin bs es s \<Longrightarrow> ui_step fin s l s' \<Longrightarrow> ui_run fin bs (es @ (case l of None \<Rightarrow> [] | Some e \<Rightarrow> [e])) s'"

section \<open>What the user meant\<close>

text \<open>
  The abstract session: one text that is edited, and the texts that were submitted. The first one is
  the name, the others are messages.
\<close>

type_synonym session = "string \<times> string list"

fun session_turn :: "ui_event \<Rightarrow> session \<Rightarrow> session" where
  "session_turn (Edit t) (u, xs) = (t, xs)"
| "session_turn Enter (u, xs) = (if u = '''' then (u, xs) else ('''', xs @ [u]))"
| "session_turn Leave (u, xs) = (u, xs)"

definition session :: "ui_event list \<Rightarrow> session" where
  "session es = fold session_turn es ('''', [])"

definition submitted :: "ui_event list \<Rightarrow> string list" where
  "submitted es = snd (session es)"

definition session_commands :: "string list \<Rightarrow> chat_command list" where
  "session_commands xs = (case xs of [] \<Rightarrow> [] | nm # ms \<Rightarrow> NameCommand nm # map SendCommand ms)"

text \<open>The messages a user means to send, under the name the user gave.\<close>

definition said :: "ui_event list \<Rightarrow> chat_command list" where
  "said es = (case submitted es of [] \<Rightarrow> [] | nm # ms \<Rightarrow> map (MessageCommand nm) ms)"

lemma session_snoc [simp]: "session (es @ [e]) = session_turn e (session es)"
  by (simp add: session_def)

lemma session_commands_snoc:
  "session_commands (xs @ [x]) = session_commands xs @ [if xs = [] then NameCommand x else SendCommand x]"
  by (cases xs) (simp_all add: session_commands_def)

text \<open>The views show such a session.\<close>

definition shows_session :: "session \<Rightarrow> ui_sys \<Rightarrow> bool" where
  "shows_session ss s \<longleftrightarrow>
     (case ss of (u, xs) \<Rightarrow> widget s = (if xs = [] then LoginScreen else ChatScreen) \<and>
        (if xs = [] then user_entry s = u \<and> chat_entry s = '''' else chat_entry s = u) \<and>
        sent s = concat (map encode (session_commands xs)))"

lemma shows_start: "shows_session (session []) (ui_start bs)"
  by (simp add: shows_session_def session_def ui_start_def session_commands_def)

lemma shows_turn: "shows_session ss s \<Longrightarrow> shows_session (session_turn e ss) (user_turn e s)"
  by (cases e; cases ss)
    (auto simp: shows_session_def login_submit_def chat_submit_def on_login_def on_message_def put_def
      SetName_def SendMessage_def Write_def session_commands_snoc)

lemma shows_frame:
  "shows_session ss s \<Longrightarrow> widget s' = widget s \<Longrightarrow> user_entry s' = user_entry s \<Longrightarrow> chat_entry s' = chat_entry s \<Longrightarrow>
   sent s' = sent s \<Longrightarrow> shows_session ss s'"
  by (simp add: shows_session_def split: prod.splits)

lemma start_turn_frame [simp]:
  "widget (start_turn fin s) = widget s" "user_entry (start_turn fin s) = user_entry s"
  "chat_entry (start_turn fin s) = chat_entry s" "sent (start_turn fin s) = sent s"
  "history (start_turn fin s) = history s" "recv_at (start_turn fin s) = recv_at s"
  "quitted (start_turn fin s) = quitted s"
  by (simp_all add: start_turn_def Let_def split: prod.split sum.split chat_command.split)

lemma shows_run: "ui_run fin bs es s \<Longrightarrow> shows_session (session es) s"
proof (induction rule: ui_run.induct)
  case (step es s l s')
  from step.hyps(2) show ?case
  proof (cases rule: ui_step.cases)
    case (user e)
    then show ?thesis using shows_turn [OF step.IH, of e] by simp
  qed (use step.IH in \<open>auto intro: shows_frame simp: AddMessage_def\<close>)
qed (rule shows_start)

text \<open>An entry is a single line.\<close>

fun one_line :: "ui_event \<Rightarrow> bool" where
  "one_line (Edit t) \<longleftrightarrow> LF \<notin> set t"
| "one_line _ \<longleftrightarrow> True"

lemma session_one_line:
  "list_all one_line es \<Longrightarrow> LF \<notin> set (fst (session es)) \<and> list_all (\<lambda>x. LF \<notin> set x) (snd (session es))"
proof (induction es rule: rev_induct)
  case (snoc e es)
  then show ?case by (cases e; cases "session es") auto
qed (simp add: session_def)

lemma submitted_one_line: "list_all one_line es \<Longrightarrow> list_all (\<lambda>x. LF \<notin> set x) (submitted es)"
  using session_one_line by (simp add: submitted_def)

lemma session_wire_safe: "list_all (\<lambda>x. LF \<notin> set x) xs \<Longrightarrow> list_all wire_safe (session_commands xs)"
  by (cases xs) (auto simp: session_commands_def list_all_iff)

lemma announced_sends:
  "list_all (\<lambda>x. LF \<notin> set x) ms \<Longrightarrow>
   announced nm (concat (map encode (map SendCommand ms))) = map (MessageCommand nm) ms"
proof (induction ms)
  case (Cons m ms)
  then show ?case using announced_encode [of "SendCommand m" nm "concat (map encode (map SendCommand ms))"] by simp
qed simp

lemma announced_session:
  assumes "list_all (\<lambda>x. LF \<notin> set x) xs"
  shows "announced '''' (concat (map encode (session_commands xs))) = (case xs of [] \<Rightarrow> [] | nm # ms \<Rightarrow> map (MessageCommand nm) ms)"
proof (cases xs)
  case (Cons nm ms)
  then show ?thesis
    using assms announced_sends [of ms nm] announced_encode [of "NameCommand nm" "''''" "concat (map encode (map SendCommand ms))"]
    by (simp add: session_commands_def)
qed (simp add: session_commands_def)

lemma run_sends:
  assumes "ui_run fin bs es s"
  shows "sent s = concat (map encode (session_commands (submitted es)))"
  using shows_run [OF assms] by (simp add: shows_session_def submitted_def split: prod.splits)

lemma run_announces: "ui_run fin bs es s \<Longrightarrow> list_all one_line es \<Longrightarrow> announced '''' (sent s) = said es"
  using run_sends announced_session [OF submitted_one_line] by (simp add: said_def)

section \<open>What the user sees\<close>

fun command_line :: "chat_command \<Rightarrow> string" where
  "command_line (MessageCommand n m) = message_line n m"
| "command_line _ = ''''"

fun is_message :: "chat_command \<Rightarrow> bool" where
  "is_message (MessageCommand n m) = True"
| "is_message _ = False"

definition in_hands :: "ui_sys \<Rightarrow> chat_command list" where
  "in_hands s = (case recv_at s of Rv_Update c \<Rightarrow> [c] | Rv_Range \<Rightarrow> []) @ (case start_at s of St_Send c \<Rightarrow> [c] | _ \<Rightarrow> [])"

text \<open>What is shown, then what is in the hands of the two goroutines, then what is still to be read.\<close>

definition feed_inv :: "go_error \<Rightarrow> bytes \<Rightarrow> ui_sys \<Rightarrow> bool" where
  "feed_inv fin bs s \<longleftrightarrow>
     (\<exists>shown. history s = map command_line shown \<and>
        client_start fin bs [] = client_start fin (arriving s) (shown @ in_hands s)) \<and>
     list_all is_message (in_hands s) \<and> (start_at s = St_Returned \<longrightarrow> arriving s = [])"

lemma Read_EOF_end: "Read fin bs = (Inl EOF, rest) \<Longrightarrow> rest = [] \<and> fin = EOF"
  by (rule Read_cases [of bs]) (auto simp: Read_encode Read_incomplete Read_unknown)

lemma feed_same:
  "feed_inv fin bs s \<Longrightarrow> history s' = history s \<Longrightarrow> arriving s' = arriving s \<Longrightarrow> start_at s' = start_at s \<Longrightarrow>
   recv_at s' = recv_at s \<Longrightarrow> feed_inv fin bs s'"
  by (simp add: feed_inv_def in_hands_def)

lemma user_turn_frame [simp]:
  "history (user_turn e s) = history s" "arriving (user_turn e s) = arriving s"
  "start_at (user_turn e s) = start_at s" "recv_at (user_turn e s) = recv_at s"
  by (cases e; auto simp: login_submit_def chat_submit_def on_login_def on_message_def put_def
      split: screen.split sum.split)+

lemma feed_start:
  assumes "feed_inv fin bs s" "start_at s = St_Read"
  shows "feed_inv fin bs (start_turn fin s)"
proof -
  obtain res rest where r: "Read fin (arriving s) = (res, rest)" by fastforce
  obtain shown where sh: "history s = map command_line shown"
    "client_start fin bs [] = client_start fin (arriving s) (shown @ in_hands s)"
    using assms(1) by (auto simp: feed_inv_def)
  note m = assms(1) [unfolded feed_inv_def]
  show ?thesis
  proof (cases res)
    case (Inl err)
    then show ?thesis using r sh m assms(2) client_start.simps [of fin "arriving s"] Read_EOF_end [of fin "arriving s" rest]
        client_start_incomplete [of "[]"]
      by (auto simp: feed_inv_def start_turn_def in_hands_def incomplete_def)
  next
    case (Inr cmd)
    then show ?thesis using r sh m assms(2) client_start.simps [of fin "arriving s"]
      by (cases cmd) (auto simp: feed_inv_def start_turn_def in_hands_def)
  qed
qed

lemma feed_step:
  assumes "ui_step fin s l s'" "feed_inv fin bs s"
  shows "feed_inv fin bs s'"
  using assms(1)
proof (cases rule: ui_step.cases)
  case (user e)
  then show ?thesis by (intro feed_same [OF assms(2)]) simp_all
next
  case start
  then show ?thesis using feed_start [OF assms(2)] by simp
next
  case (meet cmd)
  then show ?thesis using assms(2) by (auto simp: feed_inv_def in_hands_def)
next
  case (update n m)
  obtain shown where sh: "history s = map command_line shown"
    "client_start fin bs [] = client_start fin (arriving s) (shown @ in_hands s)"
    using assms(2) by (auto simp: feed_inv_def)
  have h: "in_hands s = MessageCommand n m # in_hands s'" using update by (simp add: in_hands_def AddMessage_def)
  then have "history s' = map command_line (shown @ [MessageCommand n m]) \<and>
      client_start fin bs [] = client_start fin (arriving s') ((shown @ [MessageCommand n m]) @ in_hands s')"
    using sh update by (simp add: AddMessage_def)
  then have "\<exists>shown. history s' = map command_line shown \<and>
      client_start fin bs [] = client_start fin (arriving s') (shown @ in_hands s')" by blast
  moreover have "arriving s' = arriving s" "start_at s' = start_at s" using update by (simp_all add: AddMessage_def)
  ultimately show ?thesis using assms(2) h by (simp add: feed_inv_def)
qed

lemma feed_run: "ui_run fin bs es s \<Longrightarrow> feed_inv fin bs s"
proof (induction rule: ui_run.induct)
  case init
  have "history (ui_start bs) = map command_line []" "in_hands (ui_start bs) = []" "arriving (ui_start bs) = bs"
    by (simp_all add: ui_start_def in_hands_def)
  then show ?case unfolding feed_inv_def by (auto simp: ui_start_def intro: exI [of _ "[]"])
next
  case (step es s l s')
  then show ?case by (blast intro: feed_step)
qed

text \<open>The goroutines come to rest while the user does nothing.\<close>

definition ui_work :: "ui_sys \<Rightarrow> nat" where
  "ui_work s = 3 * length (arriving s) + (case start_at s of St_Read \<Rightarrow> 1 | St_Send c \<Rightarrow> 3 | St_Returned \<Rightarrow> 0) +
     (case recv_at s of Rv_Range \<Rightarrow> 0 | Rv_Update c \<Rightarrow> 1)"

lemma start_work: "start_at s = St_Read \<Longrightarrow> ui_work (start_turn EOF s) < ui_work s"
proof (rule Read_fin [of EOF "arriving s"])
  fix cmd rest assume s: "start_at s = St_Read" and r: "Read EOF (arriving s) = (Inr cmd, rest)"
  then show "ui_work (start_turn EOF s) < ui_work s"
    using Read_shorter [OF r] by (cases cmd; cases "recv_at s") (simp_all add: ui_work_def start_turn_def)
next
  fix rest assume s: "start_at s = St_Read" and r: "Read EOF (arriving s) = (Inl UnknownCommand, rest)"
  then show "ui_work (start_turn EOF s) < ui_work s"
    using Read_Unknown_shorter [OF r] by (simp add: ui_work_def start_turn_def)
qed (simp_all add: ui_work_def start_turn_def)

interpretation ui: shrinking_system "\<lambda>s s'. ui_step EOF s None s'" "\<lambda>_. True" ui_work
proof unfold_locales
  show "ui_work s' < ui_work s" if "ui_step EOF s None s'" for s s'
    using that by (cases rule: ui_step.cases) (auto simp: start_work, auto simp: ui_work_def AddMessage_def)
qed simp

lemma ui_rest:
  assumes "feed_inv EOF bs s" "\<not> quitted s" "\<not> (\<exists>s'. ui_step EOF s None s')"
  shows "start_at s = St_Returned \<and> recv_at s = Rv_Range"
proof -
  have "recv_at s = Rv_Range"
  proof (cases "recv_at s")
    case (Rv_Update c)
    with assms(1) have "is_message c" by (simp add: feed_inv_def in_hands_def)
    then obtain n m where "c = MessageCommand n m" by (cases c) auto
    with Rv_Update have "ui_step EOF s None ((AddMessage n m s)\<lparr>recv_at := Rv_Range\<rparr>)"
      by (intro ui_step.update [OF assms(2)]) simp
    with assms(3) show ?thesis by blast
  qed
  moreover have "start_at s = St_Returned"
    using calculation assms(3) ui_step.start [OF assms(2)] ui_step.meet [OF assms(2)] by (cases "start_at s") blast+
  ultimately show ?thesis by simp
qed

lemma run_shows:
  assumes "ui_run EOF bs es s" "client_start EOF bs [] = Some msgs"
  shows "prefix (history s) (map command_line msgs) \<and>
    (\<not> quitted s \<longrightarrow> \<not> (\<exists>s'. ui_step EOF s None s') \<longrightarrow> history s = map command_line msgs)"
proof -
  note f = feed_run [OF assms(1)]
  then obtain shown where sh: "history s = map command_line shown"
    "client_start EOF (arriving s) (shown @ in_hands s) = Some msgs"
    using assms(2) by (auto simp: feed_inv_def)
  have "prefix (shown @ in_hands s) msgs" using client_start_extends sh(2) by blast
  then obtain r where r: "msgs = shown @ r" by (auto simp: prefix_def)
  then have p: "prefix (history s) (map command_line msgs)" using sh(1) by simp
  have "msgs = shown" if "\<not> quitted s" "\<not> (\<exists>s'. ui_step EOF s None s')"
  proof -
    note e = ui_rest [OF f that]
    then have "arriving s = []" "in_hands s = []" using f by (simp_all add: feed_inv_def in_hands_def)
    then show ?thesis using sh(2) client_start_incomplete [of "[]" shown] by (simp add: incomplete_def)
  qed
  with sh(1) p show ?thesis by blast
qed

section \<open>Properties\<close>

text \<open>C17: what the user types is what the server gets: in any run of the terminal program the bytes sent
  are the login name and then the messages, in the order and as often as they were submitted, nothing
  for an empty entry, and the server takes them apart into exactly these commands.\<close>

theorem ui_sends_what_is_typed:
  assumes "ui_run fin bs es s" and "list_all one_line es"
  shows "sent s = concat (map encode (session_commands (submitted es))) \<and>
    ReadAll EOF (sent s) = (session_commands (submitted es), None) \<and> announced '''' (sent s) = said es"
proof -
  have "list_all wire_safe (session_commands (submitted es))"
    by (rule session_wire_safe [OF submitted_one_line [OF assms(2)]])
  then show ?thesis using run_sends [OF assms(1)] run_announces [OF assms]
      ReadAll_from_encoded [of "session_commands (submitted es)" EOF "[]" "[]"] Read_incomplete [of "[]" EOF]
    by (simp add: ReadAll_def list_all_iff incomplete_def ReadAll_from.simps [of EOF "[]"])
qed

text \<open>C18: what arrives is what the user sees: in any run the history is a prefix of the lines for the
  messages that the byte stream carries, and all of them once the goroutines have come to rest, which
  they do in finitely many steps.\<close>

theorem ui_shows_what_arrives:
  assumes "ui_run EOF bs es s"
  shows "\<exists>msgs. client_start EOF bs [] = Some msgs \<and> prefix (history s) (map command_line msgs) \<and>
    (\<not> quitted s \<and> \<not> (\<exists>s'. ui_step EOF s None s') \<longrightarrow> history s = map command_line msgs) \<and>
    (\<nexists>f. f 0 = s \<and> (\<forall>k. ui_step EOF (f k) None (f (Suc k))))"
proof -
  obtain msgs where m: "client_start EOF bs [] = Some msgs" using client_start_returns by blast
  show ?thesis using m run_shows [OF assms m] ui.no_infinite_run by blast
qed

text \<open>C3: the whole application, for a room whose members are all there before the first message: nothing has
  been broadcast so far, and from here on nobody joins and nobody is taken off the list until the server has
  come to rest (the runs in which \<open>serve\<close> removes a client at the end of its bytes are left out, for then
  messages can be missed). Every user types at a terminal of this program messages of one line, under a
  name without a space, and every connection ends with EOF. Then, wherever server and terminals have come to
  rest, every user on the list who has not quit sees every message of every user exactly once, in some
  order, under the name its sender gave.\<close>

theorem chat_application_delivers:
  assumes "chat_reach grow (\<lambda>_. EOF) sends s" and "casts s = []" and "s' \<in> room_ends grow s"
    and "\<And>c. c < accepted s \<Longrightarrow> ui_run EOF (bytes_to c s') (es c) (u c) \<and> sends c = sent (u c)"
    and "\<And>c. c < accepted s \<Longrightarrow> list_all one_line (es c) \<and> SP \<notin> set (concat (take 1 (submitted (es c))))"
    and "d \<in> set (contents (arrs s) (clients s))" and "\<not> quitted (u d)" and "\<nexists>t. ui_step EOF (u d) None t"
  shows "mset (history (u d)) = (\<Sum>c < accepted s. mset (map command_line (said (es c))))"
proof -
  have d: "d < accepted s" using assms(6) clients_inv_reach [OF assms(1)] by (auto simp: clients_inv_def listed_def)
  have "mset (commands_to d s') = (\<Sum>c < accepted s. mset (announced '''' (sends c)))"
    by (rule room_delivers [OF assms(1-3,6)])
  also have "\<dots> = (\<Sum>c < accepted s. mset (said (es c)))"
  proof (rule sum.cong)
    fix c assume "c \<in> {..<accepted s}"
    then have "ui_run EOF (bytes_to c s') (es c) (u c)" "sends c = sent (u c)" "list_all one_line (es c)"
      using assms(4,5) by simp_all
    then show "mset (announced '''' (sends c)) = mset (said (es c))" using run_announces by simp
  qed simp
  finally have m: "mset (commands_to d s') = (\<Sum>c < accepted s. mset (said (es c)))" .
  have "wire_safe cmd \<and> (\<exists>n m. cmd = MessageCommand n m)" if c: "cmd \<in> set (commands_to d s')" for cmd
  proof -
    have "cmd \<in># (\<Sum>c < accepted s. mset (said (es c)))" using c m by (metis set_mset_mset)
    then obtain c where "c < accepted s" "cmd \<in> set (said (es c))" by (auto simp: set_mset_sum)
    then show ?thesis using assms(5) [of c] submitted_one_line [of "es c"]
      by (cases "submitted (es c)") (auto simp: said_def list_all_iff)
  qed
  from client_start_messages [of "commands_to d s'" EOF "[]" "[]"] this
  have "client_start EOF (bytes_to d s') [] = Some (commands_to d s')"
    by (simp add: bytes_to_def client_start_incomplete incomplete_def)
  from run_shows [OF conjunct1 [OF assms(4) [OF d]] this] assms(7,8)
  have "history (u d) = map command_line (commands_to d s')" by blast
  then have "mset (history (u d)) = image_mset command_line (mset (commands_to d s'))" by simp
  also have "\<dots> = (\<Sum>c < accepted s. mset (map command_line (said (es c))))"
    by (simp add: m image_mset_lessThan)
  finally show ?thesis .
qed

section \<open>A run\<close>

text \<open>A user logs in as \<open>al\<close>, presses Enter on the empty entry and says \<open>hi\<close>.\<close>

definition al_events :: "ui_event list" where
  "al_events = [Edit ''al'', Enter, Enter, Edit ''hi'', Enter]"

definition al_done :: "bytes \<Rightarrow> ui_sys" where
  "al_done bs = (ui_start bs)\<lparr>widget := ChatScreen, sent := ''NAME al'' @ [LF] @ ''SEND hi'' @ [LF]\<rparr>"

lemma al_said: "submitted al_events = [''al'', ''hi'']" "said al_events = [MessageCommand ''al'' ''hi'']" "list_all one_line al_events"
  by (simp_all add: said_def submitted_def session_def al_events_def)

lemma al_run: "ui_run fin bs al_events (al_done bs)"
proof -
  have turn: "ui_run fin bs (es @ [e]) (user_turn e s)" if "ui_run fin bs es s" "\<not> quitted s" for es e s
    using ui_run.step [OF that(1) ui_step.user [OF that(2)], of e] by simp
  let ?s = "ui_start bs"
  note steps = ui_start_def login_submit_def chat_submit_def on_login_def on_message_def put_def
    SetName_def SendMessage_def Write_def
  have "ui_run fin bs [Edit ''al''] (?s\<lparr>user_entry := ''al''\<rparr>)"
    using turn [OF ui_run.init, of "Edit ''al''"] by (simp add: steps)
  from turn [OF this, of Enter] have "ui_run fin bs [Edit ''al'', Enter] (?s\<lparr>widget := ChatScreen, sent := ''NAME al'' @ [LF]\<rparr>)"
    by (simp add: steps)
  from turn [OF this, of Enter] have "ui_run fin bs [Edit ''al'', Enter, Enter] (?s\<lparr>widget := ChatScreen, sent := ''NAME al'' @ [LF]\<rparr>)"
    by (simp add: steps)
  from turn [OF this, of "Edit ''hi''"]
  have "ui_run fin bs [Edit ''al'', Enter, Enter, Edit ''hi''] (?s\<lparr>widget := ChatScreen, sent := ''NAME al'' @ [LF], chat_entry := ''hi''\<rparr>)"
    by (simp add: steps)
  from turn [OF this, of Enter] show ?thesis by (simp add: steps al_events_def al_done_def)
qed

text \<open>One message arrives, and then the connection ends.\<close>

abbreviation hi_bytes :: bytes where
  "hi_bytes \<equiv> encode (MessageCommand ''al'' ''hi'')"

definition al_rest :: ui_sys where
  "al_rest = (al_done hi_bytes)\<lparr>arriving := [], start_at := St_Returned, history := [''al: hi'']\<rparr>"

lemma al_rest_run: "ui_run EOF hi_bytes al_events al_rest"
proof -
  have go: "ui_run EOF hi_bytes es s'" if "ui_run EOF hi_bytes es s" "ui_step EOF s None s'" for es s s'
    using ui_run.step [OF that] by simp
  note steps = al_done_def ui_start_def
  let ?s = "(al_done hi_bytes)\<lparr>arriving := []\<rparr>" and ?c = "MessageCommand ''al'' ''hi''"
  have "start_turn EOF (al_done hi_bytes) = ?s\<lparr>start_at := St_Send ?c\<rparr>"
    using Read_encode [of ?c EOF "[]"] by (simp add: start_turn_def steps)
  then have "ui_run EOF hi_bytes al_events (?s\<lparr>start_at := St_Send ?c\<rparr>)"
    using go [OF al_run ui_step.start [of "al_done hi_bytes"]] by (simp add: steps)
  from go [OF this ui_step.meet [of _ ?c]]
  have "ui_run EOF hi_bytes al_events (?s\<lparr>recv_at := Rv_Update ?c\<rparr>)" by (simp add: steps)
  from go [OF this ui_step.update [of _ "''al''" "''hi''"]]
  have r: "ui_run EOF hi_bytes al_events (?s\<lparr>history := [''al: hi'']\<rparr>)" by (simp add: steps AddMessage_def message_line_def)
  have "start_turn EOF (?s\<lparr>history := [''al: hi'']\<rparr>) = al_rest"
    using Read_incomplete [of "[]" EOF] by (simp add: start_turn_def steps al_rest_def incomplete_def)
  then show ?thesis using go [OF r ui_step.start] by (simp add: steps)
qed

lemma al_rests: "\<nexists>t. ui_step EOF al_rest None t"
  by (auto elim!: ui_stepE simp: al_rest_def al_done_def ui_start_def)

theorem ui_sends_what_is_typed_witness:
  "sent (al_done []) = ''NAME al'' @ [LF] @ ''SEND hi'' @ [LF] \<and>
   announced '''' (sent (al_done [])) = [MessageCommand ''al'' ''hi'']"
proof -
  have "announced '''' (sent (al_done [])) = said al_events"
    using ui_sends_what_is_typed [OF al_run [of EOF "[]"] al_said(3)] by blast
  then show ?thesis using al_said(2) by (simp only: al_done_def) (simp add: ui_start_def)
qed

theorem ui_shows_what_arrives_witness:
  "\<exists>msgs. client_start EOF hi_bytes [] = Some msgs \<and> map command_line msgs = [''al: hi'']"
proof -
  have "history al_rest = [''al: hi'']" "\<not> quitted al_rest" by (simp_all add: al_rest_def al_done_def ui_start_def)
  with ui_shows_what_arrives [OF al_rest_run] al_rests show ?thesis by metis
qed

theorem chat_application_delivers_witness:
  "\<exists>s s' u. chat_reach (\<lambda>_. 1) (\<lambda>_. EOF) (\<lambda>_. sent al_rest) s \<and> s' \<in> room_ends (\<lambda>_. 1) s \<and>
     ui_run EOF (bytes_to 0 s') al_events u \<and> mset (history u) = {#''al: hi''#}"
proof -
  let ?sends = "\<lambda>_. sent al_rest"
  let ?s = "accept_conn (\<lambda>_. 1) (chat_start ?sends)"
  have r: "chat_reach (\<lambda>_. 1) (\<lambda>_. EOF) ?sends ?s"
    by (intro chat_reach.step [OF _ chat_step.accept] chat_reach.init)
  have s: "casts ?s = []" "accepted ?s = 1" "contents (arrs ?s) (clients ?s) = [0]"
    by (simp_all add: accept_conn_def chat_start_def append_client_def contents_def)
  obtain s' where e: "s' \<in> room_ends (\<lambda>_. 1) ?s"
    using room.comes_to_rest [OF room_inv_begin [OF r s(1)], of "\<lambda>_. 1"] by (auto simp: room_ends_def)
  have a: "announced '''' (sent al_rest) = [MessageCommand ''al'' ''hi'']"
    using run_announces [OF al_rest_run al_said(3)] al_said(2) by simp
  have "mset (commands_to 0 s') = {#MessageCommand ''al'' ''hi''#}"
    using room_delivers [OF r s(1) e, of 0] s(2,3) by (simp add: a)
  then have "bytes_to 0 s' = hi_bytes" by (simp add: bytes_to_def)
  then have u: "ui_run EOF (bytes_to 0 s') al_events al_rest" using al_rest_run by simp
  have "mset (history al_rest) = (\<Sum>c < accepted ?s. mset (map command_line (said al_events)))"
    by (rule chat_application_delivers [OF r s(1) e, where u = "\<lambda>_. al_rest" and es = "\<lambda>_. al_events" and d = 0])
      (use u s al_rests in \<open>auto simp: al_said, auto simp: al_rest_def al_done_def ui_start_def\<close>)
  then have "mset (history al_rest) = {#''al: hi''#}" using s(2) by (simp add: al_said message_line_def)
  with r e u show ?thesis by blast
qed

text \<open>After the server is gone nothing tells the user: \<open>incoming\<close> is never closed, so the goroutine
  that ranges over it waits for ever and the view stays as it is.\<close>

lemma ui_outlives_connection:
  assumes "ui_run EOF bs es s" "\<not> quitted s" "\<nexists>t. ui_step EOF s None t"
  shows "start_at s = St_Returned \<and> recv_at s = Rv_Range"
  using ui_rest [OF feed_run [OF assms(1)] assms(2,3)] .

end
