(* ===== verification/FooOrder.thy ===== *)
theory FooOrder
  imports Systems "HOL-Library.Multiset"
begin

text \<open>
  \<open>leetcode_concurrency/1114.go\<close>: three goroutines, started in any order, print in a fixed order,
  because each waits for its predecessor on an unbuffered channel. A send and the receive it meets
  are one step. Goroutines of the same method cannot be told apart, so the running ones are a
  multiset of program points.
\<close>

section \<open>The program\<close>

text \<open>
  Before each statement of \<open>first\<close>, \<open>second\<close>, \<open>third\<close>; the \<open>Exit\<close> points are before the deferred
  \<open>wg.Done\<close>.
\<close>

datatype foo_pc =
    First_Print | First_Send | First_Exit | First_Done
  | Second_Recv | Second_Print | Second_Send | Second_Exit | Second_Done
  | Third_Recv | Third_Print | Third_Exit | Third_Done

datatype run_pc = Running | Finished | Panicked

record foo_sys =
  todo :: "nat list"
  gor :: "foo_pc multiset"
  wg :: nat
  printed :: "string list"
  main_at :: run_pc

text \<open>The map from numbers to methods; calling the missing method of another number panics.\<close>

definition foo_method :: "nat \<Rightarrow> foo_pc option" where
  "foo_method v =
     (if v = 1 then Some First_Print else if v = 2 then Some Second_Recv
      else if v = 3 then Some Third_Recv else None)"

definition run_foo :: "nat list \<Rightarrow> foo_sys" where
  "run_foo ns = \<lparr>todo = ns, gor = {#}, wg = 3, printed = [], main_at = Running\<rparr>"

text \<open>The statements of a goroutine that concern it alone: where it goes next and what it prints.\<close>

fun foo_print :: "foo_pc \<Rightarrow> (foo_pc \<times> string) option" where
  "foo_print First_Print = Some (First_Send, ''first'')"
| "foo_print Second_Print = Some (Second_Send, ''second'')"
| "foo_print Third_Print = Some (Third_Exit, ''thrid'')"
| "foo_print _ = None"

fun foo_done :: "foo_pc \<Rightarrow> foo_pc option" where
  "foo_done First_Exit = Some First_Done"
| "foo_done Second_Exit = Some Second_Done"
| "foo_done Third_Exit = Some Third_Done"
| "foo_done _ = None"

text \<open>The sender and the receiver that meet on \<open>c1\<close> and on \<open>c2\<close>, and where they go.\<close>

definition foo_meet :: "foo_pc \<Rightarrow> foo_pc \<Rightarrow> (foo_pc \<times> foo_pc) option" where
  "foo_meet p q =
     (if p = First_Send \<and> q = Second_Recv then Some (First_Exit, Second_Print)
      else if p = Second_Send \<and> q = Third_Recv then Some (Second_Exit, Third_Print) else None)"

inductive foo_step :: "foo_sys \<Rightarrow> foo_sys \<Rightarrow> bool" where
  go: "main_at s = Running \<Longrightarrow> todo s = v # vs \<Longrightarrow> foo_method v = Some p \<Longrightarrow>
     foo_step s (s\<lparr>todo := vs, gor := add_mset p (gor s)\<rparr>)"
| go_nil: "main_at s = Running \<Longrightarrow> todo s = v # vs \<Longrightarrow> foo_method v = None \<Longrightarrow>
     foo_step s (s\<lparr>main_at := Panicked\<rparr>)"
| print: "main_at s = Running \<Longrightarrow> gor s = add_mset p G \<Longrightarrow> foo_print p = Some (p', w) \<Longrightarrow>
     foo_step s (s\<lparr>gor := add_mset p' G, printed := printed s @ [w]\<rparr>)"
| meet: "main_at s = Running \<Longrightarrow> gor s = add_mset p (add_mset q G) \<Longrightarrow> foo_meet p q = Some (p', q') \<Longrightarrow>
     foo_step s (s\<lparr>gor := add_mset p' (add_mset q' G)\<rparr>)"
| finish: "main_at s = Running \<Longrightarrow> gor s = add_mset p G \<Longrightarrow> foo_done p = Some p' \<Longrightarrow>
     foo_step s (if wg s = 0 then s\<lparr>main_at := Panicked\<rparr> else s\<lparr>gor := add_mset p' G, wg := wg s - 1\<rparr>)"
| wait: "main_at s = Running \<Longrightarrow> todo s = [] \<Longrightarrow> wg s = 0 \<Longrightarrow> foo_step s (s\<lparr>main_at := Finished\<rparr>)"

inductive_cases foo_stepE [step_elims]: "foo_step s s'"

inductive foo_reach :: "nat list \<Rightarrow> foo_sys \<Rightarrow> bool" for ns :: "nat list" where
  init: "foo_reach ns (run_foo ns)"
| step: "foo_reach ns s \<Longrightarrow> foo_step s s' \<Longrightarrow> foo_reach ns s'"

section \<open>The invariant\<close>

text \<open>
  The points of the three methods, in step with each other; those that have not been started count
  as being at their first statement.
\<close>

definition entries :: "nat list \<Rightarrow> foo_pc multiset" where
  "entries ns = mset (map (the \<circ> foo_method) ns)"

definition undone :: "foo_pc \<Rightarrow> nat" where
  "undone p = (if p \<in> {First_Done, Second_Done, Third_Done} then 0 else 1)"

inductive in_step :: "foo_pc \<Rightarrow> foo_pc \<Rightarrow> foo_pc \<Rightarrow> string list \<Rightarrow> bool" where
  at_start: "in_step First_Print Second_Recv Third_Recv []"
| first_printed: "in_step First_Send Second_Recv Third_Recv [''first'']"
| first_sent: "a \<in> {First_Exit, First_Done} \<Longrightarrow> in_step a Second_Print Third_Recv [''first'']"
| second_printed: "a \<in> {First_Exit, First_Done} \<Longrightarrow> in_step a Second_Send Third_Recv [''first'', ''second'']"
| second_sent: "a \<in> {First_Exit, First_Done} \<Longrightarrow> b \<in> {Second_Exit, Second_Done} \<Longrightarrow>
    in_step a b Third_Print [''first'', ''second'']"
| third_printed: "a \<in> {First_Exit, First_Done} \<Longrightarrow> b \<in> {Second_Exit, Second_Done} \<Longrightarrow>
    c \<in> {Third_Exit, Third_Done} \<Longrightarrow> in_step a b c [''first'', ''second'', ''thrid'']"

lemma undone_simps [simp]:
  "undone First_Done = 0" "undone Second_Done = 0" "undone Third_Done = 0"
  "undone First_Print = 1" "undone First_Send = 1" "undone First_Exit = 1"
  "undone Second_Recv = 1" "undone Second_Print = 1" "undone Second_Send = 1" "undone Second_Exit = 1"
  "undone Third_Recv = 1" "undone Third_Print = 1" "undone Third_Exit = 1"
  by (simp_all add: undone_def)

definition foo_inv :: "foo_sys \<Rightarrow> bool" where
  "foo_inv s \<longleftrightarrow> (\<exists>a b c. gor s + entries (todo s) = {#a, b, c#} \<and> in_step a b c (printed s) \<and>
     wg s = undone a + undone b + undone c) \<and>
     list_all (\<lambda>v. foo_method v \<noteq> None) (todo s) \<and> main_at s \<noteq> Panicked \<and>
     (main_at s = Finished \<longrightarrow> todo s = [] \<and> wg s = 0)"

lemma add_mset_three:
  "add_mset p M = {#a, b, c#} \<Longrightarrow>
   p = a \<and> M = {#b, c#} \<or> p = b \<and> M = {#a, c#} \<or> p = c \<and> M = {#a, b#}"
  by (auto simp: add_eq_conv_ex add_mset_eq_single)

lemma add_mset_two: "add_mset p M = {#a, b#} \<Longrightarrow> p = a \<and> M = {#b#} \<or> p = b \<and> M = {#a#}"
  by (auto simp: add_eq_conv_ex add_mset_eq_single)

lemma foo_inv_start:
  assumes "mset ns = {#1, 2, 3#}"
  shows "foo_inv (run_foo ns)"
proof -
  have "entries ns = image_mset (the \<circ> foo_method) (mset ns)" by (simp add: entries_def)
  also have "\<dots> = {#First_Print, Second_Recv, Third_Recv#}" by (simp add: assms foo_method_def)
  finally have e: "entries ns = {#First_Print, Second_Recv, Third_Recv#}" .
  have "set ns = {1, 2, 3}" using assms by (metis set_mset_mset set_mset_add_mset_insert set_mset_empty)
  then have "list_all (\<lambda>v. foo_method v \<noteq> None) ns" by (auto simp: list_all_iff foo_method_def)
  then show ?thesis
    using e in_step.at_start by (fastforce simp: foo_inv_def run_foo_def)
qed

text \<open>Each kind of statement, at each of the three places.\<close>

lemma foo_print_in_step:
  assumes "in_step a b c out"
  shows "foo_print a = Some (p, w) \<Longrightarrow> in_step p b c (out @ [w]) \<and> undone p = undone a"
    "foo_print b = Some (p, w) \<Longrightarrow> in_step a p c (out @ [w]) \<and> undone p = undone b"
    "foo_print c = Some (p, w) \<Longrightarrow> in_step a b p (out @ [w]) \<and> undone p = undone c"
  using assms by (auto elim!: in_step.cases intro!: in_step.intros)

lemma foo_done_in_step:
  assumes "in_step a b c out"
  shows "foo_done a = Some p \<Longrightarrow> in_step p b c out \<and> undone a = 1 \<and> undone p = 0"
    "foo_done b = Some p \<Longrightarrow> in_step a p c out \<and> undone b = 1 \<and> undone p = 0"
    "foo_done c = Some p \<Longrightarrow> in_step a b p out \<and> undone c = 1 \<and> undone p = 0"
  using assms by (auto elim!: in_step.cases intro!: in_step.intros)

lemma foo_meet_in_step:
  assumes "in_step a b c out"
  shows "foo_meet a b = Some (p, q) \<Longrightarrow> in_step p q c out \<and> undone p = undone a \<and> undone q = undone b"
    "foo_meet b c = Some (p, q) \<Longrightarrow> in_step a p q out \<and> undone p = undone b \<and> undone q = undone c"
    "foo_meet a c = None" "foo_meet b a = None" "foo_meet c b = None" "foo_meet c a = None"
proof -
  show "foo_meet a c = None" "foo_meet b a = None" "foo_meet c b = None" "foo_meet c a = None"
    using assms by (auto simp: foo_meet_def elim: in_step.cases)
  show "foo_meet a b = Some (p, q) \<Longrightarrow> in_step p q c out \<and> undone p = undone a \<and> undone q = undone b"
    using assms by (auto simp: foo_meet_def split: if_splits elim!: in_step.cases intro!: in_step.intros)
  show "foo_meet b c = Some (p, q) \<Longrightarrow> in_step a p q out \<and> undone p = undone b \<and> undone q = undone c"
    using assms by (auto simp: foo_meet_def split: if_splits elim!: in_step.cases intro!: in_step.intros)
qed

lemma foo_inv_I:
  assumes "foo_inv s" "main_at s = Running" "gor s' + entries (todo s') = {#a, b, c#}" "in_step a b c (printed s')"
    "wg s' = undone a + undone b + undone c" "todo s' = todo s" "main_at s' = Running"
  shows "foo_inv s'"
  using assms by (auto simp: foo_inv_def)

lemma foo_inv_print:
  assumes "foo_inv s" "main_at s = Running" "gor s = add_mset p G" "foo_print p = Some (p', w)"
  shows "foo_inv (s\<lparr>gor := add_mset p' G, printed := printed s @ [w]\<rparr>)"
proof -
  obtain a b c where i: "add_mset p (G + entries (todo s)) = {#a, b, c#}" "in_step a b c (printed s)"
    "wg s = undone a + undone b + undone c"
    using assms(1,3) by (auto simp: foo_inv_def)
  note pr = foo_print_in_step [OF i(2)]
  from add_mset_three [OF i(1)] show ?thesis
  proof (elim disjE conjE)
    assume "p = a" "G + entries (todo s) = {#b, c#}"
    then show ?thesis using pr(1) assms(4) i(3) by (intro foo_inv_I [OF assms(1,2), of _ p' b c]) (auto simp: assms(2))
  next
    assume "p = b" "G + entries (todo s) = {#a, c#}"
    then show ?thesis using pr(2) assms(4) i(3)
      by (intro foo_inv_I [OF assms(1,2), of _ a p' c]) (auto simp: assms(2) add_mset_commute)
  next
    assume "p = c" "G + entries (todo s) = {#a, b#}"
    then show ?thesis using pr(3) assms(4) i(3)
      by (intro foo_inv_I [OF assms(1,2), of _ a b p']) (auto simp: assms(2) add_mset_commute)
  qed
qed

lemma foo_inv_done:
  assumes "foo_inv s" "main_at s = Running" "gor s = add_mset p G" "foo_done p = Some p'"
  shows "wg s \<noteq> 0 \<and> foo_inv (s\<lparr>gor := add_mset p' G, wg := wg s - 1\<rparr>)"
proof -
  obtain a b c where i: "add_mset p (G + entries (todo s)) = {#a, b, c#}" "in_step a b c (printed s)"
    "wg s = undone a + undone b + undone c"
    using assms(1,3) by (auto simp: foo_inv_def)
  note dn = foo_done_in_step [OF i(2)]
  from add_mset_three [OF i(1)] show ?thesis
  proof (elim disjE conjE)
    assume "p = a" "G + entries (todo s) = {#b, c#}"
    then show ?thesis using dn(1) assms(4) i(3)
      by (auto simp: assms(2) intro!: foo_inv_I [OF assms(1,2), of _ p' b c])
  next
    assume "p = b" "G + entries (todo s) = {#a, c#}"
    then show ?thesis using dn(2) assms(4) i(3)
      by (auto simp: assms(2) add_mset_commute intro!: foo_inv_I [OF assms(1,2), of _ a p' c])
  next
    assume "p = c" "G + entries (todo s) = {#a, b#}"
    then show ?thesis using dn(3) assms(4) i(3)
      by (auto simp: assms(2) add_mset_commute intro!: foo_inv_I [OF assms(1,2), of _ a b p'])
  qed
qed

lemma foo_inv_meet:
  assumes "foo_inv s" "main_at s = Running" "gor s = add_mset p (add_mset q G)" "foo_meet p q = Some (p', q')"
  shows "foo_inv (s\<lparr>gor := add_mset p' (add_mset q' G)\<rparr>)"
proof -
  obtain a b c where i: "add_mset p (add_mset q (G + entries (todo s))) = {#a, b, c#}"
    "in_step a b c (printed s)" "wg s = undone a + undone b + undone c"
    using assms(1,3) by (auto simp: foo_inv_def)
  note mt = foo_meet_in_step [OF i(2)]
  from add_mset_three [OF i(1)] assms(4) mt(3-6)
  consider "p = a" "q = b" "G + entries (todo s) = {#c#}" | "p = b" "q = c" "G + entries (todo s) = {#a#}"
    by (auto dest!: add_mset_two)
  then show ?thesis
  proof cases
    case 1
    then show ?thesis using mt(1) assms(4) i(3) by (intro foo_inv_I [OF assms(1,2), of _ p' q' c]) (auto simp: assms(2))
  next
    case 2
    then show ?thesis using mt(2) assms(4) i(3)
      by (intro foo_inv_I [OF assms(1,2), of _ a p' q']) (auto simp: assms(2) add_mset_commute)
  qed
qed

lemma foo_inv_step: "foo_step s s' \<Longrightarrow> foo_inv s \<Longrightarrow> foo_inv s'"
proof (induction rule: foo_step.induct)
  case (go s v vs p)
  then show ?case by (auto simp: foo_inv_def entries_def)
next
  case (finish s p G p')
  then show ?case using foo_inv_done [OF finish(4,1-3)] by simp
next
  case (wait s)
  then show ?case by (auto simp: foo_inv_def)
next
  case (go_nil s v vs)
  then show ?case by (simp add: foo_inv_def)
qed (rule foo_inv_print foo_inv_meet; assumption)+

lemma foo_inv_reach: "foo_reach ns s \<Longrightarrow> mset ns = {#1, 2, 3#} \<Longrightarrow> foo_inv s"
  by (induction rule: foo_reach.induct) (auto intro: foo_inv_start foo_inv_step)

lemma foo_inv_prefix:
  assumes "foo_inv s"
  shows "prefix (printed s) [''first'', ''second'', ''thrid'']"
  using assms by (auto simp: foo_inv_def elim!: in_step.cases)

lemma foo_inv_finished:
  assumes "foo_inv s" "main_at s = Finished"
  shows "printed s = [''first'', ''second'', ''thrid'']"
proof -
  obtain a b c where "in_step a b c (printed s)" "undone a + undone b + undone c = 0"
    using assms by (auto simp: foo_inv_def)
  then show ?thesis by (auto elim!: in_step.cases)
qed

section \<open>Termination\<close>

fun rank :: "foo_pc \<Rightarrow> nat" where
  "rank First_Print = 3" | "rank First_Send = 2" | "rank First_Exit = 1" | "rank First_Done = 0"
| "rank Second_Recv = 4" | "rank Second_Print = 3" | "rank Second_Send = 2" | "rank Second_Exit = 1"
| "rank Second_Done = 0"
| "rank Third_Recv = 3" | "rank Third_Print = 2" | "rank Third_Exit = 1" | "rank Third_Done = 0"

definition foo_work :: "foo_sys \<Rightarrow> nat" where
  "foo_work s = (if main_at s = Running then 1 else 0) + (\<Sum>p \<in># gor s. rank p) +
     sum_list (map (\<lambda>v. case foo_method v of None \<Rightarrow> 1 | Some p \<Rightarrow> Suc (rank p)) (todo s))"

lemma rank_print: "foo_print p = Some (p', w) \<Longrightarrow> rank p' < rank p"
  by (elim foo_print.elims) auto

lemma rank_done: "foo_done p = Some p' \<Longrightarrow> rank p' < rank p"
  by (elim foo_done.elims) auto

lemma rank_meet: "foo_meet p q = Some (p', q') \<Longrightarrow> rank p' + rank q' < rank p + rank q"
  by (auto simp: foo_meet_def split: if_splits)

lemma foo_step_work: "foo_step s s' \<Longrightarrow> foo_work s' < foo_work s"
  by (induction rule: foo_step.induct) (auto simp: foo_work_def dest: rank_print rank_done rank_meet)

lemma foo_progress:
  assumes "foo_inv s" "main_at s = Running"
  shows "\<exists>s'. foo_step s s'"
proof (cases "todo s")
  case (Cons v vs)
  then show ?thesis using foo_step.go [OF assms(2) Cons] foo_step.go_nil [OF assms(2) Cons]
    by (cases "foo_method v") blast+
next
  case Nil
  obtain a b c where i: "gor s = {#a, b, c#}" "in_step a b c (printed s)" "wg s = undone a + undone b + undone c"
    using assms(1) Nil by (auto simp: foo_inv_def entries_def)
  have one: "\<exists>s'. foo_step s s'" if "gor s = add_mset p G" "foo_print p \<noteq> None \<or> foo_done p \<noteq> None" for p G
    using that(2) foo_step.print [OF assms(2) that(1)] foo_step.finish [OF assms(2) that(1)] by fastforce
  have two: "\<exists>s'. foo_step s s'" if "gor s = add_mset p (add_mset q G)" "foo_meet p q \<noteq> None" for p q G
    using that(2) foo_step.meet [OF assms(2) that(1)] by fastforce
  have g: "gor s = add_mset a {#b, c#}" "gor s = add_mset b {#a, c#}" "gor s = add_mset c {#a, b#}"
    "gor s = add_mset b (add_mset c {#a#})" "gor s = add_mset a (add_mset b {#c#})"
    using i(1) by (simp_all add: add_mset_commute)
  consider "foo_print a \<noteq> None \<or> foo_done a \<noteq> None" | "foo_print b \<noteq> None \<or> foo_done b \<noteq> None"
    | "foo_print c \<noteq> None \<or> foo_done c \<noteq> None" | "foo_meet a b \<noteq> None" | "foo_meet b c \<noteq> None"
    | "wg s = 0"
    using i(2,3) by (auto simp: foo_meet_def elim!: in_step.cases)
  then show ?thesis
    using one [OF g(1)] one [OF g(2)] one [OF g(3)] two [OF g(5)] two [OF g(4)] foo_step.wait [OF assms(2) Nil]
    by cases blast+
qed

interpretation foo: terminating_system foo_step foo_inv foo_work "\<lambda>s. main_at s = Finished"
proof unfold_locales
  fix s assume "foo_inv s" "main_at s \<noteq> Finished"
  then show "\<exists>s'. foo_step s s'"
    by (intro foo_progress) (auto simp: foo_inv_def, metis run_pc.exhaust)
qed (auto intro: foo_inv_step foo_step_work)

section \<open>Properties\<close>

text \<open>C34: whichever order the three methods are started in, and in every interleaving, what has been
  printed is at any time a prefix of first, second, thrid, nothing panics, and all three are printed
  when \<open>run\<close> returns; no run goes on for ever, and every run can be continued to the return.\<close>

theorem foo_prints_in_order:
  assumes "mset ns = {#1, 2, 3#}" and "foo_reach ns s"
  shows "prefix (printed s) [''first'', ''second'', ''thrid''] \<and> main_at s \<noteq> Panicked \<and>
    (main_at s = Finished \<longrightarrow> printed s = [''first'', ''second'', ''thrid'']) \<and>
    (\<nexists>f. f 0 = s \<and> (\<forall>k. foo_step (f k) (f (Suc k)))) \<and>
    (\<exists>s'. foo_step\<^sup>*\<^sup>* s s' \<and> main_at s' = Finished)"
proof -
  have i: "foo_inv s" using foo_inv_reach [OF assms(2,1)] .
  then have "main_at s \<noteq> Panicked" by (simp add: foo_inv_def)
  then show ?thesis
    using foo_inv_prefix [OF i] foo_inv_finished [OF i] foo.no_infinite_run foo.inevitable [OF i] i by blast
qed

theorem foo_prints_in_order_witness:
  "\<exists>s. foo_step\<^sup>*\<^sup>* (run_foo [3, 2, 1]) s \<and> main_at s = Finished"
  using foo_prints_in_order [OF _ foo_reach.init, of "[3, 2, 1]"] by (simp add: add_mset_commute)

end
