(* ===== verification/GoChan.thy ===== *)
theory GoChan
  imports Systems
begin

text \<open>
  Buffered Go channels, as far as the programs use them: a send blocks on a full buffer and panics on a
  closed channel, a receive takes the oldest value, and on an empty channel it blocks, or reports
  the end if the channel is closed; closing twice panics. A channel and what went through it in
  either direction satisfy one law, which the programs' invariants rest on: received values and
  buffered values, in this order, are the sent values.
\<close>

record 'a chan =
  cbuf :: "'a list"
  ccap :: nat
  closed :: bool

definition make_chan :: "nat \<Rightarrow> 'a chan" where
  "make_chan n = \<lparr>cbuf = [], ccap = n, closed = False\<rparr>"

datatype 'a go_outcome = Does 'a | Blocks | Panics

definition chan_send :: "'a \<Rightarrow> 'a chan \<Rightarrow> 'a chan go_outcome" where
  "chan_send x ch =
     (if closed ch then Panics
      else if length (cbuf ch) < ccap ch then Does (ch\<lparr>cbuf := cbuf ch @ [x]\<rparr>) else Blocks)"

text \<open>The second result of a receive: \<open>None\<close> is the end of the channel (\<open>ok\<close> is false).\<close>

definition chan_recv :: "'a chan \<Rightarrow> ('a chan \<times> 'a option) go_outcome" where
  "chan_recv ch =
     (case cbuf ch of
        x # xs \<Rightarrow> Does (ch\<lparr>cbuf := xs\<rparr>, Some x)
      | [] \<Rightarrow> if closed ch then Does (ch, None) else Blocks)"

definition chan_close :: "'a chan \<Rightarrow> 'a chan go_outcome" where
  "chan_close ch = (if closed ch then Panics else Does (ch\<lparr>closed := True\<rparr>))"

text \<open>What has been received and what is buffered is what has been sent.\<close>

definition chan_fifo :: "'a chan \<Rightarrow> 'a list \<Rightarrow> 'a list \<Rightarrow> bool" where
  "chan_fifo ch outs ins \<longleftrightarrow> outs @ cbuf ch = ins \<and> length (cbuf ch) \<le> ccap ch"

lemma chan_fifo_make: "chan_fifo (make_chan n) [] []"
  by (simp add: chan_fifo_def make_chan_def)

lemma chan_fifo_send: "chan_fifo ch outs ins \<Longrightarrow> chan_send x ch = Does ch' \<Longrightarrow> chan_fifo ch' outs (ins @ [x])"
  by (auto simp: chan_fifo_def chan_send_def split: if_splits)

lemma chan_fifo_recv: "chan_fifo ch outs ins \<Longrightarrow> chan_recv ch = Does (ch', Some x) \<Longrightarrow> chan_fifo ch' (outs @ [x]) ins"
  by (auto simp: chan_fifo_def chan_recv_def split: list.splits if_splits)

lemma chan_fifo_close: "chan_fifo ch outs ins \<Longrightarrow> chan_close ch = Does ch' \<Longrightarrow> chan_fifo ch' outs ins"
  by (auto simp: chan_fifo_def chan_close_def split: if_splits)

lemma chan_fifo_end: "chan_fifo ch outs ins \<Longrightarrow> chan_recv ch = Does (ch', None) \<Longrightarrow> ch' = ch \<and> closed ch \<and> outs = ins"
  by (auto simp: chan_fifo_def chan_recv_def split: list.splits if_splits)

lemmas chan_fifo_ops = chan_fifo_send chan_fifo_recv chan_fifo_close

lemma chan_send_frame:
  "chan_send x ch = Does ch' \<Longrightarrow> closed ch' = closed ch \<and> ccap ch' = ccap ch \<and> length (cbuf ch') = Suc (length (cbuf ch))"
  by (auto simp: chan_send_def split: if_splits)

lemma chan_recv_frame:
  "chan_recv ch = Does (ch', Some x) \<Longrightarrow> closed ch' = closed ch \<and> ccap ch' = ccap ch \<and> length (cbuf ch) = Suc (length (cbuf ch'))"
  by (auto simp: chan_recv_def split: list.splits if_splits)

lemma chan_close_frame:
  "chan_close ch = Does ch' \<Longrightarrow> closed ch' \<and> \<not> closed ch \<and> ccap ch' = ccap ch \<and> cbuf ch' = cbuf ch"
  by (auto simp: chan_close_def split: if_splits)

lemma chan_blocks:
  "chan_send x ch = Blocks \<longleftrightarrow> \<not> closed ch \<and> ccap ch \<le> length (cbuf ch)"
  "chan_recv ch = Blocks \<longleftrightarrow> \<not> closed ch \<and> cbuf ch = []"
  "chan_close ch \<noteq> Blocks"
  by (auto simp: chan_send_def chan_recv_def chan_close_def split: list.splits)

lemma chan_panics:
  "chan_send x ch = Panics \<longleftrightarrow> closed ch" "chan_recv ch \<noteq> Panics" "chan_close ch = Panics \<longleftrightarrow> closed ch"
  by (auto simp: chan_send_def chan_recv_def chan_close_def split: list.splits)

end
