(* ===== verification/ProduceConsume.thy ===== *)
theory ProduceConsume
  imports GoChan
begin

text \<open>
  \<open>produce_consume/model1/main1.go\<close>: a producer sends the numbers 1 to 5 through a channel of
  capacity 3 and closes it; a consumer ranges over the channel and then reports to \<open>main\<close> on the
  unbuffered channel \<open>done\<close>. Sleeping takes time and nothing else, so it is left to the
  interleaving.
\<close>

section \<open>The program\<close>

text \<open>The points of \<open>producer\<close> (with the loop variable), \<open>consumer\<close> (with \<open>num\<close>) and \<open>main\<close>.\<close>

datatype prod_pc = P_Loop nat | P_Print nat | P_Exit
datatype cons_pc = C_Recv | C_Print nat | C_Done | C_Exit
datatype pc_main = M_Wait | M_Print | M_Exit | M_Panic

datatype pc_event = Produced nat | Consumed nat | Finished_Line

record pc_sys =
  chn :: "nat chan"
  prod_at :: prod_pc
  cons_at :: cons_pc
  pcmain :: pc_main
  pcout :: "pc_event list"

definition pc_start :: pc_sys where
  "pc_start = \<lparr>chn = make_chan 3, prod_at = P_Loop 1, cons_at = C_Recv, pcmain = M_Wait, pcout = []\<rparr>"

fun producer :: "prod_pc \<Rightarrow> pc_sys \<Rightarrow> pc_sys go_outcome" where
  "producer (P_Loop i) s =
     (if i \<le> 5
      then (case chan_send i (chn s) of
              Does ch \<Rightarrow> Does (s\<lparr>chn := ch, prod_at := P_Print i\<rparr>)
            | Blocks \<Rightarrow> Blocks | Panics \<Rightarrow> Panics)
      else (case chan_close (chn s) of
              Does ch \<Rightarrow> Does (s\<lparr>chn := ch, prod_at := P_Exit\<rparr>)
            | Blocks \<Rightarrow> Blocks | Panics \<Rightarrow> Panics))"
| "producer (P_Print i) s = Does (s\<lparr>pcout := pcout s @ [Produced i], prod_at := P_Loop (Suc i)\<rparr>)"
| "producer P_Exit s = Blocks"

text \<open>At \<open>C_Done\<close> the consumer sends on \<open>done\<close>, which \<open>main\<close> receives in the same step.\<close>

fun consumer :: "cons_pc \<Rightarrow> pc_sys \<Rightarrow> pc_sys go_outcome" where
  "consumer C_Recv s =
     (case chan_recv (chn s) of
        Does (ch, Some num) \<Rightarrow> Does (s\<lparr>chn := ch, cons_at := C_Print num\<rparr>)
      | Does (ch, None) \<Rightarrow> Does (s\<lparr>cons_at := C_Done\<rparr>)
      | Blocks \<Rightarrow> Blocks | Panics \<Rightarrow> Panics)"
| "consumer (C_Print num) s = Does (s\<lparr>pcout := pcout s @ [Consumed num], cons_at := C_Recv\<rparr>)"
| "consumer C_Done s =
     (if pcmain s = M_Wait then Does (s\<lparr>cons_at := C_Exit, pcmain := M_Print\<rparr>) else Blocks)"
| "consumer C_Exit s = Blocks"

text \<open>When \<open>main\<close> returns or a goroutine panics the program is over.\<close>

inductive pc_step :: "pc_sys \<Rightarrow> pc_sys \<Rightarrow> bool" where
  prod: "pcmain s \<in> {M_Wait, M_Print} \<Longrightarrow> producer (prod_at s) s = Does s' \<Longrightarrow> pc_step s s'"
| prod_panic: "pcmain s \<in> {M_Wait, M_Print} \<Longrightarrow> producer (prod_at s) s = Panics \<Longrightarrow>
     pc_step s (s\<lparr>pcmain := M_Panic\<rparr>)"
| cons: "pcmain s \<in> {M_Wait, M_Print} \<Longrightarrow> consumer (cons_at s) s = Does s' \<Longrightarrow> pc_step s s'"
| print: "pcmain s = M_Print \<Longrightarrow> pc_step s (s\<lparr>pcout := pcout s @ [Finished_Line], pcmain := M_Exit\<rparr>)"

inductive_cases pc_stepE [step_elims]: "pc_step s s'"

inductive pc_reach :: "pc_sys \<Rightarrow> bool" where
  init: "pc_reach pc_start"
| step: "pc_reach s \<Longrightarrow> pc_step s s' \<Longrightarrow> pc_reach s'"

section \<open>The invariant\<close>

text \<open>The numbers printed by either side, and the numbers each side has sent or received.\<close>

fun produced :: "pc_event list \<Rightarrow> nat list" where
  "produced [] = []"
| "produced (Produced i # es) = i # produced es"
| "produced (_ # es) = produced es"

fun consumed :: "pc_event list \<Rightarrow> nat list" where
  "consumed [] = []"
| "consumed (Consumed i # es) = i # consumed es"
| "consumed (_ # es) = consumed es"

lemma produced_append [simp]: "produced (xs @ ys) = produced xs @ produced ys"
  by (induction xs rule: produced.induct) auto

lemma consumed_append [simp]: "consumed (xs @ ys) = consumed xs @ consumed ys"
  by (induction xs rule: consumed.induct) auto

fun pending_print :: "prod_pc \<Rightarrow> nat list" where
  "pending_print (P_Print i) = [i]" | "pending_print _ = []"

fun held :: "cons_pc \<Rightarrow> nat list" where
  "held (C_Print num) = [num]" | "held _ = []"

fun prod_next :: "prod_pc \<Rightarrow> nat" where
  "prod_next (P_Loop i) = i" | "prod_next (P_Print i) = Suc i" | "prod_next P_Exit = 6"

definition pc_inv :: "pc_sys \<Rightarrow> bool" where
  "pc_inv s \<longleftrightarrow>
     1 \<le> prod_next (prod_at s) \<and> prod_next (prod_at s) \<le> 6 \<and>
     chan_fifo (chn s) (consumed (pcout s) @ held (cons_at s)) [1..<prod_next (prod_at s)] \<and>
     produced (pcout s) @ pending_print (prod_at s) = [1..<prod_next (prod_at s)] \<and>
     ccap (chn s) = 3 \<and> (closed (chn s) \<longleftrightarrow> prod_at s = P_Exit) \<and>
     (cons_at s \<in> {C_Done, C_Exit} \<longrightarrow> closed (chn s) \<and> cbuf (chn s) = []) \<and>
     (pcmain s = M_Wait \<longleftrightarrow> cons_at s \<noteq> C_Exit) \<and> pcmain s \<noteq> M_Panic \<and>
     (Finished_Line \<in> set (pcout s) \<longleftrightarrow> pcmain s = M_Exit)"

lemma pc_inv_start: "pc_inv pc_start"
  by (simp add: pc_inv_def pc_start_def chan_fifo_def make_chan_def)

lemma pc_inv_producer:
  assumes "pc_inv s" "producer (prod_at s) s = Does s'"
  shows "pc_inv s'"
proof (cases "prod_at s")
  case (P_Loop i)
  show ?thesis
  proof (cases "i \<le> 5")
    case True
    with assms(2) P_Loop obtain ch where "chan_send i (chn s) = Does ch"
      "s' = s\<lparr>chn := ch, prod_at := P_Print i\<rparr>" by (auto split: go_outcome.splits)
    with assms(1) P_Loop True show ?thesis
      by (auto simp: pc_inv_def dest: chan_fifo_send chan_send_frame)
  next
    case False
    with assms(2) P_Loop obtain ch where "chan_close (chn s) = Does ch"
      "s' = s\<lparr>chn := ch, prod_at := P_Exit\<rparr>" by (auto split: go_outcome.splits)
    moreover have "i = 6" using assms(1) P_Loop False by (simp add: pc_inv_def)
    ultimately show ?thesis using assms(1) P_Loop
      by (auto simp: pc_inv_def dest: chan_fifo_close chan_close_frame)
  qed
qed (use assms in \<open>auto simp: pc_inv_def\<close>)

lemma pc_inv_consumer:
  assumes "pc_inv s" "consumer (cons_at s) s = Does s'"
  shows "pc_inv s'"
proof (cases "cons_at s")
  case C_Recv
  then consider ch num where "chan_recv (chn s) = Does (ch, Some num)" "s' = s\<lparr>chn := ch, cons_at := C_Print num\<rparr>"
    | ch where "chan_recv (chn s) = Does (ch, None)" "s' = s\<lparr>cons_at := C_Done\<rparr>"
    using assms(2) by (auto split: go_outcome.splits prod.splits option.splits)
  then show ?thesis
  proof cases
    case 1
    then show ?thesis using assms(1) C_Recv
      by (auto simp: pc_inv_def dest: chan_fifo_recv chan_recv_frame)
  next
    case 2
    then show ?thesis using assms(1) C_Recv
      by (auto simp: pc_inv_def chan_fifo_def chan_recv_def split: list.splits if_splits)
  qed
next
  case (C_Print num)
  then have "s' = s\<lparr>pcout := pcout s @ [Consumed num], cons_at := C_Recv\<rparr>" using assms(2) by simp
  then show ?thesis using assms(1) C_Print by (simp add: pc_inv_def)
next
  case C_Done
  then have "pcmain s = M_Wait" "s' = s\<lparr>cons_at := C_Exit, pcmain := M_Print\<rparr>"
    using assms(2) by (simp_all split: if_splits)
  then show ?thesis using assms(1) C_Done by (auto simp: pc_inv_def)
qed (use assms in simp)

lemma pc_no_panic: "pc_inv s \<Longrightarrow> producer (prod_at s) s \<noteq> Panics"
  by (cases "prod_at s") (auto simp: pc_inv_def chan_panics split: go_outcome.splits)

lemma pc_inv_step: "pc_inv s \<Longrightarrow> pc_step s s' \<Longrightarrow> pc_inv s'"
proof (erule pc_stepE)
  assume "pc_inv s" "pcmain s = M_Print" "s' = s\<lparr>pcout := pcout s @ [Finished_Line], pcmain := M_Exit\<rparr>"
  then show "pc_inv s'" by (auto simp: pc_inv_def)
qed (auto intro: pc_inv_producer pc_inv_consumer dest: pc_no_panic)

lemma pc_inv_reach: "pc_reach s \<Longrightarrow> pc_inv s"
  by (induction rule: pc_reach.induct) (auto intro: pc_inv_start pc_inv_step)

section \<open>Termination\<close>

fun prod_left :: "prod_pc \<Rightarrow> nat" where
  "prod_left (P_Loop i) = 2 * (6 - i) + 1" | "prod_left (P_Print i) = 2 * (6 - i)" | "prod_left P_Exit = 0"

text \<open>\<open>n\<close> is how many numbers the consumer has still to receive.\<close>

fun cons_left :: "nat \<Rightarrow> cons_pc \<Rightarrow> nat" where
  "cons_left n C_Recv = 2 * n + 2" | "cons_left n (C_Print num) = 2 * n + 3"
| "cons_left n C_Done = 1" | "cons_left n C_Exit = 0"

fun main_pc_left :: "pc_main \<Rightarrow> nat" where
  "main_pc_left M_Wait = 2" | "main_pc_left M_Print = 1" | "main_pc_left _ = 0"

definition to_receive :: "pc_sys \<Rightarrow> nat" where
  "to_receive s = 5 - length (consumed (pcout s) @ held (cons_at s))"

definition pc_work :: "pc_sys \<Rightarrow> nat" where
  "pc_work s = prod_left (prod_at s) + cons_left (to_receive s) (cons_at s) + main_pc_left (pcmain s)"

lemma pc_inv_received:
  assumes "pc_inv s"
  shows "length (consumed (pcout s) @ held (cons_at s)) + length (cbuf (chn s)) \<le> 5"
proof -
  have "length ((consumed (pcout s) @ held (cons_at s)) @ cbuf (chn s)) = prod_next (prod_at s) - 1"
    using assms by (simp only: pc_inv_def chan_fifo_def length_upt)
  then show ?thesis using assms by (auto simp: pc_inv_def)
qed

lemma producer_work:
  assumes "pc_inv s" "producer (prod_at s) s = Does s'"
  shows "pc_work s' < pc_work s"
  using assms by (cases "prod_at s") (auto simp: pc_work_def to_receive_def pc_inv_def split: go_outcome.splits if_splits)

lemma consumer_work:
  assumes "pc_inv s" "consumer (cons_at s) s = Does s'"
  shows "pc_work s' < pc_work s"
proof (cases "cons_at s")
  case C_Recv
  then consider ch num where "chan_recv (chn s) = Does (ch, Some num)" "s' = s\<lparr>chn := ch, cons_at := C_Print num\<rparr>"
    | ch where "chan_recv (chn s) = Does (ch, None)" "s' = s\<lparr>cons_at := C_Done\<rparr>"
    using assms(2) by (auto split: go_outcome.splits prod.splits option.splits)
  then show ?thesis
  proof cases
    case 1
    then have "length (cbuf (chn s)) \<noteq> 0" by (auto dest: chan_recv_frame)
    with 1 C_Recv pc_inv_received [OF assms(1)] show ?thesis
      by (cases "cbuf (chn s)") (simp_all add: pc_work_def to_receive_def)
  next
    case 2
    with C_Recv show ?thesis by (simp add: pc_work_def)
  qed
qed (use assms in \<open>auto simp: pc_work_def to_receive_def split: if_splits\<close>)

lemma pc_step_work: "pc_inv s \<Longrightarrow> pc_step s s' \<Longrightarrow> pc_work s' < pc_work s"
proof (erule pc_stepE)
  assume "pcmain s = M_Print" "s' = s\<lparr>pcout := pcout s @ [Finished_Line], pcmain := M_Exit\<rparr>"
  then show "pc_work s' < pc_work s" by (simp add: pc_work_def to_receive_def)
qed (auto intro: producer_work consumer_work dest: pc_no_panic)

lemma pc_progress:
  assumes "pc_inv s" "pcmain s \<noteq> M_Exit"
  shows "\<exists>s'. pc_step s s'"
proof (cases "pcmain s = M_Print")
  case True
  then show ?thesis by (blast intro: pc_step.print)
next
  case False
  then have m: "pcmain s = M_Wait" using assms by (cases "pcmain s") (auto simp: pc_inv_def)
  have "(\<exists>s'. producer (prod_at s) s = Does s') \<or> (\<exists>s'. consumer (cons_at s) s = Does s')"
  proof (cases "cons_at s")
    case C_Recv
    show ?thesis
    proof (cases "chan_recv (chn s)")
      case (Does x)
      then show ?thesis using C_Recv by (cases x; cases "snd x") auto
    next
      case Blocks
      then have b: "\<not> closed (chn s)" "cbuf (chn s) = []" by (simp_all add: chan_blocks)
      then show ?thesis using assms(1)
        by (cases "prod_at s") (auto simp: pc_inv_def chan_send_def chan_close_def)
    qed (simp add: chan_panics)
  qed (use m assms(1) in \<open>auto simp: pc_inv_def\<close>)
  with m show ?thesis using pc_step.prod pc_step.cons by fastforce
qed

interpretation pc: terminating_system pc_step pc_inv pc_work "\<lambda>s. pcmain s = M_Exit"
  by unfold_locales (fact pc_inv_step pc_step_work pc_progress)+

section \<open>Property\<close>

text \<open>C33: producer and consumer over the buffered channel: in every interleaving the consumer prints the
  numbers in the order in which they were produced, with at most three in the channel and one in
  hand between the two; nothing panics, no run goes on for ever or gets stuck, and when \<open>main\<close> returns
  each of the numbers 1 to 5 has been produced and consumed exactly once.\<close>

theorem producer_consumer_correct:
  assumes "pc_reach s"
  shows "prefix (consumed (pcout s)) [1, 2, 3, 4, 5] \<and> prefix (produced (pcout s)) [1, 2, 3, 4, 5] \<and>
    length (produced (pcout s)) \<le> length (consumed (pcout s)) + 4 \<and> pcmain s \<noteq> M_Panic \<and>
    (pcmain s = M_Exit \<longrightarrow> consumed (pcout s) = [1, 2, 3, 4, 5] \<and> produced (pcout s) = [1, 2, 3, 4, 5]) \<and>
    (\<nexists>f. f 0 = s \<and> (\<forall>k. pc_step (f k) (f (Suc k)))) \<and>
    (\<exists>s'. pc_step\<^sup>*\<^sup>* s s' \<and> pcmain s' = M_Exit)"
proof -
  have i: "pc_inv s" by (rule pc_inv_reach [OF assms])
  let ?n = "prod_next (prod_at s)"
  have n: "1 \<le> ?n" "?n \<le> 6" and
    c: "(consumed (pcout s) @ held (cons_at s)) @ cbuf (chn s) = [1..<?n]" "length (cbuf (chn s)) \<le> 3" and
    p: "produced (pcout s) @ pending_print (prod_at s) = [1..<?n]"
    using i by (simp_all add: pc_inv_def chan_fifo_def)
  have five: "[1..<6] = [1, 2, 3, 4, 5 :: nat]" by (simp add: upt_rec)
  have "[1..<?n + (6 - ?n)] = [1..<?n] @ [?n..<?n + (6 - ?n)]" by (rule upt_add_eq_append [OF n(1)])
  then have "[1..<6] = [1..<?n] @ [?n..<6]" by (simp only: le_add_diff_inverse [OF n(2)])
  then have pre: "prefix [1..<?n] [1, 2, 3, 4, 5]" using five by (metis prefixI)
  have "prefix (consumed (pcout s)) [1..<?n]" "prefix (produced (pcout s)) [1..<?n]"
    using c(1) p by (metis append_assoc prefixI)+
  then have pr: "prefix (consumed (pcout s)) [1, 2, 3, 4, 5]" "prefix (produced (pcout s)) [1, 2, 3, 4, 5]"
    using pre prefix_order.order_trans by blast+
  have h: "length (held (cons_at s)) \<le> 1" by (cases "cons_at s") auto
  have "length (consumed (pcout s)) + length (held (cons_at s)) + length (cbuf (chn s)) =
      length (produced (pcout s)) + length (pending_print (prod_at s))"
    using arg_cong [OF c(1), of length] arg_cong [OF p, of length] by (simp del: length_upt)
  with h c(2) have len: "length (produced (pcout s)) \<le> length (consumed (pcout s)) + 4" by linarith
  have fin: "consumed (pcout s) = [1, 2, 3, 4, 5] \<and> produced (pcout s) = [1, 2, 3, 4, 5]" if "pcmain s = M_Exit"
  proof -
    have "prod_at s = P_Exit" "cons_at s = C_Exit" "cbuf (chn s) = []"
      using i that by (auto simp: pc_inv_def)
    then show ?thesis using c(1) p five by simp
  qed
  have np: "pcmain s \<noteq> M_Panic" using i by (simp add: pc_inv_def)
  from pr len fin np pc.no_infinite_run pc.inevitable [OF i] i show ?thesis by blast
qed

theorem producer_consumer_correct_witness:
  "\<exists>s. pc_step\<^sup>*\<^sup>* pc_start s \<and> pcmain s = M_Exit"
  using producer_consumer_correct [OF pc_reach.init] by blast

end
