(* ===== verification/GracefulExit.thy ===== *)
theory GracefulExit
  imports GoChan
begin

text \<open>
  \<open>produce_consume/timeout/main3.go\<close>: a producer and a consumer over a channel of capacity 10 that are
  both told to stop by a context with a timeout. The timeout may fire at any moment. A \<open>select\<close>
  takes any of its ready cases. The two intervals only make the goroutines sleep, so the two modes of
  the program are the same here.
\<close>

section \<open>The program\<close>

text \<open>
  The producer: at the outer \<open>select\<close>, at the inner one, printing, and running its two deferred calls;
  the consumer: at its \<open>select\<close>, printing, draining the queue after the timeout, printing there,
  running its deferred call.
\<close>

datatype gp_pc = GP_Top | GP_Send | GP_Print | GP_Close | GP_WgDone | GP_End
datatype gc_pc = GC_Select | GC_Print nat | GC_Drain | GC_DrainPrint nat | GC_WgDone | GC_End
datatype ge_main = GM_Wait | GM_Exit | GM_Panic

datatype ge_event = Made nat | Got nat nat | Drained nat | AllDone

record ge_sys =
  queue :: "nat chan"
  ctx_done :: bool
  wgc :: nat
  ptime :: nat
  ctime :: nat
  gp :: gp_pc
  gc :: gc_pc
  ge_main :: ge_main
  ge_out :: "ge_event list"

definition ge_start :: ge_sys where
  "ge_start = \<lparr>queue = make_chan 10, ctx_done = False, wgc = 2, ptime = 0, ctime = 0, gp = GP_Top,
     gc = GC_Select, ge_main = GM_Wait, ge_out = []\<rparr>"

text \<open>\<open>produce\<close> and \<open>consume\<close> give the outcomes of the ready cases.\<close>

fun produce :: "gp_pc \<Rightarrow> ge_sys \<Rightarrow> ge_sys go_outcome list" where
  "produce GP_Top s =
     [if ctx_done s then Does (s\<lparr>gp := GP_Close\<rparr>)
      else Does (s\<lparr>ptime := ptime s + 1, gp := GP_Send\<rparr>)]"
| "produce GP_Send s =
     [case chan_send (ptime s) (queue s) of
        Does ch \<Rightarrow> Does (s\<lparr>queue := ch, gp := GP_Print\<rparr>) | Blocks \<Rightarrow> Blocks | Panics \<Rightarrow> Panics] @
     (if ctx_done s then [Does (s\<lparr>gp := GP_Close\<rparr>)] else [])"
| "produce GP_Print s = [Does (s\<lparr>ge_out := ge_out s @ [Made (ptime s)], gp := GP_Top\<rparr>)]"
| "produce GP_Close s =
     [case chan_close (queue s) of
        Does ch \<Rightarrow> Does (s\<lparr>queue := ch, gp := GP_WgDone\<rparr>) | Blocks \<Rightarrow> Blocks | Panics \<Rightarrow> Panics]"
| "produce GP_WgDone s =
     [if wgc s = 0 then Panics else Does (s\<lparr>wgc := wgc s - 1, gp := GP_End\<rparr>)]"
| "produce GP_End s = []"

fun consume :: "gc_pc \<Rightarrow> ge_sys \<Rightarrow> ge_sys go_outcome list" where
  "consume GC_Select s =
     [case chan_recv (queue s) of
        Does (ch, None) \<Rightarrow> Does (s\<lparr>gc := GC_WgDone\<rparr>)
      | Does (ch, Some val) \<Rightarrow> Does (s\<lparr>queue := ch, ctime := ctime s + 1, gc := GC_Print val\<rparr>)
      | Blocks \<Rightarrow> Blocks | Panics \<Rightarrow> Panics] @
     (if ctx_done s then [Does (s\<lparr>gc := GC_Drain\<rparr>)] else [])"
| "consume (GC_Print val) s = [Does (s\<lparr>ge_out := ge_out s @ [Got (ctime s) val], gc := GC_Select\<rparr>)]"
| "consume GC_Drain s =
     [case chan_recv (queue s) of
        Does (ch, None) \<Rightarrow> Does (s\<lparr>gc := GC_WgDone\<rparr>)
      | Does (ch, Some val) \<Rightarrow> Does (s\<lparr>queue := ch, gc := GC_DrainPrint val\<rparr>)
      | Blocks \<Rightarrow> Blocks | Panics \<Rightarrow> Panics]"
| "consume (GC_DrainPrint val) s = [Does (s\<lparr>ge_out := ge_out s @ [Drained val], gc := GC_Drain\<rparr>)]"
| "consume GC_WgDone s = [if wgc s = 0 then Panics else Does (s\<lparr>wgc := wgc s - 1, gc := GC_End\<rparr>)]"
| "consume GC_End s = []"

inductive ge_step :: "ge_sys \<Rightarrow> ge_sys \<Rightarrow> bool" where
  timeout: "ge_main s = GM_Wait \<Longrightarrow> \<not> ctx_done s \<Longrightarrow> ge_step s (s\<lparr>ctx_done := True\<rparr>)"
| prod: "ge_main s = GM_Wait \<Longrightarrow> Does s' \<in> set (produce (gp s) s) \<Longrightarrow> ge_step s s'"
| cons: "ge_main s = GM_Wait \<Longrightarrow> Does s' \<in> set (consume (gc s) s) \<Longrightarrow> ge_step s s'"
| panic: "ge_main s = GM_Wait \<Longrightarrow> Panics \<in> set (produce (gp s) s @ consume (gc s) s) \<Longrightarrow>
     ge_step s (s\<lparr>ge_main := GM_Panic\<rparr>)"
| exit: "ge_main s = GM_Wait \<Longrightarrow> wgc s = 0 \<Longrightarrow>
     ge_step s (s\<lparr>ge_main := GM_Exit, ge_out := ge_out s @ [AllDone]\<rparr>)"

inductive_cases ge_stepE [step_elims]: "ge_step s s'"

inductive ge_reach :: "ge_sys \<Rightarrow> bool" where
  init: "ge_reach ge_start"
| step: "ge_reach s \<Longrightarrow> ge_step s s' \<Longrightarrow> ge_reach s'"

section \<open>The invariant\<close>

text \<open>The values made and consumed (before or after the timeout), as printed.\<close>

fun made :: "ge_event list \<Rightarrow> nat list" where
  "made [] = []"
| "made (Made n # es) = n # made es"
| "made (_ # es) = made es"

fun eaten :: "ge_event list \<Rightarrow> nat list" where
  "eaten [] = []"
| "eaten (Got n v # es) = v # eaten es"
| "eaten (Drained v # es) = v # eaten es"
| "eaten (_ # es) = eaten es"

lemma made_append [simp]: "made (xs @ ys) = made xs @ made ys"
  by (induction xs rule: made.induct) auto

lemma eaten_append [simp]: "eaten (xs @ ys) = eaten xs @ eaten ys"
  by (induction xs rule: eaten.induct) auto

fun in_hand :: "gc_pc \<Rightarrow> nat list" where
  "in_hand (GC_Print v) = [v]" | "in_hand (GC_DrainPrint v) = [v]" | "in_hand _ = []"

text \<open>How many values have been sent: \<open>ptime\<close>, less the one that is about to be sent or was given up.\<close>

definition sent_upto :: "ge_sys \<Rightarrow> nat list" where
  "sent_upto s = made (ge_out s) @ (if gp s = GP_Print then [ptime s] else [])"

definition eating :: "gc_pc \<Rightarrow> bool" where
  "eating p \<longleftrightarrow> p = GC_Select \<or> (\<exists>v. p = GC_Print v)"

definition nums :: "nat \<Rightarrow> nat list" where
  "nums n = [1..<Suc n]"

lemma nums_0 [simp]: "nums 0 = []"
  by (simp add: nums_def)

lemma length_nums [simp]: "length (nums n) = n"
  by (simp add: nums_def del: upt_Suc)

lemma nth_nums [simp]: "i < n \<Longrightarrow> nums n ! i = Suc i"
  by (simp add: nums_def del: upt_Suc)

lemma nums_Suc: "nums n @ [Suc n] = nums (Suc n)"
  by (simp add: nums_def)

definition ge_inv :: "ge_sys \<Rightarrow> nat \<Rightarrow> bool" where
  "ge_inv s n \<longleftrightarrow>
     sent_upto s = nums n \<and> (gp s = GP_Send \<longrightarrow> ptime s = Suc n) \<and>
     (gp s \<in> {GP_Top, GP_Print} \<longrightarrow> ptime s = n) \<and>
     chan_fifo (queue s) (eaten (ge_out s) @ in_hand (gc s)) (nums n) \<and> ccap (queue s) = 10 \<and>
     (closed (queue s) \<longleftrightarrow> gp s \<in> {GP_WgDone, GP_End}) \<and>
     (gp s \<in> {GP_Close, GP_WgDone, GP_End} \<longrightarrow> ctx_done s) \<and> (\<not> eating (gc s) \<longrightarrow> ctx_done s) \<and>
     (gc s \<in> {GC_WgDone, GC_End} \<longrightarrow> closed (queue s) \<and> cbuf (queue s) = []) \<and>
     wgc s = (if gp s = GP_End then 0 else 1) + (if gc s = GC_End then 0 else 1) \<and>
     (eating (gc s) \<longrightarrow> ctime s = length (eaten (ge_out s) @ in_hand (gc s))) \<and>
     list_all (\<lambda>e. case e of Got k v \<Rightarrow> k = v | _ \<Rightarrow> True) (ge_out s) \<and>
     (\<forall>v. gc s = GC_Print v \<longrightarrow> v = ctime s) \<and>
     ge_main s \<noteq> GM_Panic \<and> (ge_main s = GM_Exit \<longrightarrow> wgc s = 0)"

lemma ge_inv_start: "ge_inv ge_start 0"
  by (simp add: ge_inv_def ge_start_def sent_upto_def chan_fifo_def make_chan_def eating_def)

lemma ge_inv_produce:
  assumes "ge_inv s n" "Does s' \<in> set (produce (gp s) s)"
  shows "\<exists>n'. ge_inv s' n'"
proof (cases "gp s")
  case GP_Top
  show ?thesis
    by (rule exI [of _ n]) (use assms GP_Top in \<open>auto simp: ge_inv_def sent_upto_def split: if_splits\<close>)
next
  case GP_Send
  with assms(2) consider ch where "chan_send (ptime s) (queue s) = Does ch" "s' = s\<lparr>queue := ch, gp := GP_Print\<rparr>"
    | "ctx_done s" "s' = s\<lparr>gp := GP_Close\<rparr>"
    by (auto split: go_outcome.splits if_splits)
  then show ?thesis
  proof cases
    case 1
    have "chan_fifo ch (eaten (ge_out s) @ in_hand (gc s)) (nums n @ [Suc n])"
      using chan_fifo_send [OF _ 1(1)] assms(1) GP_Send by (simp add: ge_inv_def)
    moreover have "made (ge_out s) @ [Suc n] = nums (Suc n)"
      using assms(1) GP_Send by (simp add: ge_inv_def sent_upto_def nums_Suc)
    ultimately show ?thesis
      using 1 assms(1) GP_Send chan_send_frame [OF 1(1)]
      by (intro exI [of _ "Suc n"]) (auto simp: ge_inv_def sent_upto_def nums_Suc)
  next
    case 2
    then show ?thesis using assms(1) GP_Send by (intro exI [of _ n]) (auto simp: ge_inv_def sent_upto_def)
  qed
next
  case GP_Print
  then show ?thesis using assms by (intro exI [of _ n]) (auto simp: ge_inv_def sent_upto_def)
next
  case GP_Close
  with assms(2) obtain ch where ch: "chan_close (queue s) = Does ch" "s' = s\<lparr>queue := ch, gp := GP_WgDone\<rparr>"
    by (auto split: go_outcome.splits)
  then show ?thesis using assms(1) GP_Close chan_close_frame [OF ch(1)] chan_fifo_close [OF _ ch(1)]
    by (intro exI [of _ n]) (auto simp: ge_inv_def sent_upto_def)
next
  case GP_WgDone
  then show ?thesis using assms by (intro exI [of _ n]) (auto simp: ge_inv_def sent_upto_def split: if_splits)
qed (use assms(2) in simp)

text \<open>The next value to come out of the queue is the number of values taken so far, plus one.\<close>

lemma ge_next_value:
  assumes "ge_inv s n" "chan_recv (queue s) = Does (ch, Some v)" "in_hand (gc s) = []"
  shows "v = Suc (length (eaten (ge_out s)))" "chan_fifo ch (eaten (ge_out s) @ [v]) (nums n)"
proof -
  show f: "chan_fifo ch (eaten (ge_out s) @ [v]) (nums n)"
    using chan_fifo_recv [OF _ assms(2)] assms(1,3) by (simp add: ge_inv_def)
  then have eq: "(eaten (ge_out s) @ [v]) @ cbuf ch = nums n" by (simp add: chan_fifo_def)
  have "length (eaten (ge_out s)) < length ((eaten (ge_out s) @ [v]) @ cbuf ch)" by simp
  then have "length (eaten (ge_out s)) < n" unfolding eq by simp
  moreover have "nums n ! length (eaten (ge_out s)) = v" by (simp add: eq [symmetric] nth_append)
  ultimately show "v = Suc (length (eaten (ge_out s)))" by simp
qed

lemma ge_inv_consume:
  assumes "ge_inv s n" "Does s' \<in> set (consume (gc s) s)"
  shows "ge_inv s' n"
proof (cases "gc s")
  case GC_Select
  with assms(2) consider ch v where "chan_recv (queue s) = Does (ch, Some v)"
      "s' = s\<lparr>queue := ch, ctime := ctime s + 1, gc := GC_Print v\<rparr>"
    | ch where "chan_recv (queue s) = Does (ch, None)" "s' = s\<lparr>gc := GC_WgDone\<rparr>"
    | "ctx_done s" "s' = s\<lparr>gc := GC_Drain\<rparr>"
    by (auto split: go_outcome.splits if_splits prod.splits option.splits)
  then show ?thesis
  proof cases
    case 1
    have v: "v = Suc (length (eaten (ge_out s)))" "chan_fifo ch (eaten (ge_out s) @ [v]) (nums n)"
      using ge_next_value [OF assms(1) 1(1)] GC_Select by simp_all
    from chan_recv_frame [OF 1(1)] have "closed ch = closed (queue s)" "ccap ch = ccap (queue s)" by simp_all
    then show ?thesis using assms(1) GC_Select v unfolding 1(2)
      by (cases "gp s"; clarsimp simp: ge_inv_def sent_upto_def eating_def)
  next
    case 2
    then have "closed (queue s) \<and> cbuf (queue s) = []" by (auto simp: chan_recv_def split: list.splits if_splits)
    then show ?thesis using 2 assms(1) GC_Select by (cases "gp s"; clarsimp simp: ge_inv_def sent_upto_def eating_def)
  next
    case 3
    then show ?thesis using assms(1) GC_Select by (cases "gp s"; clarsimp simp: ge_inv_def sent_upto_def eating_def)
  qed
next
  case (GC_Print v)
  then show ?thesis using assms by (cases "gp s"; clarsimp simp: ge_inv_def sent_upto_def eating_def)
next
  case GC_Drain
  with assms(2) consider ch v where "chan_recv (queue s) = Does (ch, Some v)"
      "s' = s\<lparr>queue := ch, gc := GC_DrainPrint v\<rparr>"
    | ch where "chan_recv (queue s) = Does (ch, None)" "s' = s\<lparr>gc := GC_WgDone\<rparr>"
    by (auto split: go_outcome.splits if_splits prod.splits option.splits)
  then show ?thesis
  proof cases
    case 1
    have v: "chan_fifo ch (eaten (ge_out s) @ [v]) (nums n)"
      using ge_next_value(2) [OF assms(1) 1(1)] GC_Drain by simp
    from chan_recv_frame [OF 1(1)] have "closed ch = closed (queue s)" "ccap ch = ccap (queue s)" by simp_all
    then show ?thesis using assms(1) GC_Drain v unfolding 1(2)
      by (cases "gp s"; clarsimp simp: ge_inv_def sent_upto_def eating_def)
  next
    case 2
    then have "closed (queue s) \<and> cbuf (queue s) = []" by (auto simp: chan_recv_def split: list.splits if_splits)
    then show ?thesis using 2 assms(1) GC_Drain by (cases "gp s"; clarsimp simp: ge_inv_def sent_upto_def eating_def)
  qed
next
  case (GC_DrainPrint v)
  then show ?thesis using assms by (cases "gp s"; clarsimp simp: ge_inv_def sent_upto_def eating_def)
next
  case GC_WgDone
  then show ?thesis using assms by (cases "gp s"; clarsimp simp: ge_inv_def sent_upto_def eating_def split: if_splits)
qed (use assms(2) in simp)

lemma ge_no_panic:
  assumes "ge_inv s n"
  shows "Panics \<notin> set (produce (gp s) s)" "Panics \<notin> set (consume (gc s) s)"
  using assms
  by (cases "gp s"; auto simp: ge_inv_def chan_panics split: go_outcome.splits if_splits)
    (cases "gc s"; insert assms; auto simp: ge_inv_def chan_panics split: go_outcome.splits if_splits prod.splits option.splits)

definition ge_ok :: "ge_sys \<Rightarrow> bool" where
  "ge_ok s \<longleftrightarrow> (\<exists>n. ge_inv s n)"

lemma ge_ok_step: "ge_ok s \<Longrightarrow> ge_step s s' \<Longrightarrow> ge_ok s'"
proof -
  assume "ge_ok s" and st: "ge_step s s'"
  then obtain n where i: "ge_inv s n" by (auto simp: ge_ok_def)
  from st show "ge_ok s'"
  proof (cases rule: ge_step.cases)
    case timeout
    then have "ge_inv s' n" using i by (auto simp: ge_inv_def sent_upto_def)
    then show ?thesis by (auto simp: ge_ok_def)
  next
    case prod
    then show ?thesis using ge_inv_produce [OF i] by (simp add: ge_ok_def)
  next
    case cons
    then show ?thesis using ge_inv_consume [OF i] by (auto simp: ge_ok_def)
  next
    case panic
    then show ?thesis using ge_no_panic [OF i] by simp
  next
    case exit
    then have "gp s = GP_End" "gc s = GC_End" using i by (auto simp: ge_inv_def split: if_splits)
    then have "ge_inv s' n" using i exit by (clarsimp simp: ge_inv_def sent_upto_def)
    then show ?thesis by (auto simp: ge_ok_def)
  qed
qed

lemma ge_ok_start: "ge_ok ge_start"
  unfolding ge_ok_def by (rule exI) (rule ge_inv_start)

lemma ge_ok_reach: "ge_reach s \<Longrightarrow> ge_ok s"
  by (induction rule: ge_reach.induct) (rule ge_ok_start, rule ge_ok_step)

section \<open>After the timeout\<close>

fun gp_left :: "gp_pc \<Rightarrow> nat" where
  "gp_left GP_Send = 7" | "gp_left GP_Print = 4" | "gp_left GP_Top = 3" | "gp_left GP_Close = 2"
| "gp_left GP_WgDone = 1" | "gp_left GP_End = 0"

fun gc_left :: "gc_pc \<Rightarrow> nat" where
  "gc_left (GC_Print v) = 5" | "gc_left GC_Select = 4" | "gc_left (GC_DrainPrint v) = 3"
| "gc_left GC_Drain = 2" | "gc_left GC_WgDone = 1" | "gc_left GC_End = 0"

definition ge_work :: "ge_sys \<Rightarrow> nat" where
  "ge_work s = gp_left (gp s) + gc_left (gc s) + 2 * length (cbuf (queue s)) + (if ge_main s = GM_Wait then 1 else 0)"

lemma produce_work: "ctx_done s \<Longrightarrow> Does s' \<in> set (produce (gp s) s) \<Longrightarrow> ge_work s' < ge_work s"
  by (cases "gp s")
    (auto simp: ge_work_def split: go_outcome.splits if_splits dest: chan_send_frame chan_close_frame)

lemma consume_work: "Does s' \<in> set (consume (gc s) s) \<Longrightarrow> ge_work s' < ge_work s"
  by (cases "gc s")
    (auto simp: ge_work_def split: go_outcome.splits if_splits prod.splits option.splits dest: chan_recv_frame)

lemma ge_step_work: "ctx_done s \<Longrightarrow> ge_step s s' \<Longrightarrow> ge_work s' < ge_work s"
proof (erule ge_stepE)
  assume "ge_main s = GM_Wait" "s' = s\<lparr>ge_main := GM_Exit, ge_out := ge_out s @ [AllDone]\<rparr>"
  then show "ge_work s' < ge_work s" by (simp add: ge_work_def)
next
  assume "ge_main s = GM_Wait" "s' = s\<lparr>ge_main := GM_Panic\<rparr>"
  then show "ge_work s' < ge_work s" by (simp add: ge_work_def)
qed (auto intro: produce_work consume_work)

lemma produce_ctx: "Does s' \<in> set (produce (gp s) s) \<Longrightarrow> ctx_done s' = ctx_done s"
  by (cases "gp s") (auto split: go_outcome.splits if_splits)

lemma consume_ctx: "Does s' \<in> set (consume (gc s) s) \<Longrightarrow> ctx_done s' = ctx_done s"
  by (cases "gc s") (auto split: go_outcome.splits if_splits prod.splits option.splits)

lemma ge_step_ctx: "ge_step s s' \<Longrightarrow> ctx_done s \<Longrightarrow> ctx_done s'"
  by (erule ge_stepE) (auto simp: produce_ctx consume_ctx)

lemma ge_progress:
  assumes "ge_ok s" "ctx_done s" "ge_main s \<noteq> GM_Exit"
  shows "\<exists>s'. ge_step s s'"
proof -
  obtain n where i: "ge_inv s n" using assms(1) by (auto simp: ge_ok_def)
  have m: "ge_main s = GM_Wait" using i assms(3) by (cases "ge_main s") (auto simp: ge_inv_def)
  consider "wgc s = 0" | "gp s \<noteq> GP_End" "wgc s \<noteq> 0" | "gp s = GP_End" "gc s \<noteq> GC_End" "wgc s \<noteq> 0"
    using i by (cases "gc s = GC_End"; cases "gp s = GP_End") (auto simp: ge_inv_def)
  then show ?thesis
  proof cases
    case 1
    then show ?thesis using ge_step.exit [OF m] by blast
  next
    case 2
    then have "\<exists>s'. Does s' \<in> set (produce (gp s) s)"
      using i assms(2) by (cases "gp s") (auto simp: chan_close_def ge_inv_def)
    then show ?thesis using ge_step.prod [OF m] by blast
  next
    case 3
    then have "closed (queue s)" using i by (simp add: ge_inv_def)
    then have "\<exists>s'. Does s' \<in> set (consume (gc s) s)"
      using 3 assms(2) by (cases "gc s") (auto simp: chan_recv_def split: list.split)
    then show ?thesis using ge_step.cons [OF m] by blast
  qed
qed

interpretation ge: terminating_system ge_step "\<lambda>s. ge_ok s \<and> ctx_done s" ge_work "\<lambda>s. ge_main s = GM_Exit"
proof
  fix s s' assume i: "ge_ok s \<and> ctx_done s" and st: "ge_step s s'"
  show "ge_ok s' \<and> ctx_done s'" using ge_ok_step [OF conjunct1 [OF i] st] ge_step_ctx [OF st] i by simp
  show "ge_work s' < ge_work s" using ge_step_work [OF _ st] i by simp
next
  fix s assume "ge_ok s \<and> ctx_done s" "ge_main s \<noteq> GM_Exit"
  then show "\<exists>s'. ge_step s s'" by (intro ge_progress) simp_all
qed

lemma ge_exit_reachable:
  assumes "ge_ok s"
  shows "\<exists>s'. ge_step\<^sup>*\<^sup>* s s' \<and> ge_main s' = GM_Exit"
proof (cases "ctx_done s")
  case True
  then show ?thesis using ge.inevitable [of s] assms by blast
next
  case False
  have "ge_main s = GM_Wait"
    using assms False by (cases "ge_main s") (auto simp: ge_ok_def ge_inv_def split: if_splits)
  then have st: "ge_step s (s\<lparr>ctx_done := True\<rparr>)" using ge_step.timeout False by blast
  have "ge_ok (s\<lparr>ctx_done := True\<rparr>) \<and> ctx_done (s\<lparr>ctx_done := True\<rparr>)" using ge_ok_step [OF assms st] by simp
  from ge.inevitable [OF this] st show ?thesis by (meson converse_rtranclp_into_rtranclp)
qed

section \<open>Property\<close>

text \<open>C21: the graceful exit: whenever the timeout fires, in every interleaving and for every choice a
  \<open>select\<close> can make, the consumer takes the values in the order in which they were sent, numbers them
  correctly, nothing panics, and when the program ends every value that was sent has been printed by
  both sides. After the timeout no run goes on for ever, and the end can always be reached.\<close>

theorem graceful_exit_drains:
  assumes "ge_reach s"
  shows "\<exists>n. sent_upto s = [1..<Suc n] \<and> prefix (eaten (ge_out s)) [1..<Suc n] \<and>
    length (cbuf (queue s)) \<le> 10 \<and> ge_main s \<noteq> GM_Panic \<and>
    list_all (\<lambda>e. case e of Got k v \<Rightarrow> k = v | _ \<Rightarrow> True) (ge_out s) \<and>
    (ge_main s = GM_Exit \<longrightarrow> made (ge_out s) = [1..<Suc n] \<and> eaten (ge_out s) = [1..<Suc n]) \<and>
    (ctx_done s \<longrightarrow> (\<nexists>f. f 0 = s \<and> (\<forall>k. ge_step (f k) (f (Suc k))))) \<and>
    (\<exists>s'. ge_step\<^sup>*\<^sup>* s s' \<and> ge_main s' = GM_Exit)"
proof -
  have ok: "ge_ok s" by (rule ge_ok_reach [OF assms])
  then obtain n where i: "ge_inv s n" by (auto simp: ge_ok_def)
  have f: "(eaten (ge_out s) @ in_hand (gc s)) @ cbuf (queue s) = nums n" "length (cbuf (queue s)) \<le> 10"
    using i by (simp_all add: ge_inv_def chan_fifo_def)
  have "prefix (eaten (ge_out s)) (nums n)" using f(1) by (metis append_assoc prefixI)
  moreover have "made (ge_out s) = nums n \<and> eaten (ge_out s) = nums n" if "ge_main s = GM_Exit"
  proof -
    have "(if gp s = GP_End then 0 else 1) + (if gc s = GC_End then 0 else 1 :: nat) = 0"
      using i that by (simp add: ge_inv_def)
    then have "gp s = GP_End" "gc s = GC_End" by (simp_all split: if_splits)
    then show ?thesis using i f(1) by (simp add: ge_inv_def sent_upto_def)
  qed
  moreover have "sent_upto s = nums n" "ge_main s \<noteq> GM_Panic"
      "list_all (\<lambda>e. case e of Got k v \<Rightarrow> k = v | _ \<Rightarrow> True) (ge_out s)"
    using i by (simp_all add: ge_inv_def)
  moreover have "\<nexists>f. f 0 = s \<and> (\<forall>k. ge_step (f k) (f (Suc k)))" if "ctx_done s"
    using ge.no_infinite_run ok that by blast
  ultimately show ?thesis using ge_exit_reachable [OF ok] f(2) unfolding nums_def by blast
qed

theorem graceful_exit_drains_witness:
  "\<exists>s. ge_step\<^sup>*\<^sup>* ge_start s \<and> ge_main s = GM_Exit"
  using graceful_exit_drains [OF ge_reach.init] by blast

end
