(* ===== verification/Timeouts.thy ===== *)
theory Timeouts
  imports GoChan
begin

text \<open>
  The exercises \<open>produce_consume/timeout/main1.go\<close> and \<open>main2.go\<close>, whose behaviour is their timing. Time
  is a number of seconds; statements take none: the clock moves on only when no goroutine can run, and
  what happens in the same second happens in any order. A \<open>Ticker\<close> holds at most one tick.
\<close>

section \<open>A consumer that is told to stop\<close>

datatype t1_main = T_Send nat | T_Sleep nat | T_Last nat | T_Close | T_Exit
datatype t1_cons = K_Start | K_Range | K_Select | K_Take | K_Return
datatype t1_event = Received nat | Interrupted | Main_Exit

record t1_sys =
  now :: nat
  messages :: "nat chan"
  done_closed :: bool
  tick :: bool
  t1main :: t1_main
  t1cons :: t1_cons
  t1out :: "t1_event list"

definition t1_start :: t1_sys where
  "t1_start = \<lparr>now = 0, messages = make_chan 10, done_closed = False, tick = False, t1main = T_Send 0,
     t1cons = K_Start, t1out = []\<rparr>"

text \<open>\<open>main\<close>: ten sends, a sleep of 5 seconds, \<open>close(done)\<close>, a sleep of one second, the last line, and
  the deferred \<open>close(messages)\<close>.\<close>

fun t1_main_step :: "t1_main \<Rightarrow> t1_sys \<Rightarrow> t1_sys go_outcome" where
  "t1_main_step (T_Send i) s =
     (if i < 10
      then (case chan_send i (messages s) of
              Does ch \<Rightarrow> Does (s\<lparr>messages := ch, t1main := T_Send (Suc i)\<rparr>)
            | Blocks \<Rightarrow> Blocks | Panics \<Rightarrow> Panics)
      else Does (s\<lparr>t1main := T_Sleep (now s + 5)\<rparr>))"
| "t1_main_step (T_Sleep w) s =
     (if w \<le> now s then Does (s\<lparr>done_closed := True, t1main := T_Last (now s + 1)\<rparr>) else Blocks)"
| "t1_main_step (T_Last w) s =
     (if w \<le> now s then Does (s\<lparr>t1out := t1out s @ [Main_Exit], t1main := T_Close\<rparr>) else Blocks)"
| "t1_main_step T_Close s =
     (case chan_close (messages s) of
        Does ch \<Rightarrow> Does (s\<lparr>messages := ch, t1main := T_Exit\<rparr>)
      | Blocks \<Rightarrow> Blocks | Panics \<Rightarrow> Panics)"
| "t1_main_step T_Exit s = Blocks"

text \<open>The consumer: wait for a tick; return if \<open>done\<close> is closed, otherwise take a message, which blocks
  when there is none and gives 0 when the channel is closed.\<close>

fun t1_cons_step :: "t1_cons \<Rightarrow> t1_sys \<Rightarrow> t1_sys go_outcome" where
  "t1_cons_step K_Start s = Does (s\<lparr>t1cons := K_Range\<rparr>)"
| "t1_cons_step K_Range s = (if tick s then Does (s\<lparr>tick := False, t1cons := K_Select\<rparr>) else Blocks)"
| "t1_cons_step K_Select s =
     (if done_closed s then Does (s\<lparr>t1out := t1out s @ [Interrupted], t1cons := K_Return\<rparr>)
      else Does (s\<lparr>t1cons := K_Take\<rparr>))"
| "t1_cons_step K_Take s =
     (case chan_recv (messages s) of
        Does (ch, x) \<Rightarrow>
          Does (s\<lparr>messages := ch, t1out := t1out s @ [Received (case x of None \<Rightarrow> 0 | Some i \<Rightarrow> i)], t1cons := K_Range\<rparr>)
      | Blocks \<Rightarrow> Blocks | Panics \<Rightarrow> Panics)"
| "t1_cons_step K_Return s = Blocks"

text \<open>The ticker is created by the consumer at the beginning, so it ticks with every second.\<close>

inductive t1_step :: "t1_sys \<Rightarrow> t1_sys \<Rightarrow> bool" where
  main: "t1main s \<noteq> T_Exit \<Longrightarrow> t1_main_step (t1main s) s = Does s' \<Longrightarrow> t1_step s s'"
| cons: "t1main s \<noteq> T_Exit \<Longrightarrow> t1_cons_step (t1cons s) s = Does s' \<Longrightarrow> t1_step s s'"
| time: "t1main s \<noteq> T_Exit \<Longrightarrow> t1_main_step (t1main s) s = Blocks \<Longrightarrow> t1_cons_step (t1cons s) s = Blocks \<Longrightarrow>
    t1_step s (s\<lparr>now := Suc (now s), tick := True\<rparr>)"

inductive_cases t1_stepE: "t1_step s s'"

text \<open>What has been received is \<open>0..r-1\<close>; every second brought one tick, which is pending, being
  served, or has led to a message or to the end of the consumer.\<close>

fun cons_busy :: "t1_cons \<Rightarrow> nat" where
  "cons_busy K_Select = 1"
| "cons_busy K_Take = 1"
| "cons_busy K_Return = 1"
| "cons_busy _ = 0"

definition end_events :: "t1_event list \<Rightarrow> bool \<Rightarrow> bool \<Rightarrow> bool" where
  "end_events ev i m \<longleftrightarrow> distinct ev \<and> set ev = (if i then {Interrupted} else {}) \<union> (if m then {Main_Exit} else {})"

fun t1_main_ok :: "t1_main \<Rightarrow> nat \<Rightarrow> nat \<Rightarrow> t1_sys \<Rightarrow> bool" where
  "t1_main_ok (T_Send i) t r s \<longleftrightarrow> i \<le> 10 \<and> t = 0 \<and> \<not> done_closed s \<and> cbuf (messages s) = [0..<i]"
| "t1_main_ok (T_Sleep w) t r s \<longleftrightarrow> w = 5 \<and> t \<le> 5 \<and> \<not> done_closed s \<and> cbuf (messages s) = [r..<10]"
| "t1_main_ok (T_Last w) t r s \<longleftrightarrow> w = 6 \<and> (t = 5 \<or> t = 6) \<and> done_closed s \<and> cbuf (messages s) = [r..<10]"
| "t1_main_ok T_Close t r s \<longleftrightarrow> t = 6 \<and> done_closed s \<and> cbuf (messages s) = [r..<10]"
| "t1_main_ok T_Exit t r s \<longleftrightarrow> t = 6 \<and> done_closed s"

definition t1_inv :: "nat \<Rightarrow> t1_event list \<Rightarrow> t1_sys \<Rightarrow> bool" where
  "t1_inv r ev s \<longleftrightarrow> t1_main_ok (t1main s) (now s) r s \<and> ccap (messages s) = 10 \<and>
     (closed (messages s) \<longleftrightarrow> t1main s = T_Exit) \<and> t1out s = map Received [0..<r] @ ev \<and> r \<le> 5 \<and>
     (t1cons s = K_Take \<longrightarrow> now s \<le> 5) \<and> (t1cons s = K_Start \<longrightarrow> now s = 0) \<and>
     (tick s \<longrightarrow> t1cons s = K_Range \<or> t1cons s = K_Return) \<and>
     (t1cons s \<noteq> K_Return \<longrightarrow> r + cons_busy (t1cons s) + (if tick s then 1 else 0) = now s) \<and>
     (t1cons s = K_Return \<longrightarrow> done_closed s \<and> 4 \<le> r) \<and>
     end_events ev (t1cons s = K_Return) (t1main s = T_Close \<or> t1main s = T_Exit) \<and>
     (r = 4 \<longrightarrow> t1cons s = K_Return \<longrightarrow> hd ev = Interrupted)"

lemma t1_invI:
  assumes "t1_main_ok (t1main s) (now s) r s" "ccap (messages s) = 10" "closed (messages s) \<longleftrightarrow> t1main s = T_Exit"
    and "t1out s = map Received [0..<r] @ ev" "r \<le> 5" "t1cons s = K_Take \<Longrightarrow> now s \<le> 5" "t1cons s = K_Start \<Longrightarrow> now s = 0"
    and "tick s \<Longrightarrow> t1cons s = K_Range \<or> t1cons s = K_Return"
    and "t1cons s \<noteq> K_Return \<Longrightarrow> r + cons_busy (t1cons s) + (if tick s then 1 else 0) = now s"
    and "t1cons s = K_Return \<Longrightarrow> done_closed s \<and> 4 \<le> r"
    and "end_events ev (t1cons s = K_Return) (t1main s = T_Close \<or> t1main s = T_Exit)"
    and "r = 4 \<Longrightarrow> t1cons s = K_Return \<Longrightarrow> hd ev = Interrupted"
  shows "t1_inv r ev s"
  using assms by (simp add: t1_inv_def)

lemma t1_invD:
  assumes "t1_inv r ev s"
  shows "t1_main_ok (t1main s) (now s) r s" "ccap (messages s) = 10" "closed (messages s) \<longleftrightarrow> t1main s = T_Exit"
    and "t1out s = map Received [0..<r] @ ev" "r \<le> 5" "t1cons s = K_Take \<Longrightarrow> now s \<le> 5" "t1cons s = K_Start \<Longrightarrow> now s = 0"
    and "tick s \<Longrightarrow> t1cons s = K_Range \<or> t1cons s = K_Return"
    and "t1cons s \<noteq> K_Return \<Longrightarrow> r + cons_busy (t1cons s) + (if tick s then 1 else 0) = now s"
    and "t1cons s = K_Return \<Longrightarrow> done_closed s \<and> 4 \<le> r"
    and "end_events ev (t1cons s = K_Return) (t1main s = T_Close \<or> t1main s = T_Exit)"
    and "r = 4 \<Longrightarrow> t1cons s = K_Return \<Longrightarrow> hd ev = Interrupted"
  using assms by (simp_all add: t1_inv_def)

lemma t1_inv_main:
  assumes inv: "t1_inv r ev s" and st: "t1_main_step (t1main s) s = Does s'"
  shows "\<exists>r ev. t1_inv r ev s'"
proof -
  note I = t1_invD [OF inv]
  show ?thesis
  proof (cases "t1main s")
    case (T_Send i)
    show ?thesis
    proof (cases "i < 10")
      case True
      then have "s' = s\<lparr>messages := (messages s)\<lparr>cbuf := [0..<Suc i]\<rparr>, t1main := T_Send (Suc i)\<rparr>"
        using st T_Send I(1-3) by (simp add: chan_send_def split: if_splits)
      then have "t1_inv r ev s'" using I T_Send True by (intro t1_invI) simp_all
      then show ?thesis by blast
    next
      case False
      then have s': "s' = s\<lparr>t1main := T_Sleep 5\<rparr>" using st T_Send I(1) by simp
      have "t1cons s \<noteq> K_Return" using I(1,10) T_Send by auto
      then have "r = 0" using I(9) I(1) T_Send by simp
      then have "t1_inv r ev s'" using I T_Send False s' by (intro t1_invI) simp_all
      then show ?thesis by blast
    qed
  next
    case (T_Sleep w)
    then have s': "s' = s\<lparr>done_closed := True, t1main := T_Last 6\<rparr>" and n: "now s = 5"
      using st I(1) by (auto split: if_splits)
    then have "t1_inv r ev s'" using I T_Sleep by (intro t1_invI) simp_all
    then show ?thesis by blast
  next
    case (T_Last w)
    then have s': "s' = s\<lparr>t1out := t1out s @ [Main_Exit], t1main := T_Close\<rparr>" and n: "now s = 6"
      using st I(1) by (auto split: if_splits)
    have "t1cons s = K_Return \<Longrightarrow> ev \<noteq> []" using I(11) by (auto simp: end_events_def)
    then have "t1_inv r (ev @ [Main_Exit]) s'" using I T_Last s' n
      by (intro t1_invI) (simp_all add: end_events_def)
    then show ?thesis by blast
  next
    case T_Close
    then have s': "s' = s\<lparr>messages := (messages s)\<lparr>closed := True\<rparr>, t1main := T_Exit\<rparr>"
      using st I(3) by (simp add: chan_close_def)
    then have "t1_inv r ev s'" using I T_Close by (intro t1_invI) simp_all
    then show ?thesis by blast
  qed (use st in simp)
qed

lemma t1_buffer: "t1_inv r ev s \<Longrightarrow> t1cons s = K_Take \<Longrightarrow> t1main s \<noteq> T_Exit \<Longrightarrow> cbuf (messages s) = r # [Suc r..<10]"
proof -
  assume inv: "t1_inv r ev s" and k: "t1cons s = K_Take" "t1main s \<noteq> T_Exit"
  note I = t1_invD [OF inv]
  have "0 < now s" using I(9) k by simp
  then have "cbuf (messages s) = [r..<10]" using I(1) k(2) by (cases "t1main s") simp_all
  then show ?thesis using I(5) by (simp add: upt_conv_Cons)
qed

lemma t1_inv_cons:
  assumes inv: "t1_inv r ev s" and st: "t1_cons_step (t1cons s) s = Does s'" and run: "t1main s \<noteq> T_Exit"
  shows "\<exists>r ev. t1_inv r ev s'"
proof -
  note I = t1_invD [OF inv]
  have main: "t1_main_ok m t r' s \<longleftrightarrow> t1_main_ok m t r' t'" if "done_closed t' = done_closed s" "cbuf (messages t') = cbuf (messages s)"
    for m t r' t' using that by (cases m) simp_all
  show ?thesis
  proof (cases "t1cons s")
    case K_Start
    then have "s' = s\<lparr>t1cons := K_Range\<rparr>" using st by simp
    then have "t1_inv r ev s'" using I K_Start main [of s'] by (intro t1_invI) simp_all
    then show ?thesis by blast
  next
    case K_Range
    then have "s' = s\<lparr>tick := False, t1cons := K_Select\<rparr>" "tick s" using st by (auto split: if_splits)
    then have "t1_inv r ev s'" using I K_Range main [of s'] by (intro t1_invI) simp_all
    then show ?thesis by blast
  next
    case K_Select
    show ?thesis
    proof (cases "done_closed s")
      case True
      then have s': "s' = s\<lparr>t1out := t1out s @ [Interrupted], t1cons := K_Return\<rparr>" using st K_Select by simp
      have "5 \<le> now s" using I(1) True by (cases "t1main s") auto
      then have "4 \<le> r" using I(8,9) K_Select by (auto split: if_splits)
      moreover have "ev = []" if "r = 4"
      proof -
        have "now s = 5" using I(8,9) K_Select that by (auto split: if_splits)
        then have "t1main s \<noteq> T_Close \<and> t1main s \<noteq> T_Exit" using I(1) by (cases "t1main s") auto
        then show ?thesis using I(11) K_Select by (simp add: end_events_def)
      qed
      ultimately have "t1_inv r (ev @ [Interrupted]) s'" using I K_Select True main [of s'] s'
        by (intro t1_invI) (simp_all add: end_events_def)
      then show ?thesis by blast
    next
      case False
      then have s': "s' = s\<lparr>t1cons := K_Take\<rparr>" using st K_Select by simp
      have "now s \<le> 5" using I(1) False run by (cases "t1main s") auto
      then have "t1_inv r ev s'" using I K_Select main [of s'] s' by (intro t1_invI) simp_all
      then show ?thesis by blast
    qed
  next
    case K_Take
    note b = t1_buffer [OF inv K_Take run]
    then have s': "s' = s\<lparr>messages := (messages s)\<lparr>cbuf := [Suc r..<10]\<rparr>, t1out := t1out s @ [Received r], t1cons := K_Range\<rparr>"
      using st K_Take by (simp add: chan_recv_def)
    have "\<not> tick s" using I(8) K_Take by auto
    then have n: "now s \<le> 5" "\<not> tick s" "now s = Suc r" using I(6,9) K_Take by simp_all
    have "t1main s \<noteq> T_Close" using I(1) n by auto
    then have "ev = []" using I(11) K_Take run by (simp add: end_events_def)
    moreover have "t1_main_ok (t1main s') (now s') (Suc r) s'" using I(1) n run s'
      by (cases "t1main s") (auto simp: upt_conv_Cons)
    ultimately have "t1_inv (Suc r) [] s'" using I K_Take n s' by (intro t1_invI) simp_all
    then show ?thesis by blast
  qed (use st in simp)
qed

lemma t1_inv_time:
  assumes inv: "t1_inv r ev s" and bl: "t1_main_step (t1main s) s = Blocks" "t1_cons_step (t1cons s) s = Blocks" "t1main s \<noteq> T_Exit"
  shows "t1_inv r ev (s\<lparr>now := Suc (now s), tick := True\<rparr>) \<and> now s < 6"
proof -
  note I = t1_invD [OF inv]
  have c: "t1cons s = K_Range \<and> \<not> tick s \<or> t1cons s = K_Return"
    using bl(2) t1_buffer [OF inv _ bl(3)] by (cases "t1cons s") (auto simp: chan_recv_def split: if_splits)
  have "t1_main_ok (t1main s) (Suc (now s)) r (s\<lparr>now := Suc (now s), tick := True\<rparr>) \<and> now s < 6"
    using bl(1,3) I(1-3) by (cases "t1main s") (auto simp: chan_send_def chan_close_def split: if_splits)
  then show ?thesis using I c by (auto intro!: t1_invI)
qed

fun main_weight :: "t1_main \<Rightarrow> nat" where
  "main_weight (T_Send i) = 14 - i"
| "main_weight (T_Sleep w) = 3"
| "main_weight (T_Last w) = 2"
| "main_weight T_Close = 1"
| "main_weight T_Exit = 0"

fun cons_weight :: "t1_cons \<Rightarrow> nat" where
  "cons_weight K_Start = 1"
| "cons_weight K_Select = 2"
| "cons_weight K_Take = 1"
| "cons_weight _ = 0"

definition t1_work :: "t1_sys \<Rightarrow> nat" where
  "t1_work s = 6 * (7 - now s) + main_weight (t1main s) + cons_weight (t1cons s) + (if tick s then 3 else 0)"

definition t1_ok :: "t1_sys \<Rightarrow> bool" where
  "t1_ok s \<longleftrightarrow> (\<exists>r ev. t1_inv r ev s)"

lemma t1_ok_start: "t1_ok t1_start"
  unfolding t1_ok_def
  by (intro exI [of _ 0] exI [of _ "[]"] t1_invI) (simp_all add: t1_start_def make_chan_def end_events_def)

lemma t1_ok_step:
  assumes "t1_ok s" "t1_step s s'"
  shows "t1_ok s'"
proof -
  obtain r ev where inv: "t1_inv r ev s" using assms(1) by (auto simp: t1_ok_def)
  from assms(2) show ?thesis
  proof (cases rule: t1_step.cases)
    case main
    then show ?thesis using t1_inv_main [OF inv] by (simp add: t1_ok_def)
  next
    case cons
    then show ?thesis using t1_inv_cons [OF inv] by (simp add: t1_ok_def)
  next
    case time
    then show ?thesis using t1_inv_time [OF inv time(3,4,2)] by (auto simp: t1_ok_def)
  qed
qed

lemma t1_work_step:
  assumes "t1_ok s" "t1_step s s'"
  shows "t1_work s' < t1_work s"
proof -
  obtain r ev where inv: "t1_inv r ev s" using assms(1) by (auto simp: t1_ok_def)
  note I = t1_invD [OF inv]
  from assms(2) show ?thesis
  proof (cases rule: t1_step.cases)
    case main
    then show ?thesis using I(1) by (cases "t1main s") (auto simp: t1_work_def split: if_splits go_outcome.splits)
  next
    case cons
    then show ?thesis by (cases "t1cons s") (auto simp: t1_work_def split: if_splits go_outcome.splits prod.splits)
  next
    case time
    then show ?thesis using t1_inv_time [OF inv time(3,4,2)] by (auto simp: t1_work_def)
  qed
qed

lemma t1_progress:
  assumes "t1_ok s" "t1main s \<noteq> T_Exit"
  shows "\<exists>s'. t1_step s s'"
proof -
  obtain r ev where inv: "t1_inv r ev s" using assms(1) by (auto simp: t1_ok_def)
  note I = t1_invD [OF inv]
  have "t1_main_step (t1main s) s \<noteq> Panics" using I(3) assms(2)
    by (cases "t1main s") (auto simp: chan_send_def chan_close_def split: if_splits)
  moreover have "t1_cons_step (t1cons s) s \<noteq> Panics"
    by (cases "t1cons s") (auto simp: chan_recv_def split: if_splits list.splits)
  ultimately show ?thesis using t1_step.main [OF assms(2)] t1_step.cons [OF assms(2)] t1_step.time [OF assms(2)]
    by (cases "t1_main_step (t1main s) s"; cases "t1_cons_step (t1cons s) s") blast+
qed

interpretation t1: terminating_system t1_step t1_ok t1_work "\<lambda>s. t1main s = T_Exit"
  by unfold_locales (use t1_ok_step t1_work_step t1_progress in blast)+

lemma two_events: "distinct ev \<Longrightarrow> set ev = {x, y} \<Longrightarrow> x \<noteq> y \<Longrightarrow> ev = [x, y] \<or> ev = [y, x]"
proof -
  assume d: "distinct ev" "set ev = {x, y}" "x \<noteq> y"
  then have "length ev = 2" using distinct_card [of ev] by simp
  then obtain a b where "ev = [a, b]" by (auto simp: numeral_2_eq_2 length_Suc_conv)
  with d show ?thesis by auto
qed

text \<open>The outcomes: stopped after four messages, or after five, then in time to say so or not.\<close>

definition t1_outcomes :: "t1_event list set" where
  "t1_outcomes =
     {[Received 0, Received 1, Received 2, Received 3, Interrupted, Main_Exit],
      [Received 0, Received 1, Received 2, Received 3, Received 4, Interrupted, Main_Exit],
      [Received 0, Received 1, Received 2, Received 3, Received 4, Main_Exit, Interrupted],
      [Received 0, Received 1, Received 2, Received 3, Received 4, Main_Exit]}"

lemma received_first: "map Received [0..<4] = [Received 0, Received 1, Received 2, Received 3]"
  "map Received [0..<5] = [Received 0, Received 1, Received 2, Received 3, Received 4]"
  by (simp_all add: upt_conv_Cons)

lemma t1_result:
  assumes "t1_ok s" "t1main s = T_Exit"
  shows "t1out s \<in> t1_outcomes"
proof -
  obtain r ev where inv: "t1_inv r ev s" using assms(1) by (auto simp: t1_ok_def)
  note I = t1_invD [OF inv]
  show ?thesis
  proof (cases "t1cons s = K_Return")
    case True
    then have "set ev = {Interrupted, Main_Exit}" "distinct ev" using I(11) assms(2) by (auto simp: end_events_def)
    then have "ev = [Interrupted, Main_Exit] \<or> ev = [Main_Exit, Interrupted]"
      using two_events [of ev Interrupted Main_Exit] by auto
    moreover have "r = 4 \<or> r = 5" using I(5,10) True by auto
    ultimately show ?thesis using I(4,12) True received_first by (auto simp: t1_outcomes_def)
  next
    case False
    then have e: "set ev = {Main_Exit}" "distinct ev" using I(11) assms(2) by (auto simp: end_events_def)
    then have "length ev = 1" using distinct_card [of ev] by simp
    then obtain a where "ev = [a]" by (auto simp: length_Suc_conv)
    with e have ev: "ev = [Main_Exit]" by simp
    have "cons_busy (t1cons s) + (if tick s then 1 else 0) \<le> 1" using I(8) False by (cases "t1cons s") auto
    moreover have "now s = 6" using I(1) assms(2) by simp
    ultimately have "r = 5" using I(5,9) False by linarith
    then show ?thesis using I(4) ev received_first by (simp add: t1_outcomes_def)
  qed
qed

text \<open>Each of them does occur. A schedule says at each step which of the two goes first if it can.\<close>

definition t1_go :: "bool \<Rightarrow> t1_sys \<Rightarrow> t1_sys" where
  "t1_go main_first s =
     (if t1main s = T_Exit then s
      else case (if main_first then t1_main_step (t1main s) s else t1_cons_step (t1cons s) s) of
        Does s' \<Rightarrow> s' | Panics \<Rightarrow> s
      | Blocks \<Rightarrow>
          (case (if main_first then t1_cons_step (t1cons s) s else t1_main_step (t1main s) s) of
             Does s' \<Rightarrow> s' | Panics \<Rightarrow> s | Blocks \<Rightarrow> s\<lparr>now := Suc (now s), tick := True\<rparr>))"

lemma t1_go_steps: "t1_step\<^sup>*\<^sup>* s (t1_go m s)"
proof (cases "t1main s = T_Exit")
  case False
  show ?thesis using t1_step.main [OF False] t1_step.cons [OF False] t1_step.time [OF False]
    by (auto simp: t1_go_def False split: go_outcome.splits)
qed (simp add: t1_go_def)

lemma t1_fold_steps: "t1_step\<^sup>*\<^sup>* s (fold t1_go ms s)"
proof (induction ms arbitrary: s)
  case (Cons m ms)
  then show ?case using t1_go_steps [of s m] by (simp add: rtranclp_trans)
qed simp

lemma t1_exit_stuck: "t1main s = T_Exit \<Longrightarrow> \<not> (\<exists>s'. t1_step s s')"
  by (auto elim: t1_stepE)

lemma t1_occurs: "t1main (fold t1_go ms t1_start) = T_Exit \<Longrightarrow>
   t1out (fold t1_go ms t1_start) = ev \<Longrightarrow> ev \<in> {t1out s |s. t1_step\<^sup>*\<^sup>* t1_start s \<and> \<not> (\<exists>s'. t1_step s s')}"
  using t1_fold_steps t1_exit_stuck by blast

lemmas t1_eval = t1_start_def t1_go_def make_chan_def chan_send_def chan_recv_def chan_close_def upt_conv_Cons

text \<open>The consumer goes first until the sixth second, where the five messages are out.\<close>

definition t1_sixth :: t1_sys where
  "t1_sixth =
   \<lparr>now = 6, messages = \<lparr>cbuf = [5, 6, 7, 8, 9], ccap = 10, closed = False\<rparr>, done_closed = True, tick = True,
    t1main = T_Last 6, t1cons = K_Range, t1out = map Received [0, 1, 2, 3, 4]\<rparr>"

lemma t1_consumer_first: "fold t1_go (replicate 34 False @ bs) t1_start = fold t1_go bs t1_sixth"
  by (simp add: t1_eval t1_sixth_def numeral_eq_Suc)

lemma t1_all_outcomes: "{t1out s |s. t1_step\<^sup>*\<^sup>* t1_start s \<and> \<not> (\<exists>s'. t1_step s s')} = t1_outcomes" (is "?L = _")
proof
  show "?L \<subseteq> t1_outcomes"
    using t1_result t1.inv_steps [OF _ t1_ok_start] t1_progress by blast
  have "t1main s = T_Exit \<and> t1out s = [Received 0, Received 1, Received 2, Received 3, Interrupted, Main_Exit]"
    if "s = fold t1_go (replicate 60 True) t1_start" for s
    unfolding that by (simp add: t1_eval numeral_eq_Suc)
  then have "[Received 0, Received 1, Received 2, Received 3, Interrupted, Main_Exit] \<in> ?L"
    using t1_occurs [of "replicate 60 True"] by blast
  moreover have "map Received [0, 1, 2, 3, 4] @ ev \<in> ?L"
    if "t1main (fold t1_go bs t1_sixth) = T_Exit" "t1out (fold t1_go bs t1_sixth) = map Received [0, 1, 2, 3, 4] @ ev" for bs ev
    using t1_occurs [of "replicate 34 False @ bs"] that unfolding t1_consumer_first .
  from this [of "[False, False, True, True]" "[Interrupted, Main_Exit]"] this [of "[True, False, False, True]" "[Main_Exit, Interrupted]"]
    this [of "[True, True]" "[Main_Exit]"]
  have "map Received [0, 1, 2, 3, 4] @ [Interrupted, Main_Exit] \<in> ?L"
    "map Received [0, 1, 2, 3, 4] @ [Main_Exit, Interrupted] \<in> ?L" "map Received [0, 1, 2, 3, 4] @ [Main_Exit] \<in> ?L"
    by (simp_all add: t1_eval t1_sixth_def)
  ultimately show "t1_outcomes \<subseteq> ?L" unfolding t1_outcomes_def by simp
qed

section \<open>A wait with a limit\<close>

text \<open>\<open>main2.go\<close>: a goroutine sends after \<open>job\<close> seconds, \<open>main\<close> waits for it at most \<open>limit\<close> seconds.\<close>

datatype t2_main = S_Begin | S_Select | S_Done | S_Exit
datatype t2_event = Select_Start | Got_Number | Timed_Out | All_Done

record t2_sys =
  clock :: nat
  ch1 :: "nat chan"
  child_sent :: bool
  fired :: bool
  t2main :: t2_main
  t2out :: "t2_event list"

definition t2_start :: t2_sys where
  "t2_start = \<lparr>clock = 0, ch1 = make_chan 10, child_sent = False, fired = False, t2main = S_Begin, t2out = []\<rparr>"

text \<open>The \<open>select\<close> takes any case that is ready; the timer fires once, \<open>limit\<close> seconds after it was made.\<close>

inductive t2_run :: "nat \<Rightarrow> nat \<Rightarrow> t2_sys \<Rightarrow> t2_sys \<Rightarrow> bool" for job limit where
  enter: "t2main s = S_Begin \<Longrightarrow> t2_run job limit s (s\<lparr>t2out := t2out s @ [Select_Start], t2main := S_Select\<rparr>)"
| child: "t2main s \<noteq> S_Exit \<Longrightarrow> \<not> child_sent s \<Longrightarrow> job \<le> clock s \<Longrightarrow> chan_send 1 (ch1 s) = Does ch \<Longrightarrow>
    t2_run job limit s (s\<lparr>ch1 := ch, child_sent := True\<rparr>)"
| timer: "t2main s \<noteq> S_Exit \<Longrightarrow> \<not> fired s \<Longrightarrow> limit \<le> clock s \<Longrightarrow> t2_run job limit s (s\<lparr>fired := True\<rparr>)"
| number: "t2main s = S_Select \<Longrightarrow> chan_recv (ch1 s) = Does (ch, x) \<Longrightarrow>
    t2_run job limit s (s\<lparr>ch1 := ch, t2out := t2out s @ [Got_Number], t2main := S_Done\<rparr>)"
| timeout: "t2main s = S_Select \<Longrightarrow> fired s \<Longrightarrow>
    t2_run job limit s (s\<lparr>t2out := t2out s @ [Timed_Out], t2main := S_Done\<rparr>)"
| finish: "t2main s = S_Done \<Longrightarrow> t2_run job limit s (s\<lparr>t2out := t2out s @ [All_Done], t2main := S_Exit\<rparr>)"
| time: "t2main s = S_Select \<Longrightarrow> chan_recv (ch1 s) = Blocks \<Longrightarrow> \<not> fired s \<Longrightarrow>
    (child_sent s \<or> clock s < job) \<Longrightarrow> clock s < limit \<Longrightarrow> t2_run job limit s (s\<lparr>clock := Suc (clock s)\<rparr>)"

inductive_cases t2_runE: "t2_run job limit s s'"

text \<open>The message comes from the child, and neither comes before its time.\<close>

definition t2_ok :: "nat \<Rightarrow> nat \<Rightarrow> t2_sys \<Rightarrow> bool" where
  "t2_ok job limit s \<longleftrightarrow> \<not> closed (ch1 s) \<and> ccap (ch1 s) = 10 \<and> length (cbuf (ch1 s)) \<le> 1 \<and>
     (\<not> child_sent s \<longrightarrow> cbuf (ch1 s) = []) \<and> (t2main s \<in> {S_Begin, S_Select} \<longrightarrow> child_sent s \<longrightarrow> cbuf (ch1 s) \<noteq> []) \<and>
     (child_sent s \<longrightarrow> job \<le> clock s) \<and> (fired s \<longrightarrow> limit \<le> clock s) \<and> clock s \<le> limit \<and> clock s \<le> job \<and>
     (case t2main s of
        S_Begin \<Rightarrow> t2out s = []
      | S_Select \<Rightarrow> t2out s = [Select_Start]
      | S_Done \<Rightarrow> t2out s = [Select_Start, Got_Number] \<and> job \<le> limit \<or> t2out s = [Select_Start, Timed_Out] \<and> limit \<le> job
      | S_Exit \<Rightarrow> t2out s = [Select_Start, Got_Number, All_Done] \<and> job \<le> limit \<or>
          t2out s = [Select_Start, Timed_Out, All_Done] \<and> limit \<le> job)"

fun t2_main_weight :: "t2_main \<Rightarrow> nat" where
  "t2_main_weight S_Begin = 3"
| "t2_main_weight S_Select = 2"
| "t2_main_weight S_Done = 1"
| "t2_main_weight S_Exit = 0"

definition t2_work :: "nat \<Rightarrow> t2_sys \<Rightarrow> nat" where
  "t2_work limit s = t2_main_weight (t2main s) + (if child_sent s then 0 else 1) + (if fired s then 0 else 1) + (limit - clock s)"

interpretation t2: terminating_system "t2_run job limit" "t2_ok job limit" "t2_work limit" "\<lambda>s. t2main s = S_Exit"
  for job limit
proof unfold_locales
  fix s s' assume i: "t2_ok job limit s" and st: "t2_run job limit s s'"
  from st show "t2_ok job limit s'"
    by (cases rule: t2_run.cases)
      (use i in \<open>auto simp: t2_ok_def chan_send_def chan_recv_def split: if_splits list.splits t2_main.splits\<close>)
  from st show "t2_work limit s' < t2_work limit s"
    by (cases rule: t2_run.cases) (use i in \<open>auto simp: t2_ok_def t2_work_def\<close>)
next
  fix s assume i: "t2_ok job limit s" "t2main s \<noteq> S_Exit"
  show "\<exists>s'. t2_run job limit s s'"
  proof (cases "t2main s")
    case S_Select
    show ?thesis
    proof (cases "cbuf (ch1 s)")
      case (Cons x xs)
      then have "chan_recv (ch1 s) = Does ((ch1 s)\<lparr>cbuf := xs\<rparr>, Some x)" by (simp add: chan_recv_def)
      then show ?thesis using t2_run.number [OF S_Select] by blast
    next
      case Nil
      then have b: "chan_recv (ch1 s) = Blocks" and n: "\<not> child_sent s"
        using i(1) S_Select by (auto simp: t2_ok_def chan_recv_def)
      have "\<exists>ch. chan_send 1 (ch1 s) = Does ch" using i(1) Nil by (simp add: t2_ok_def chan_send_def)
      then show ?thesis using n b t2_run.child [OF i(2)] t2_run.timer [OF i(2)] t2_run.timeout [OF S_Select]
          t2_run.time [OF S_Select b] by (meson not_less)
    qed
  qed (use t2_run.enter t2_run.finish i(2) in blast)+
qed

lemma t2_ok_start: "t2_ok job limit t2_start"
  by (simp add: t2_ok_def t2_start_def make_chan_def)

text \<open>The waiting \<open>main\<close> at a later second.\<close>

definition t2_waiting :: "nat \<Rightarrow> t2_sys" where
  "t2_waiting n = t2_start\<lparr>clock := n, t2out := [Select_Start], t2main := S_Select\<rparr>"

lemma t2_waits: "n \<le> job \<Longrightarrow> n \<le> limit \<Longrightarrow> (t2_run job limit)\<^sup>*\<^sup>* t2_start (t2_waiting n)"
proof (induction n)
  case 0
  then show ?case using t2_run.enter [of t2_start job limit] by (simp add: t2_waiting_def t2_start_def)
next
  case (Suc n)
  have "t2_run job limit (t2_waiting n) (t2_waiting (Suc n))"
    using t2_run.time [of "t2_waiting n" job limit] Suc.prems
    by (simp add: t2_waiting_def t2_start_def make_chan_def chan_recv_def)
  with Suc show ?case by (simp add: rtranclp.rtrancl_into_rtrancl)
qed

lemma t2_number_comes:
  assumes "job \<le> limit"
  shows "\<exists>s. (t2_run job limit)\<^sup>*\<^sup>* t2_start s \<and> t2main s = S_Exit \<and> t2out s = [Select_Start, Got_Number, All_Done]"
proof -
  let ?w = "t2_waiting job"
  let ?c = "?w\<lparr>ch1 := (ch1 ?w)\<lparr>cbuf := [1]\<rparr>, child_sent := True\<rparr>"
  let ?n = "?c\<lparr>ch1 := ch1 ?w, t2out := [Select_Start, Got_Number], t2main := S_Done\<rparr>"
  have w: "(t2_run job limit)\<^sup>*\<^sup>* t2_start ?w" using t2_waits assms by simp
  have c: "t2_run job limit ?w ?c"
    by (rule t2_run.child) (simp_all add: t2_waiting_def t2_start_def make_chan_def chan_send_def)
  have n: "t2_run job limit ?c ?n" using t2_run.number [of ?c "ch1 ?w" "Some 1" job limit]
    by (simp add: t2_waiting_def t2_start_def make_chan_def chan_recv_def)
  have f: "t2_run job limit ?n (?n\<lparr>t2out := [Select_Start, Got_Number, All_Done], t2main := S_Exit\<rparr>)"
    using t2_run.finish [of ?n job limit] by simp
  from w c n f have "(t2_run job limit)\<^sup>*\<^sup>* t2_start (?n\<lparr>t2out := [Select_Start, Got_Number, All_Done], t2main := S_Exit\<rparr>)"
    by (meson rtranclp.rtrancl_into_rtrancl)
  then show ?thesis by fastforce
qed

lemma t2_time_is_up:
  assumes "limit \<le> job"
  shows "\<exists>s. (t2_run job limit)\<^sup>*\<^sup>* t2_start s \<and> t2main s = S_Exit \<and> t2out s = [Select_Start, Timed_Out, All_Done]"
proof -
  let ?w = "t2_waiting limit"
  let ?c = "?w\<lparr>fired := True\<rparr>"
  let ?n = "?c\<lparr>t2out := [Select_Start, Timed_Out], t2main := S_Done\<rparr>"
  have w: "(t2_run job limit)\<^sup>*\<^sup>* t2_start ?w" using t2_waits assms by simp
  have c: "t2_run job limit ?w ?c" by (rule t2_run.timer) (simp_all add: t2_waiting_def t2_start_def)
  have n: "t2_run job limit ?c ?n" using t2_run.timeout [of ?c job limit] by (simp add: t2_waiting_def)
  have f: "t2_run job limit ?n (?n\<lparr>t2out := [Select_Start, Timed_Out, All_Done], t2main := S_Exit\<rparr>)"
    using t2_run.finish [of ?n job limit] by simp
  from w c n f have "(t2_run job limit)\<^sup>*\<^sup>* t2_start (?n\<lparr>t2out := [Select_Start, Timed_Out, All_Done], t2main := S_Exit\<rparr>)"
    by (meson rtranclp.rtrancl_into_rtrancl)
  then show ?thesis by fastforce
qed

lemma t2_exit_stuck: "t2main s = S_Exit \<Longrightarrow> \<not> (\<exists>s'. t2_run job limit s s')"
  by (auto elim: t2_runE)

lemma t2_result:
  assumes "(t2_run job limit)\<^sup>*\<^sup>* t2_start s" "\<not> (\<exists>s'. t2_run job limit s s')"
  shows "\<exists>e. t2out s = [Select_Start, e, All_Done] \<and> (e = Got_Number \<and> job \<le> limit \<or> e = Timed_Out \<and> limit \<le> job)"
proof -
  have i: "t2_ok job limit s" by (rule t2.inv_steps [OF assms(1) t2_ok_start])
  then have "t2main s = S_Exit" using t2.progress assms(2) by blast
  with i show ?thesis by (auto simp: t2_ok_def)
qed

lemma t2_all_outcomes:
  "{t2out s |s. (t2_run job limit)\<^sup>*\<^sup>* t2_start s \<and> \<not> (\<exists>s'. t2_run job limit s s')} =
   {[Select_Start, e, All_Done] |e. e = Got_Number \<and> job \<le> limit \<or> e = Timed_Out \<and> limit \<le> job}" (is "?L = ?R")
proof
  show "?L \<subseteq> ?R" using t2_result by fast
  have end_in: "out \<in> ?L" if "\<exists>s. (t2_run job limit)\<^sup>*\<^sup>* t2_start s \<and> t2main s = S_Exit \<and> t2out s = out" for out
    using that t2_exit_stuck by blast
  show "?R \<subseteq> ?L"
  proof
    fix out assume "out \<in> ?R"
    then consider "job \<le> limit" "out = [Select_Start, Got_Number, All_Done]"
      | "limit \<le> job" "out = [Select_Start, Timed_Out, All_Done]" by blast
    then show "out \<in> ?L"
      by cases (rule end_in, simp only:, erule t2_number_comes t2_time_is_up)+
  qed
qed

section \<open>Property\<close>

text \<open>C38: the two programs end, and end in time: with a clock that moves only when everything waits, no run of
  \<open>main1.go\<close> goes on for ever, and the outcomes are exactly four: its consumer has printed the messages 0 to
  3 and then that it was stopped, or the messages 0 to 4 and then that it was stopped, before or after
  \<open>main\<close>'s last line or not at all. Every run of \<open>main2.go\<close> ends, and the outcomes are exactly that the number
  came, if the job takes no longer than the limit, and that the time was up, if it takes no less (as
  the 10 and 5 seconds of the source do).\<close>

theorem timeouts_end_in_time:
  "(\<nexists>f. f 0 = t1_start \<and> (\<forall>k. t1_step (f k) (f (Suc k)))) \<and> (\<exists>s. t1_step\<^sup>*\<^sup>* t1_start s \<and> t1main s = T_Exit) \<and>
   {t1out s |s. t1_step\<^sup>*\<^sup>* t1_start s \<and> \<not> (\<exists>s'. t1_step s s')} =
     {[Received 0, Received 1, Received 2, Received 3, Interrupted, Main_Exit],
      [Received 0, Received 1, Received 2, Received 3, Received 4, Interrupted, Main_Exit],
      [Received 0, Received 1, Received 2, Received 3, Received 4, Main_Exit, Interrupted],
      [Received 0, Received 1, Received 2, Received 3, Received 4, Main_Exit]} \<and>
   (\<nexists>f. f 0 = t2_start \<and> (\<forall>k. t2_run job limit (f k) (f (Suc k)))) \<and> (\<exists>s. (t2_run job limit)\<^sup>*\<^sup>* t2_start s \<and> t2main s = S_Exit) \<and>
   {t2out s |s. (t2_run job limit)\<^sup>*\<^sup>* t2_start s \<and> \<not> (\<exists>s'. t2_run job limit s s')} =
     {[Select_Start, e, All_Done] |e. e = Got_Number \<and> job \<le> limit \<or> e = Timed_Out \<and> limit \<le> job}"
proof (intro conjI t1_all_outcomes [unfolded t1_outcomes_def] t2_all_outcomes)
  have t2s: "t2_ok job limit t2_start" by (rule t2_ok_start)
  show "\<nexists>f. f 0 = t1_start \<and> (\<forall>k. t1_step (f k) (f (Suc k)))" using t1.no_infinite_run t1_ok_start by metis
  show "\<exists>s. t1_step\<^sup>*\<^sup>* t1_start s \<and> t1main s = T_Exit" using t1.inevitable [OF t1_ok_start] by blast
  show "\<nexists>f. f 0 = t2_start \<and> (\<forall>k. t2_run job limit (f k) (f (Suc k)))" using t2.no_infinite_run t2s by metis
  show "\<exists>s. (t2_run job limit)\<^sup>*\<^sup>* t2_start s \<and> t2main s = S_Exit" using t2.inevitable [OF t2s] by blast
qed
end
