(* ===== verification/CondQueue.thy ===== *)
theory CondQueue
  imports Systems
begin

text \<open>
  \<open>produce_consume/model1/main2.go\<close>: a queue under a lock with a condition variable, three producers that
  put five values each, two consumers that take until the queue has been terminated and is empty.
  A critical section is one step, as in \<open>CondCount\<close>; \<open>main\<close> sleeps, terminates the queue, sleeps and
  returns, at any moment, since time is not modelled.
\<close>

section \<open>The program\<close>

text \<open>A consumer before \<open>Consume\<close>, waiting in it, and after its loop; \<open>main\<close> in its two sleeps.\<close>

datatype qc_pc = Q_Call | Q_Wait | Q_End
datatype qm_pc = QM_Sleep | QM_Last | QM_Exit

datatype q_event = Q_Produced nat | Q_Consumed nat

text \<open>\<open>next_j\<close> holds the loop variable \<open>j\<close> of each producer, producer \<open>id\<close> at place \<open>id - 1\<close>.\<close>

record q_sys =
  buffer :: "nat list"
  terminated :: bool
  condq :: "nat list"
  next_j :: "nat list"
  qcons :: "qc_pc list"
  qmain :: qm_pc
  q_out :: "q_event list"

definition q_start :: q_sys where
  "q_start = \<lparr>buffer = [], terminated = False, condq = [], next_j = replicate 3 1,
     qcons = replicate 2 Q_Call, qmain = QM_Sleep, q_out = []\<rparr>"

definition q_signal :: "q_sys \<Rightarrow> q_sys" where
  "q_signal s = (case condq s of [] \<Rightarrow> s | w # ws \<Rightarrow> s\<lparr>condq := ws, qcons := (qcons s)[w := Q_Call]\<rparr>)"

definition Queue_Produce :: "nat \<Rightarrow> q_sys \<Rightarrow> q_sys" where
  "Queue_Produce data s = q_signal (s\<lparr>buffer := buffer s @ [data], q_out := q_out s @ [Q_Produced data]\<rparr>)"

text \<open>The value \<open>Consume\<close> returns, unless the caller has gone to wait. \<open>Data{}\<close> has the value 0.\<close>

definition Queue_Consume :: "nat \<Rightarrow> q_sys \<Rightarrow> q_sys \<times> nat option" where
  "Queue_Consume c s =
     (if buffer s = [] \<and> \<not> terminated s then (s\<lparr>condq := condq s @ [c], qcons := (qcons s)[c := Q_Wait]\<rparr>, None)
      else case buffer s of
        data # rest \<Rightarrow> (s\<lparr>buffer := rest, q_out := q_out s @ [Q_Consumed data]\<rparr>, Some data)
      | [] \<Rightarrow> (s, Some 0))"

definition Queue_Terminated :: "q_sys \<Rightarrow> q_sys" where
  "Queue_Terminated s = s\<lparr>terminated := True, condq := [],
     qcons := map (\<lambda>p. if p = Q_Wait then Q_Call else p) (qcons s)\<rparr>"

text \<open>The bodies of the loops of a producer and of a consumer.\<close>

definition producer_turn :: "nat \<Rightarrow> q_sys \<Rightarrow> q_sys" where
  "producer_turn i s =
     (let j = next_j s ! i; s = Queue_Produce (Suc i * 10 + j) s in s\<lparr>next_j := (next_j s)[i := Suc j]\<rparr>)"

definition consumer_turn :: "nat \<Rightarrow> q_sys \<Rightarrow> q_sys" where
  "consumer_turn c s =
     (case Queue_Consume c s of
        (s, None) \<Rightarrow> s
      | (s, Some v) \<Rightarrow> if v = 0 then s\<lparr>qcons := (qcons s)[c := Q_End]\<rparr> else s)"

inductive q_step :: "q_sys \<Rightarrow> q_sys \<Rightarrow> bool" where
  prod: "qmain s \<noteq> QM_Exit \<Longrightarrow> i < 3 \<Longrightarrow> next_j s ! i \<le> 5 \<Longrightarrow> q_step s (producer_turn i s)"
| cons: "qmain s \<noteq> QM_Exit \<Longrightarrow> c < 2 \<Longrightarrow> qcons s ! c = Q_Call \<Longrightarrow> q_step s (consumer_turn c s)"
| terminate: "qmain s = QM_Sleep \<Longrightarrow> q_step s ((Queue_Terminated s)\<lparr>qmain := QM_Last\<rparr>)"
| exit: "qmain s = QM_Last \<Longrightarrow> q_step s (s\<lparr>qmain := QM_Exit\<rparr>)"

inductive_cases q_stepE [step_elims]: "q_step s s'"

inductive q_reach :: "q_sys \<Rightarrow> bool" where
  init: "q_reach q_start"
| step: "q_reach s \<Longrightarrow> q_step s s' \<Longrightarrow> q_reach s'"

section \<open>The invariant\<close>

fun put :: "q_event list \<Rightarrow> nat list" where
  "put [] = []" | "put (Q_Produced v # es) = v # put es" | "put (Q_Consumed v # es) = put es"

fun taken_out :: "q_event list \<Rightarrow> nat list" where
  "taken_out [] = []" | "taken_out (Q_Consumed v # es) = v # taken_out es"
| "taken_out (Q_Produced v # es) = taken_out es"

lemma put_append [simp]: "put (xs @ ys) = put xs @ put ys"
  by (induction xs rule: put.induct) auto

lemma taken_out_append [simp]: "taken_out (xs @ ys) = taken_out xs @ taken_out ys"
  by (induction xs rule: taken_out.induct) auto

text \<open>The values a producer has put when its loop variable is \<open>j\<close>.\<close>

definition put_by :: "nat \<Rightarrow> nat \<Rightarrow> nat list" where
  "put_by i j = map (\<lambda>j. Suc i * 10 + j) [1..<j]"

lemma put_by_Suc: "1 \<le> j \<Longrightarrow> put_by i (Suc j) = put_by i j @ [Suc i * 10 + j]"
  by (simp add: put_by_def)

definition of_producer :: "nat \<Rightarrow> nat list \<Rightarrow> nat list" where
  "of_producer i = filter (\<lambda>v. v div 10 = Suc i)"

definition puts_inv :: "q_sys \<Rightarrow> bool" where
  "puts_inv s \<longleftrightarrow> length (next_j s) = 3 \<and> taken_out (q_out s) @ buffer s = put (q_out s) \<and> 0 \<notin> set (put (q_out s)) \<and>
     (\<forall>i < 3. 1 \<le> next_j s ! i \<and> next_j s ! i \<le> 6 \<and> of_producer i (put (q_out s)) = put_by i (next_j s ! i)) \<and>
     length (put (q_out s)) + 3 = sum_list (next_j s)"

definition wake_inv :: "q_sys \<Rightarrow> bool" where
  "wake_inv s \<longleftrightarrow> length (qcons s) = 2 \<and> distinct (condq s) \<and> (\<forall>c. c \<in> set (condq s) \<longleftrightarrow> c < 2 \<and> qcons s ! c = Q_Wait) \<and>
     (if terminated s then condq s = [] else Q_End \<notin> set (qcons s) \<and> (buffer s \<noteq> [] \<longrightarrow> Q_Call \<in> set (qcons s))) \<and>
     (terminated s \<longleftrightarrow> qmain s \<noteq> QM_Sleep)"

lemma nobody_waits: "wake_inv s \<Longrightarrow> terminated s \<Longrightarrow> c < 2 \<Longrightarrow> qcons s ! c \<noteq> Q_Wait"
  unfolding wake_inv_def by (metis empty_iff empty_set)

lemma puts_inv_start: "puts_inv q_start"
  by (simp add: puts_inv_def q_start_def put_by_def of_producer_def sum_list_replicate nth_Cons split: nat.split)

lemma wake_inv_start: "wake_inv q_start"
  by (auto simp: wake_inv_def q_start_def nth_Cons split: nat.splits)

lemma q_signal_frame [simp]:
  "buffer (q_signal s) = buffer s" "terminated (q_signal s) = terminated s" "next_j (q_signal s) = next_j s"
  "qmain (q_signal s) = qmain s" "q_out (q_signal s) = q_out s" "length (qcons (q_signal s)) = length (qcons s)"
  by (simp_all add: q_signal_def split: list.split)

lemma puts_inv_producer:
  assumes "puts_inv s" "i < 3" "next_j s ! i \<le> 5"
  shows "puts_inv (producer_turn i s)"
proof -
  let ?j = "next_j s ! i" and ?v = "Suc i * 10 + next_j s ! i"
  have j: "1 \<le> ?j" "?j < 10" using assms by (auto simp: puts_inv_def)
  have "?v div 10 = Suc i" using j by simp
  then have "of_producer k (put (q_out s) @ [?v]) = put_by k ((next_j s)[i := Suc ?j] ! k)" if "k < 3" for k
    using assms(1) that j put_by_Suc [OF j(1), of i] by (cases "k = i") (auto simp: puts_inv_def of_producer_def)
  moreover have "sum_list ((next_j s)[i := Suc ?j]) = Suc (sum_list (next_j s))"
    using assms(1,2) member_le_sum_list [of ?j "next_j s"]
    by (simp add: sum_list_update puts_inv_def)
  ultimately show ?thesis using assms
    by (simp add: puts_inv_def producer_turn_def Queue_Produce_def Let_def nth_list_update)
qed

lemma puts_inv_consumer: "puts_inv s \<Longrightarrow> puts_inv (consumer_turn c s)"
  by (auto simp: puts_inv_def consumer_turn_def Queue_Consume_def split: list.split)

lemma puts_inv_step: "puts_inv s \<Longrightarrow> q_step s s' \<Longrightarrow> puts_inv s'"
  by (erule q_stepE) (simp_all add: puts_inv_producer puts_inv_consumer, simp_all add: puts_inv_def Queue_Terminated_def)


text \<open>After a signal somebody is awake: whoever it has woken, or anybody if nobody was waiting.\<close>

lemma wake_inv_signal:
  assumes "wake_inv s"
  shows "wake_inv (q_signal (s\<lparr>buffer := b, q_out := es\<rparr>))"
proof (cases "condq s")
  case Nil
  have "Q_Call \<in> set (qcons s)" if "\<not> terminated s"
  proof -
    have "qcons s ! 0 \<in> set (qcons s)" using assms by (intro nth_mem) (simp add: wake_inv_def)
    moreover have "qcons s ! 0 \<noteq> Q_Wait" using assms Nil by (simp add: wake_inv_def)
    moreover have "Q_End \<notin> set (qcons s)" using assms that by (simp add: wake_inv_def)
    ultimately show ?thesis by (metis qc_pc.exhaust)
  qed
  then show ?thesis using assms Nil by (simp add: wake_inv_def q_signal_def)
next
  case (Cons w ws)
  have l: "length (qcons s) = 2" and d: "distinct (condq s)" and nt: "\<not> terminated s"
    and q: "c \<in> set (condq s) \<longleftrightarrow> c < 2 \<and> qcons s ! c = Q_Wait" for c
    using assms Cons by (auto simp: wake_inv_def split: if_splits)
  have w: "w < 2" "w \<notin> set ws" using q [of w] d Cons by auto
  have "\<forall>c. c \<in> set ws \<longleftrightarrow> c < 2 \<and> (qcons s)[w := Q_Call] ! c = Q_Wait"
  proof
    show "c \<in> set ws \<longleftrightarrow> c < 2 \<and> (qcons s)[w := Q_Call] ! c = Q_Wait" for c
      using q [of c] w l Cons by (cases "c = w") auto
  qed
  moreover have "Q_End \<notin> set ((qcons s)[w := Q_Call])"
    using assms nt set_update_subset_insert [of "qcons s" w Q_Call] by (auto simp: wake_inv_def)
  moreover have "Q_Call \<in> set ((qcons s)[w := Q_Call])" by (rule set_update_memI) (use w l in simp)
  ultimately show ?thesis using assms l d nt Cons by (simp add: wake_inv_def q_signal_def)
qed

lemma wake_inv_wait:
  assumes "wake_inv s" "c < 2" "qcons s ! c = Q_Call" "buffer s = []" "\<not> terminated s"
  shows "wake_inv (s\<lparr>condq := condq s @ [c], qcons := (qcons s)[c := Q_Wait]\<rparr>)"
proof -
  have l: "length (qcons s) = 2" and q: "k \<in> set (condq s) \<longleftrightarrow> k < 2 \<and> qcons s ! k = Q_Wait" for k
    using assms(1) by (auto simp: wake_inv_def)
  have "\<forall>k. k \<in> set (condq s @ [c]) \<longleftrightarrow> k < 2 \<and> (qcons s)[c := Q_Wait] ! k = Q_Wait"
  proof
    show "k \<in> set (condq s @ [c]) \<longleftrightarrow> k < 2 \<and> (qcons s)[c := Q_Wait] ! k = Q_Wait" for k
      using q [of k] assms(2) l by (cases "k = c") auto
  qed
  moreover have "Q_End \<notin> set ((qcons s)[c := Q_Wait])"
    using assms(1,5) set_update_subset_insert [of "qcons s" c Q_Wait] by (auto simp: wake_inv_def)
  moreover have "c \<notin> set (condq s)" using q [of c] assms(3) by simp
  ultimately show ?thesis using assms by (simp add: wake_inv_def)
qed

lemma wake_inv_end:
  assumes "wake_inv s" "c < 2" "qcons s ! c = Q_Call" "terminated s"
  shows "wake_inv (s\<lparr>qcons := (qcons s)[c := Q_End]\<rparr>)"
proof -
  have "c < length (qcons s)" using assms(1,2) by (simp add: wake_inv_def)
  then have "\<forall>k < 2. (qcons s)[c := Q_End] ! k \<noteq> Q_Wait"
    using nobody_waits [OF assms(1,4)] by (auto simp: nth_list_update)
  then show ?thesis using assms(1,4) by (simp add: wake_inv_def)
qed

lemma wake_inv_take:
  assumes "wake_inv s" "c < 2" "qcons s ! c = Q_Call"
  shows "wake_inv (s\<lparr>buffer := b, q_out := es\<rparr>)"
proof -
  have "Q_Call \<in> set (qcons s)" using assms nth_mem [of c "qcons s"] by (simp add: wake_inv_def)
  then show ?thesis using assms(1) by (simp add: wake_inv_def)
qed

lemma put_next_j [simp]: "wake_inv (s\<lparr>next_j := js\<rparr>) = wake_inv s"
  by (simp add: wake_inv_def)

text \<open>A consumer that takes a value does not stop, since no value is 0.\<close>

lemma consumer_turn_cases:
  assumes "puts_inv s"
  obtains "buffer s = []" "\<not> terminated s"
      "consumer_turn c s = s\<lparr>condq := condq s @ [c], qcons := (qcons s)[c := Q_Wait]\<rparr>"
  | "buffer s = []" "terminated s" "consumer_turn c s = s\<lparr>qcons := (qcons s)[c := Q_End]\<rparr>"
  | v rest where "buffer s = v # rest" "consumer_turn c s = s\<lparr>buffer := rest, q_out := q_out s @ [Q_Consumed v]\<rparr>"
proof (cases "buffer s")
  case Nil
  then show thesis using that(1,2) by (cases "terminated s") (simp_all add: consumer_turn_def Queue_Consume_def)
next
  case (Cons v rest)
  have "taken_out (q_out s) @ buffer s = put (q_out s)" "0 \<notin> set (put (q_out s))"
    using assms by (auto simp: puts_inv_def)
  then have "0 \<notin> set (buffer s)" by (metis Un_iff set_append)
  then have "v \<noteq> 0" using Cons by auto
  with Cons show thesis using that(3) by (simp add: consumer_turn_def Queue_Consume_def)
qed

lemma wake_inv_step:
  assumes "wake_inv s" "puts_inv s" "q_step s s'"
  shows "wake_inv s'"
  using assms(3)
proof cases
  case (prod i)
  then show ?thesis using wake_inv_signal [OF assms(1)] by (simp add: producer_turn_def Queue_Produce_def Let_def)
next
  case (cons c)
  show ?thesis using assms(2)
  proof (cases rule: consumer_turn_cases [of s c])
    case 1
    then show ?thesis using cons wake_inv_wait assms(1) by simp
  next
    case 2
    then show ?thesis using cons wake_inv_end assms(1) by simp
  next
    case 3
    then show ?thesis using cons wake_inv_take assms(1) by simp
  qed
next
  case terminate
  then show ?thesis using assms(1) by (auto simp: wake_inv_def Queue_Terminated_def)
next
  case exit
  then have "terminated s" using assms(1) by (simp add: wake_inv_def)
  then have "\<forall>c < 2. qcons s ! c \<noteq> Q_Wait" using nobody_waits assms(1) by blast
  then show ?thesis using exit assms(1) by (simp add: wake_inv_def)
qed

section \<open>The end\<close>

text \<open>A value to produce is worth more than putting it, taking it and waking a consumer.\<close>

fun q_pc_work :: "qc_pc \<Rightarrow> nat" where
  "q_pc_work Q_Call = 1" | "q_pc_work _ = 0"

fun q_main_work :: "qm_pc \<Rightarrow> nat" where
  "q_main_work QM_Sleep = 4" | "q_main_work QM_Last = 1" | "q_main_work QM_Exit = 0"

definition q_work :: "q_sys \<Rightarrow> nat" where
  "q_work s = 4 * (18 - sum_list (next_j s)) + 2 * length (buffer s) + sum_list (map q_pc_work (qcons s)) +
     q_main_work (qmain s)"

lemmas q_pc_work_update = sum_list_map_update [where f = q_pc_work]

lemma q_pc_work_le: "sum_list (map q_pc_work ps) \<le> length ps"
proof -
  have "q_pc_work p \<le> 1" for p by (cases p) auto
  from sum_list_map_bound [of q_pc_work 1, OF this] show ?thesis by simp
qed

lemma q_pc_work_signal:
  assumes "wake_inv s"
  shows "sum_list (map q_pc_work (qcons (q_signal (s\<lparr>buffer := b, q_out := es\<rparr>)))) \<le> sum_list (map q_pc_work (qcons s)) + 1"
proof (cases "condq s")
  case (Cons w ws)
  then have "w \<in> set (condq s)" by simp
  then have "w < length (qcons s)" using assms by (auto simp: wake_inv_def)
  then show ?thesis using Cons q_pc_work_update [of w "qcons s" Q_Call] by (simp add: q_signal_def)
qed (simp add: q_signal_def)

text \<open>While a producer has something to put, the loop variables add up to less than 18.\<close>

lemma sum_next_j:
  assumes "puts_inv s" "i < 3" "next_j s ! i \<le> 5"
  shows "sum_list (next_j s) < 18"
proof -
  obtain a b d where abd: "next_j s = [a, b, d]" using assms(1)
    by (auto simp: puts_inv_def numeral_3_eq_3 length_Suc_conv)
  have "next_j s ! 0 \<le> 6" "next_j s ! 1 \<le> 6" "next_j s ! 2 \<le> 6" using assms(1) by (auto simp: puts_inv_def)
  moreover have "i = 0 \<or> i = 1 \<or> i = 2" using assms(2) by auto
  ultimately show ?thesis using assms(3) abd by auto
qed

lemma q_work_step:
  assumes "wake_inv s" "puts_inv s" "q_step s s'"
  shows "q_work s' < q_work s"
  using assms(3)
proof cases
  case (prod i)
  have "sum_list ((next_j s)[i := Suc (next_j s ! i)]) = Suc (sum_list (next_j s))"
    using assms(2) prod(3) member_le_sum_list [of "next_j s ! i" "next_j s"] by (simp add: sum_list_update puts_inv_def)
  moreover have "sum_list (map q_pc_work (qcons s')) \<le> sum_list (map q_pc_work (qcons s)) + 1"
    using prod(1) q_pc_work_signal [OF assms(1)] by (simp add: producer_turn_def Queue_Produce_def Let_def)
  moreover have "next_j s' = (next_j s)[i := Suc (next_j s ! i)]" "length (buffer s') = Suc (length (buffer s))"
    "qmain s' = qmain s"
    using prod(1) by (simp_all add: producer_turn_def Queue_Produce_def Let_def)
  ultimately show ?thesis using sum_next_j [OF assms(2) prod(3,4)] by (simp add: q_work_def)
next
  case (cons c)
  have c: "c < length (qcons s)" using assms(1) cons(3) by (simp add: wake_inv_def)
  show ?thesis using assms(2)
  proof (cases rule: consumer_turn_cases [of s c])
    case 1
    then show ?thesis using cons q_pc_work_update [OF c, of Q_Wait] by (simp add: q_work_def)
  next
    case 2
    then show ?thesis using cons q_pc_work_update [OF c, of Q_End] by (simp add: q_work_def)
  next
    case 3
    then show ?thesis using cons by (simp add: q_work_def)
  qed
next
  case terminate
  then show ?thesis using assms(1) q_pc_work_le [of "qcons (Queue_Terminated s)"]
    by (simp add: q_work_def Queue_Terminated_def wake_inv_def)
next
  case exit
  then show ?thesis by (simp add: q_work_def)
qed

interpretation q: shrinking_system q_step "\<lambda>s. wake_inv s \<and> puts_inv s" q_work
  by unfold_locales (auto intro: wake_inv_step puts_inv_step q_work_step)

lemma q_inv_reach: "q_reach s \<Longrightarrow> wake_inv s \<and> puts_inv s"
  by (induction rule: q_reach.induct) (auto intro: wake_inv_start puts_inv_start wake_inv_step puts_inv_step)


text \<open>Once the producers are done, a consumer that stops has found the queue empty, and it stays so.\<close>

definition all_put :: "q_sys \<Rightarrow> bool" where
  "all_put s \<longleftrightarrow> next_j s = [6, 6, 6]"

definition stopped :: "nat \<Rightarrow> q_sys \<Rightarrow> bool" where
  "stopped c s \<longleftrightarrow> qcons s ! c = Q_End"
text \<open>Either the queue has not been terminated, or nobody waits any more.\<close>

lemma some_awake:
  assumes "wake_inv s" "buffer s \<noteq> []" "\<not> (stopped 0 s \<and> stopped 1 s)"
  shows "\<exists>c < 2. qcons s ! c = Q_Call"
proof (cases "terminated s")
  case True
  then have "\<forall>c < 2. qcons s ! c \<noteq> Q_Wait" using nobody_waits assms(1) by blast
  moreover obtain c where "c < 2" "qcons s ! c \<noteq> Q_End"
    using assms(3) unfolding stopped_def by (metis one_less_numeral_iff semiring_norm(76) zero_less_numeral)
  ultimately show ?thesis by (metis qc_pc.exhaust)
next
  case False
  then have "Q_Call \<in> set (qcons s)" "length (qcons s) = 2" using assms(1,2) by (simp_all add: wake_inv_def)
  then show ?thesis by (metis in_set_conv_nth)
qed

lemma drained_step:
  assumes "q_step s s'" "puts_inv s" "wake_inv s" "all_put s" "c < 2" "stopped c s \<longrightarrow> buffer s = []"
  shows "all_put s' \<and> (stopped c s' \<longrightarrow> buffer s' = [])"
  using assms(1)
proof cases
  case (prod i)
  then show ?thesis using assms(4) by (simp add: all_put_def nth_Cons less_Suc_eq numeral_3_eq_3 split: nat.splits)
next
  case (cons k)
  have k: "k < length (qcons s)" using assms(3) cons(3) by (simp add: wake_inv_def)
  show ?thesis using assms(2)
    by (cases rule: consumer_turn_cases [of s k]) (use cons assms(4,6) in \<open>auto simp: all_put_def stopped_def\<close>)
next
  case terminate
  have "c < length (qcons s)" using assms(3,5) by (simp add: wake_inv_def)
  with terminate show ?thesis using assms(4,6) by (auto simp: all_put_def stopped_def Queue_Terminated_def split: if_splits)
next
  case exit
  then show ?thesis using assms(4,6) by (simp add: all_put_def stopped_def)
qed

lemma drained_steps:
  assumes "q_step\<^sup>*\<^sup>* s s'" "q_reach s" "all_put s" "c < 2" "\<not> stopped c s"
  shows "q_reach s' \<and> all_put s' \<and> (stopped c s' \<longrightarrow> buffer s' = [])"
  using assms(1)
proof (induction rule: rtranclp_induct)
  case (step s1 s2)
  then show ?case using drained_step [of s1 s2 c] q_inv_reach q_reach.step assms(4) by blast
qed (use assms in auto)

text \<open>C26: In the program with the queue what has been consumed is, in the order it was produced, what has
  been produced, less what is still in the queue; each producer's five values appear in its order;
  every run is finite; no wake-up is lost: while there is something in the queue some consumer is
  ready to take it, unless all have stopped. When the producers are done before a consumer stops, all 15 values have
  been consumed by then.\<close>

theorem cond_queue_delivers:
  assumes "q_reach s"
  shows "taken_out (q_out s) @ buffer s = put (q_out s) \<and>
    (\<forall>i \<in> {0, 1, 2}. of_producer i (put (q_out s)) = put_by i (next_j s ! i)) \<and>
    (\<nexists>f. f 0 = s \<and> (\<forall>k. q_step (f k) (f (Suc k)))) \<and>
    (buffer s \<noteq> [] \<longrightarrow> qmain s \<noteq> QM_Exit \<longrightarrow> stopped 0 s \<and> stopped 1 s \<or>
       (\<exists>c < 2. qcons s ! c = Q_Call \<and> q_step s (consumer_turn c s) \<and>
          taken_out (q_out (consumer_turn c s)) = taken_out (q_out s) @ [hd (buffer s)])) \<and>
    (all_put s \<longrightarrow> (\<forall>s' c. c < 2 \<and> \<not> stopped c s \<and> q_step\<^sup>*\<^sup>* s s' \<and> stopped c s' \<longrightarrow>
       taken_out (q_out s') = put (q_out s') \<and> length (put (q_out s')) = 15))"
proof (intro conjI impI allI)
  have inv: "wake_inv s" "puts_inv s" using q_inv_reach assms by auto
  show "taken_out (q_out s) @ buffer s = put (q_out s)" using inv by (simp add: puts_inv_def)
  show "\<forall>i \<in> {0, 1, 2}. of_producer i (put (q_out s)) = put_by i (next_j s ! i)"
    using inv(2) by (simp add: puts_inv_def)
  show "\<nexists>f. f 0 = s \<and> (\<forall>k. q_step (f k) (f (Suc k)))" using q.no_infinite_run inv by blast
next
  fix s' c
  assume "all_put s" and c: "c < 2 \<and> \<not> stopped c s \<and> q_step\<^sup>*\<^sup>* s s' \<and> stopped c s'"
  then have "q_reach s' \<and> all_put s' \<and> buffer s' = []" using drained_steps assms by blast
  then show "taken_out (q_out s') = put (q_out s')" "length (put (q_out s')) = 15"
    using q_inv_reach [of s'] by (auto simp: puts_inv_def all_put_def)
next
  assume b: "buffer s \<noteq> []" "qmain s \<noteq> QM_Exit"
  have inv: "wake_inv s" "puts_inv s" using q_inv_reach assms by auto
  show "stopped 0 s \<and> stopped 1 s \<or> (\<exists>c < 2. qcons s ! c = Q_Call \<and> q_step s (consumer_turn c s) \<and>
          taken_out (q_out (consumer_turn c s)) = taken_out (q_out s) @ [hd (buffer s)])"
  proof (cases "stopped 0 s \<and> stopped 1 s")
    case False
    have "\<exists>c < 2. qcons s ! c = Q_Call" using some_awake [OF inv(1) b(1)] False by simp
    then obtain c where c: "c < 2" "qcons s ! c = Q_Call" by blast
    have "taken_out (q_out (consumer_turn c s)) = taken_out (q_out s) @ [hd (buffer s)]"
      using inv(2) by (cases rule: consumer_turn_cases [of s c]) (use b(1) in auto)
    then show ?thesis using c q_step.cons b(2) by blast
  qed simp
qed

text \<open>A consumer that waits, a producer that wakes it.\<close>

theorem cond_queue_delivers_witness:
  "let s = producer_turn 1 (consumer_turn 0 q_start) in
   taken_out (q_out s) @ buffer s = [21] \<and> of_producer 1 (put (q_out s)) = [21] \<and> qcons s = [Q_Call, Q_Call]"
proof -
  let ?s1 = "consumer_turn 0 q_start" and ?s = "producer_turn 1 (consumer_turn 0 q_start)"
  have "q_reach ?s1" by (rule q_reach.step [OF q_reach.init], rule q_step.cons) (simp_all add: q_start_def)
  moreover have "qmain ?s1 \<noteq> QM_Exit \<and> next_j ?s1 ! 1 \<le> 5" by code_simp
  ultimately have "q_reach ?s" using q_reach.step q_step.prod [of ?s1 1] by simp
  from cond_queue_delivers [OF this] have "taken_out (q_out ?s) @ buffer ?s = put (q_out ?s)"
    "of_producer 1 (put (q_out ?s)) = put_by 1 (next_j ?s ! 1)" by simp_all
  moreover have "put (q_out ?s) = [21] \<and> put_by 1 (next_j ?s ! 1) = [21] \<and> qcons ?s = [Q_Call, Q_Call]" by code_simp
  ultimately show ?thesis by (simp add: Let_def)
qed

end
