(* ===== verification/CondCount.thy ===== *)
theory CondCount
  imports Systems
begin

text \<open>
  \<open>produce_consume/model1/main3.go\<close>: five producers and two consumers count products under one lock, and
  wait on one condition variable, producers when 20 products are in stock, consumers when none is.
  A critical section is one step; \<open>Wait\<close> ends it, and a goroutine that has been woken takes the lock
  and tests again, which is the same step as on its first try. \<open>Signal\<close> wakes the goroutine that has
  waited longest, of either kind.
\<close>

section \<open>The program\<close>

definition PRODUCERS :: nat where "PRODUCERS = 5"
definition CONSUMERS :: nat where "CONSUMERS = 2"
definition PRODUCTS :: int where "PRODUCTS = 20"
definition TOTAL_PRODUCTS :: int where "TOTAL_PRODUCTS = int PRODUCERS * PRODUCTS"

lemmas cc_consts [simp] = PRODUCERS_def CONSUMERS_def PRODUCTS_def TOTAL_PRODUCTS_def

text \<open>Before the lock, waiting on the condition, before the deferred \<open>wg.Done\<close>, returned.\<close>

datatype cc_pc = L_Lock | L_Wait | L_Exit | L_End

datatype cc_event = is_made: Producer_Made nat int | is_took: Consumer_Took nat int
  | is_last: Last_Took nat int | All_Done

text \<open>Goroutines 0 and 1 run \<open>Consume\<close>, the others \<open>Produce\<close>. \<open>waitq\<close> is the queue of the condition.\<close>

record cc_sys =
  productCount :: int
  producedCount :: int
  all_made :: bool
  waitq :: "nat list"
  pcs :: "cc_pc list"
  cc_over :: bool
  cc_out :: "cc_event list"

definition cc_start :: cc_sys where
  "cc_start = \<lparr>productCount = 0, producedCount = 0, all_made = False, waitq = [],
     pcs = replicate (PRODUCERS + CONSUMERS) L_Lock, cc_over = False, cc_out = []\<rparr>"

definition cond_wait :: "nat \<Rightarrow> cc_sys \<Rightarrow> cc_sys" where
  "cond_wait g s = s\<lparr>waitq := waitq s @ [g], pcs := (pcs s)[g := L_Wait]\<rparr>"

definition cond_signal :: "cc_sys \<Rightarrow> cc_sys" where
  "cond_signal s = (case waitq s of [] \<Rightarrow> s | w # ws \<Rightarrow> s\<lparr>waitq := ws, pcs := (pcs s)[w := L_Lock]\<rparr>)"

definition cond_broadcast :: "cc_sys \<Rightarrow> cc_sys" where
  "cond_broadcast s = s\<lparr>waitq := [], pcs := map (\<lambda>p. if p = L_Wait then L_Lock else p) (pcs s)\<rparr>"

definition Produce :: "nat \<Rightarrow> cc_sys \<Rightarrow> cc_sys" where
  "Produce g s =
     (if productCount s \<ge> PRODUCTS \<and> \<not> all_made s then cond_wait g s
      else if all_made s then s\<lparr>pcs := (pcs s)[g := L_Exit]\<rparr>
      else
        let s = s\<lparr>productCount := productCount s + 1, producedCount := producedCount s + 1\<rparr>;
            s = s\<lparr>cc_out := cc_out s @ [Producer_Made (g - CONSUMERS) (productCount s)]\<rparr>
        in if producedCount s \<ge> TOTAL_PRODUCTS then cond_broadcast (s\<lparr>all_made := True\<rparr>)
           else cond_signal s)"

text \<open>The loop over what is left when the goroutine finds that all products have been made.\<close>

definition take_rest :: "nat \<Rightarrow> int \<Rightarrow> cc_event list" where
  "take_rest g n = map (Last_Took g) (rev [1..n])"

definition Consume :: "nat \<Rightarrow> cc_sys \<Rightarrow> cc_sys" where
  "Consume g s =
     (if productCount s \<le> 0 \<and> \<not> all_made s then cond_wait g s
      else if all_made s
        then s\<lparr>cc_out := cc_out s @ take_rest g (productCount s), pcs := (pcs s)[g := L_Exit]\<rparr>
      else
        let s = s\<lparr>productCount := productCount s - 1\<rparr>;
            s = s\<lparr>cc_out := cc_out s @ [Consumer_Took g (productCount s)]\<rparr>
        in cond_signal s)"

inductive cc_step :: "cc_sys \<Rightarrow> cc_sys \<Rightarrow> bool" where
  consume: "\<not> cc_over s \<Longrightarrow> g < CONSUMERS \<Longrightarrow> pcs s ! g = L_Lock \<Longrightarrow> cc_step s (Consume g s)"
| produce: "\<not> cc_over s \<Longrightarrow> CONSUMERS \<le> g \<Longrightarrow> g < length (pcs s) \<Longrightarrow> pcs s ! g = L_Lock \<Longrightarrow>
     cc_step s (Produce g s)"
| wg_done: "\<not> cc_over s \<Longrightarrow> g < length (pcs s) \<Longrightarrow> pcs s ! g = L_Exit \<Longrightarrow>
     cc_step s (s\<lparr>pcs := (pcs s)[g := L_End]\<rparr>)"
| main_done: "\<not> cc_over s \<Longrightarrow> list_all (\<lambda>p. p = L_End) (pcs s) \<Longrightarrow>
     cc_step s (s\<lparr>cc_over := True, cc_out := cc_out s @ [All_Done]\<rparr>)"

inductive_cases cc_stepE [step_elims]: "cc_step s s'"

inductive cc_reach :: "cc_sys \<Rightarrow> bool" where
  init: "cc_reach cc_start"
| step: "cc_reach s \<Longrightarrow> cc_step s s' \<Longrightarrow> cc_reach s'"

section \<open>The invariant\<close>

text \<open>
  A waiting producer has seen 20 products, and every signal since then has changed the stock by one and
  brought it one place forward in the queue; so at place \<open>k\<close> of at most 7 there are still \<open>14 + k\<close>
  products. For a waiting consumer there are at most \<open>6 - k\<close>. So never do both kinds wait together.
\<close>

definition waiting_ok :: "cc_sys \<Rightarrow> bool" where
  "waiting_ok s \<longleftrightarrow> distinct (waitq s) \<and> (\<forall>g. g \<in> set (waitq s) \<longleftrightarrow> g < 7 \<and> pcs s ! g = L_Wait) \<and>
     (\<forall>k < length (waitq s). if waitq s ! k < 2 then productCount s + int k \<le> 6 else 14 + int k \<le> productCount s)"

fun gone :: "cc_pc \<Rightarrow> bool" where
  "gone L_Exit = True" | "gone L_End = True" | "gone _ = False"

definition cc_inv :: "cc_sys \<Rightarrow> bool" where
  "cc_inv s \<longleftrightarrow> length (pcs s) = 7 \<and> waiting_ok s \<and> 0 \<le> productCount s \<and> productCount s \<le> 20 \<and>
     (if all_made s then producedCount s = 100 \<and> 1 \<le> productCount s \<and> waitq s = []
      else producedCount s < 100 \<and> list_all (\<lambda>p. \<not> gone p) (pcs s)) \<and>
     (cc_over s \<longrightarrow> list_all (\<lambda>p. p = L_End) (pcs s))"

lemma cc_inv_start: "cc_inv cc_start"
  by (simp add: cc_inv_def cc_start_def waiting_ok_def list_all_length nth_Cons split: nat.split)

lemma length_waitq:
  assumes "waiting_ok s"
  shows "length (waitq s) \<le> card {g. g < 7 \<and> pcs s ! g = L_Wait}"
proof -
  have "set (waitq s) = {g. g < 7 \<and> pcs s ! g = L_Wait}" using assms by (auto simp: waiting_ok_def)
  then show ?thesis using assms distinct_card [of "waitq s"] by (simp add: waiting_ok_def)
qed

text \<open>A goroutine that is about to wait is not among the at most 6 that do.\<close>

lemma waitq_room:
  assumes "waiting_ok s" "g < 7" "pcs s ! g \<noteq> L_Wait"
  shows "length (waitq s) \<le> 6"
proof -
  have "{g. g < 7 \<and> pcs s ! g = L_Wait} \<subseteq> {..<7} - {g}" using assms(3) by auto
  then have "card {g. g < 7 \<and> pcs s ! g = L_Wait} \<le> card ({..<7} - {g})" by (intro card_mono) auto
  then show ?thesis using length_waitq [OF assms(1)] assms(2) by simp
qed

lemma waiting_ok_wait:
  assumes "waiting_ok s" "length (pcs s) = 7" "g < 7" "pcs s ! g = L_Lock"
    and "if g < 2 then productCount s \<le> 0 else 20 \<le> productCount s"
  shows "waiting_ok (cond_wait g s)"
proof -
  have "length (waitq s) \<le> 6" using waitq_room [OF assms(1,3)] assms(4) by simp
  moreover have "g \<notin> set (waitq s)" using assms(1,4) by (simp add: waiting_ok_def)
  ultimately show ?thesis
    using assms by (auto simp: waiting_ok_def cond_wait_def nth_append nth_list_update less_Suc_eq split: if_splits)
qed

text \<open>One product more or less, and one signal.\<close>

lemma waiting_ok_signal:
  assumes "waiting_ok s" "length (pcs s) = 7" "c = productCount s + 1 \<or> c = productCount s - 1"
  shows "waiting_ok (cond_signal (s\<lparr>productCount := c, producedCount := n, cc_out := es\<rparr>))"
proof (cases "waitq s")
  case Nil
  then show ?thesis using assms(1) by (simp add: waiting_ok_def cond_signal_def)
next
  case (Cons w ws)
  have w: "w < 7" "w \<notin> set ws" using assms(1) Cons by (auto simp: waiting_ok_def)
  have pos: "if ws ! k < 2 then c + int k \<le> 6 else 14 + int k \<le> c" if "k < length ws" for k
  proof -
    have "Suc k < length (waitq s)" using that Cons by simp
    with assms(1) have "if waitq s ! Suc k < 2 then productCount s + int (Suc k) \<le> 6 else 14 + int (Suc k) \<le> productCount s"
      unfolding waiting_ok_def by blast
    then show ?thesis using assms(3) Cons by (auto split: if_splits)
  qed
  have "g \<in> set ws \<longleftrightarrow> g < 7 \<and> (pcs s)[w := L_Lock] ! g = L_Wait" for g
    using assms(1,2) Cons w by (cases "g = w") (auto simp: waiting_ok_def)
  then show ?thesis using assms(1) Cons pos by (simp add: waiting_ok_def cond_signal_def)
qed


lemma waiting_ok_broadcast:
  assumes "length (pcs s) = 7"
  shows "waiting_ok (cond_broadcast s)"
proof -
  have "(if p = L_Wait then L_Lock else p) \<noteq> L_Wait" for p by simp
  then show ?thesis using assms by (auto simp: waiting_ok_def cond_broadcast_def)
qed

text \<open>A step that changes neither the queue nor the products, of a goroutine that is not waiting.\<close>

lemma waiting_ok_move:
  assumes "waiting_ok s" "pcs s ! g \<noteq> L_Wait" "p \<noteq> L_Wait" "length (pcs s) = 7" "g < 7"
  shows "waiting_ok (s\<lparr>pcs := (pcs s)[g := p]\<rparr>)"
  using assms by (auto simp: waiting_ok_def nth_list_update split: if_splits)

lemma waiting_ok_cong [simp]:
  "waiting_ok (s\<lparr>producedCount := n\<rparr>) = waiting_ok s"
  "waiting_ok (s\<lparr>cc_out := es\<rparr>) = waiting_ok s"
  "waiting_ok (s\<lparr>cc_over := b\<rparr>) = waiting_ok s"
  by (simp_all add: waiting_ok_def)


lemma signal_frame [simp]:
  "productCount (cond_signal s) = productCount s" "producedCount (cond_signal s) = producedCount s"
  "all_made (cond_signal s) = all_made s" "cc_over (cond_signal s) = cc_over s"
  "cc_out (cond_signal s) = cc_out s" "length (pcs (cond_signal s)) = length (pcs s)"
  by (simp_all add: cond_signal_def split: list.split)

lemma broadcast_frame [simp]:
  "productCount (cond_broadcast s) = productCount s" "producedCount (cond_broadcast s) = producedCount s"
  "all_made (cond_broadcast s) = all_made s" "cc_over (cond_broadcast s) = cc_over s"
  "cc_out (cond_broadcast s) = cc_out s" "length (pcs (cond_broadcast s)) = length (pcs s)"
  "waitq (cond_broadcast s) = []"
  by (simp_all add: cond_broadcast_def)

text \<open>Waking a goroutine does not bring it nearer to its return, nor does waiting.\<close>

lemma gone_broadcast [simp]: "g < length (pcs s) \<Longrightarrow> gone (pcs (cond_broadcast s) ! g) = gone (pcs s ! g)"
  by (simp add: cond_broadcast_def)

lemma none_gone_signal:
  "list_all (\<lambda>p. \<not> gone p) (pcs s) \<Longrightarrow> list_all (\<lambda>p. \<not> gone p) (pcs (cond_signal s))"
  by (simp add: cond_signal_def list_all_update split: list.split)

lemma none_gone_wait:
  "list_all (\<lambda>p. \<not> gone p) (pcs s) \<Longrightarrow> list_all (\<lambda>p. \<not> gone p) (pcs (cond_wait g s))"
  by (simp add: cond_wait_def list_all_update)

lemma cc_inv_wait:
  assumes "cc_inv s" "\<not> cc_over s" "\<not> all_made s" "g < 7" "pcs s ! g = L_Lock"
    and "if g < 2 then productCount s \<le> 0 else 20 \<le> productCount s"
  shows "cc_inv (cond_wait g s)"
proof -
  have "waiting_ok (cond_wait g s)" using waiting_ok_wait assms by (simp add: cc_inv_def)
  moreover have "list_all (\<lambda>p. \<not> gone p) (pcs (cond_wait g s))" using none_gone_wait assms by (simp add: cc_inv_def)
  ultimately show ?thesis using assms by (simp add: cc_inv_def cond_wait_def)
qed

text \<open>A product made or taken, with the signal that follows.\<close>

lemma cc_inv_signal:
  assumes "cc_inv s" "\<not> cc_over s" "\<not> all_made s" "n < 100" "0 \<le> c" "c \<le> 20"
    and "c = productCount s + 1 \<or> c = productCount s - 1"
  shows "cc_inv (cond_signal (s\<lparr>productCount := c, producedCount := n, cc_out := es\<rparr>))"
proof -
  have "waiting_ok (cond_signal (s\<lparr>productCount := c, producedCount := n, cc_out := es\<rparr>))"
    using waiting_ok_signal assms(1,7) by (simp add: cc_inv_def)
  moreover have "list_all (\<lambda>p. \<not> gone p) (pcs (cond_signal (s\<lparr>productCount := c, producedCount := n, cc_out := es\<rparr>)))"
    by (rule none_gone_signal) (use assms in \<open>simp add: cc_inv_def\<close>)
  ultimately show ?thesis using assms by (simp add: cc_inv_def)
qed

lemma cc_inv_Produce:
  assumes "cc_inv s" "\<not> cc_over s" "2 \<le> g" "g < 7" "pcs s ! g = L_Lock"
  shows "cc_inv (Produce g s)"
proof -
  consider "productCount s \<ge> 20 \<and> \<not> all_made s" | "all_made s"
    | "productCount s < 20" "\<not> all_made s" "producedCount s < 99"
    | "productCount s < 20" "\<not> all_made s" "producedCount s = 99"
    using assms(1) by (fastforce simp: cc_inv_def)
  then show ?thesis
  proof cases
    case 1
    then show ?thesis using cc_inv_wait assms by (simp add: Produce_def)
  next
    case 2
    then show ?thesis using assms waiting_ok_move [of s g L_Exit]
      by (simp add: Produce_def cc_inv_def)
  next
    case 3
    then have "cc_inv (cond_signal (s\<lparr>productCount := productCount s + 1, producedCount := producedCount s + 1,
        cc_out := cc_out s @ [Producer_Made (g - CONSUMERS) (productCount s + 1)]\<rparr>))"
      using assms by (intro cc_inv_signal) (simp_all add: cc_inv_def)
    with 3 show ?thesis by (simp add: Produce_def Let_def)
  next
    case 4
    then show ?thesis using assms by (simp add: Produce_def Let_def cc_inv_def waiting_ok_broadcast)
  qed
qed

lemma cc_inv_Consume:
  assumes "cc_inv s" "\<not> cc_over s" "g < 2" "pcs s ! g = L_Lock"
  shows "cc_inv (Consume g s)"
proof -
  consider "productCount s \<le> 0 \<and> \<not> all_made s" | "all_made s" | "0 < productCount s" "\<not> all_made s" by linarith
  then show ?thesis
  proof cases
    case 1
    then show ?thesis using cc_inv_wait assms by (simp add: Consume_def)
  next
    case 2
    then show ?thesis using assms waiting_ok_move [of "s\<lparr>cc_out := cc_out s @ take_rest g (productCount s)\<rparr>" g L_Exit]
      by (simp add: Consume_def cc_inv_def)
  next
    case 3
    then have "cc_inv (cond_signal (s\<lparr>productCount := productCount s - 1, producedCount := producedCount s,
        cc_out := cc_out s @ [Consumer_Took g (productCount s - 1)]\<rparr>))"
      using assms by (intro cc_inv_signal) (simp_all add: cc_inv_def)
    with 3 show ?thesis by (simp add: Consume_def Let_def)
  qed
qed

lemma cc_inv_step:
  assumes "cc_inv s" "cc_step s s'"
  shows "cc_inv s'"
  using assms(2)
proof cases
  case (consume g)
  then show ?thesis using cc_inv_Consume assms(1) by simp
next
  case (produce g)
  then show ?thesis using cc_inv_Produce assms(1) by (simp add: cc_inv_def)
next
  case (wg_done g)
  then have "all_made s" using assms(1) by (auto simp: cc_inv_def list_all_length split: if_splits)
  with wg_done show ?thesis using assms(1) waiting_ok_move [of s g L_End] by (simp add: cc_inv_def)
next
  case main_done
  then show ?thesis using assms(1) by (simp add: cc_inv_def)
qed


section \<open>The end of the run\<close>

text \<open>What is left to do. A product made costs more than the wakes and takes it makes possible.\<close>

fun cc_pc_work :: "cc_pc \<Rightarrow> nat" where
  "cc_pc_work L_Lock = 3" | "cc_pc_work L_Wait = 0" | "cc_pc_work L_Exit = 1" | "cc_pc_work L_End = 0"

definition cc_work :: "cc_sys \<Rightarrow> nat" where
  "cc_work s = 26 * nat (100 - producedCount s) + 4 * nat (productCount s) +
     sum_list (map cc_pc_work (pcs s)) + (if cc_over s then 0 else 1)"

lemmas pc_work_update = sum_list_map_update [where f = cc_pc_work]

lemma pc_work_broadcast: "sum_list (map cc_pc_work (pcs (cond_broadcast s))) \<le> 3 * length (pcs s)"
proof -
  have "cc_pc_work p \<le> 3" for p by (cases p) auto
  from sum_list_map_bound [of cc_pc_work 3, OF this] show ?thesis by (metis broadcast_frame(6))
qed

text \<open>A signal wakes at most one goroutine.\<close>

lemma pc_work_signal:
  assumes "waiting_ok s" "length (pcs s) = 7"
  shows "sum_list (map cc_pc_work (pcs (cond_signal s))) \<le> sum_list (map cc_pc_work (pcs s)) + 3"
proof (cases "waitq s")
  case (Cons w ws)
  then have "w \<in> set (waitq s)" by simp
  then have "w < 7" "pcs s ! w = L_Wait" using assms(1) unfolding waiting_ok_def by blast+
  then show ?thesis using pc_work_update [of w "pcs s" L_Lock] Cons assms(2) by (simp add: cond_signal_def)
qed (simp add: cond_signal_def)

lemma cc_work_signal:
  assumes "cc_inv s" "\<not> all_made s"
    and "c = productCount s + 1 \<and> n = producedCount s + 1 \<or> c = productCount s - 1 \<and> 0 \<le> c \<and> n = producedCount s"
  shows "cc_work (cond_signal (s\<lparr>productCount := c, producedCount := n, cc_out := es\<rparr>)) < cc_work s"
proof -
  let ?t = "s\<lparr>productCount := c, producedCount := n, cc_out := es\<rparr>"
  have "cond_signal ?t = (cond_signal s)\<lparr>productCount := c, producedCount := n, cc_out := es\<rparr>"
    by (simp add: cond_signal_def split: list.split)
  then have "pcs (cond_signal ?t) = pcs (cond_signal s)" by simp
  then have "sum_list (map cc_pc_work (pcs (cond_signal ?t))) \<le> sum_list (map cc_pc_work (pcs s)) + 3"
    using pc_work_signal [of s] assms(1) by (simp add: cc_inv_def)
  moreover have "26 * nat (100 - n) + 4 * nat c + 4 \<le> 26 * nat (100 - producedCount s) + 4 * nat (productCount s)"
    using assms by (auto simp: cc_inv_def)
  ultimately show ?thesis by (simp add: cc_work_def)
qed

lemma cc_work_move:
  assumes "g < length (pcs s)" "cc_pc_work p < cc_pc_work (pcs s ! g)"
  shows "cc_work (s\<lparr>pcs := (pcs s)[g := p]\<rparr>) < cc_work s"
    and "cc_work (s\<lparr>cc_out := es, pcs := (pcs s)[g := p]\<rparr>) < cc_work s"
    and "cc_work (s\<lparr>waitq := q, pcs := (pcs s)[g := p]\<rparr>) < cc_work s"
  using pc_work_update [of g "pcs s" p] assms by (simp_all add: cc_work_def)

lemma cc_work_broadcast:
  assumes "cc_inv s" "producedCount s = 99" "c = productCount s + 1"
  shows "cc_work (cond_broadcast (s\<lparr>productCount := c, producedCount := 100, cc_out := es, all_made := True\<rparr>)) < cc_work s"
proof -
  let ?t = "s\<lparr>productCount := c, producedCount := 100, cc_out := es, all_made := True\<rparr>"
  have "sum_list (map cc_pc_work (pcs (cond_broadcast ?t))) \<le> 21"
    using pc_work_broadcast [of ?t] assms(1) by (simp add: cc_inv_def)
  then show ?thesis using assms by (simp add: cc_work_def cc_inv_def)
qed

lemma cc_work_Produce:
  assumes "cc_inv s" "g < 7" "pcs s ! g = L_Lock"
  shows "cc_work (Produce g s) < cc_work s"
proof -
  have l: "length (pcs s) = 7" using assms(1) by (simp add: cc_inv_def)
  consider "productCount s \<ge> 20 \<and> \<not> all_made s" | "all_made s"
    | "productCount s < 20" "\<not> all_made s" "producedCount s < 99"
    | "productCount s < 20" "\<not> all_made s" "producedCount s = 99"
    using assms(1) by (fastforce simp: cc_inv_def)
  then show ?thesis
  proof cases
    case 1
    then show ?thesis using cc_work_move(3) [of g s L_Wait] assms l by (simp add: Produce_def cond_wait_def)
  next
    case 2
    then show ?thesis using cc_work_move(1) [of g s L_Exit] assms l by (simp add: Produce_def)
  next
    case 3
    then show ?thesis using cc_work_signal [of s "productCount s + 1" "producedCount s + 1"] assms(1)
      by (simp add: Produce_def Let_def)
  next
    case 4
    then show ?thesis using cc_work_broadcast [of s "productCount s + 1"] assms(1) by (simp add: Produce_def Let_def)
  qed
qed

lemma cc_work_Consume:
  assumes "cc_inv s" "g < 7" "pcs s ! g = L_Lock"
  shows "cc_work (Consume g s) < cc_work s"
proof -
  have l: "length (pcs s) = 7" using assms(1) by (simp add: cc_inv_def)
  consider "productCount s \<le> 0 \<and> \<not> all_made s" | "all_made s" | "0 < productCount s" "\<not> all_made s" by linarith
  then show ?thesis
  proof cases
    case 1
    then show ?thesis using cc_work_move(3) [of g s L_Wait] assms l by (simp add: Consume_def cond_wait_def)
  next
    case 2
    then show ?thesis using cc_work_move(2) [of g s L_Exit] assms l by (simp add: Consume_def)
  next
    case 3
    then show ?thesis using cc_work_signal [of s "productCount s - 1" "producedCount s"] assms(1)
      by (simp add: Consume_def Let_def)
  qed
qed

lemma cc_work_step:
  assumes "cc_inv s" "cc_step s s'"
  shows "cc_work s' < cc_work s"
  using assms(2)
proof cases
  case (consume g)
  then show ?thesis using cc_work_Consume assms(1) by simp
next
  case (produce g)
  then show ?thesis using cc_work_Produce assms(1) by (simp add: cc_inv_def)
next
  case (wg_done g)
  then show ?thesis using cc_work_move(1) [of g s L_End] by simp
next
  case main_done
  then show ?thesis by (simp add: cc_work_def)
qed

text \<open>
  Before all products are made nobody has returned; if everybody waited, both kinds would, the first
  kind because there are 20 products and the other because there are none.
\<close>

lemma cc_progress:
  assumes "cc_inv s" "\<not> cc_over s"
  shows "\<exists>s'. cc_step s s'"
proof (rule ccontr)
  assume stuck: "\<nexists>s'. cc_step s s'"
  have l: "length (pcs s) = 7" using assms(1) by (simp add: cc_inv_def)
  have still: "pcs s ! g = L_Wait \<or> pcs s ! g = L_End" if "g < 7" for g
  proof (cases "pcs s ! g")
    case L_Lock
    then show ?thesis using stuck cc_step.consume [of s g] cc_step.produce [of s g] assms(2) that l
      by (cases "g < 2") auto
  next
    case L_Exit
    then show ?thesis using stuck cc_step.wg_done [of s g] assms(2) that l by auto
  qed auto
  have w: "waiting_ok s" using assms(1) by (simp add: cc_inv_def)
  show False
  proof (cases "all_made s")
    case True
    then have "waitq s = []" using assms(1) by (simp add: cc_inv_def)
    then have "pcs s ! g \<noteq> L_Wait" if "g < 7" for g using w that by (auto simp: waiting_ok_def)
    then have "list_all (\<lambda>p. p = L_End) (pcs s)" using still l by (auto simp: list_all_length)
    then show False using stuck cc_step.main_done assms(2) by blast
  next
    case False
    then have "\<not> gone (pcs s ! g)" if "g < 7" for g using assms(1) that by (auto simp: cc_inv_def list_all_length)
    then have all: "g \<in> set (waitq s)" if "g < 7" for g using still [OF that] that w unfolding waiting_ok_def by fastforce
    obtain i where i: "i < length (waitq s)" "waitq s ! i = 0" using all [of 0] by (auto simp: in_set_conv_nth)
    obtain j where j: "j < length (waitq s)" "waitq s ! j = 2" using all [of 2] by (auto simp: in_set_conv_nth)
    have "productCount s + int i \<le> 6" using w i unfolding waiting_ok_def by (metis zero_less_numeral)
    moreover have "14 + int j \<le> productCount s" using w j unfolding waiting_ok_def by (metis less_irrefl)
    ultimately show False by linarith
  qed
qed

interpretation cc: terminating_system cc_step cc_inv cc_work cc_over
  by unfold_locales (auto intro: cc_inv_step cc_work_step cc_progress)

lemma cc_inv_reach: "cc_reach s \<Longrightarrow> cc_inv s"
  by (induction rule: cc_reach.induct) (auto intro: cc_inv_start cc_inv_step)


section \<open>What is printed\<close>

definition returned :: "cc_sys \<Rightarrow> nat \<Rightarrow> int" where
  "returned s g = of_bool (gone (pcs s ! g))"

definition cc_log :: "cc_sys \<Rightarrow> bool" where
  "cc_log s \<longleftrightarrow>
     int (length (filter is_made (cc_out s))) = producedCount s \<and>
     int (length (filter is_took (cc_out s))) = producedCount s - productCount s \<and>
     int (length (filter is_last (cc_out s))) = productCount s * (returned s 0 + returned s 1)"

lemma none_returned: "cc_inv s \<Longrightarrow> \<not> all_made s \<Longrightarrow> g < 7 \<Longrightarrow> returned s g = 0"
  by (auto simp: cc_inv_def returned_def list_all_length)

lemma filter_take_rest [simp]:
  "filter is_made (take_rest g n) = []" "filter is_took (take_rest g n) = []"
  "length (filter is_last (take_rest g n)) = nat n"
  by (auto simp: take_rest_def filter_map o_def)

lemma cc_log_wait: "cc_log s \<Longrightarrow> cc_inv s \<Longrightarrow> pcs s ! g = L_Lock \<Longrightarrow> cc_log (cond_wait g s)"
proof -
  assume a: "cc_log s" "cc_inv s" "pcs s ! g = L_Lock"
  have "gone ((pcs s)[g := L_Wait] ! k) = gone (pcs s ! k)" if "k < 7" for k
    using a(2,3) that by (cases "k = g") (simp_all add: cc_inv_def)
  with a(1) show ?thesis by (simp add: cc_log_def cond_wait_def returned_def)
qed

lemma cc_log_Produce:
  assumes "cc_log s" "cc_inv s" "\<not> cc_over s" "2 \<le> g" "g < 7" "pcs s ! g = L_Lock"
  shows "cc_log (Produce g s)"
proof -
  consider "productCount s \<ge> 20 \<and> \<not> all_made s" | "all_made s"
    | "productCount s < 20" "\<not> all_made s" "producedCount s < 99"
    | "productCount s < 20" "\<not> all_made s" "producedCount s = 99"
    using assms(2) by (fastforce simp: cc_inv_def)
  then show ?thesis
  proof cases
    case 1
    then show ?thesis using cc_log_wait assms by (simp add: Produce_def)
  next
    case 2
    then show ?thesis using assms by (simp add: Produce_def cc_log_def returned_def)
  next
    case 3
    then have "\<not> all_made (Produce g s)" by (simp add: Produce_def Let_def)
    then have "returned (Produce g s) k = 0 \<and> returned s k = 0" if "k < 7" for k
      using none_returned cc_inv_Produce assms 3 that by simp
    then show ?thesis using 3 assms(1) by (simp add: cc_log_def) (simp add: Produce_def Let_def)
  next
    case 4
    then have "returned s k = 0" if "k < 7" for k using none_returned assms that by simp
    moreover have "returned (Produce g s) k = returned s k" if "k < 7" for k
      using 4 assms(2) that by (simp add: Produce_def Let_def returned_def cc_inv_def)
    ultimately show ?thesis using 4 assms(1) by (simp add: cc_log_def) (simp add: Produce_def Let_def)
  qed
qed

lemma cc_log_Consume:
  assumes "cc_log s" "cc_inv s" "\<not> cc_over s" "g < 2" "pcs s ! g = L_Lock"
  shows "cc_log (Consume g s)"
proof -
  consider "productCount s \<le> 0 \<and> \<not> all_made s" | "all_made s" | "0 < productCount s" "\<not> all_made s" by linarith
  then show ?thesis
  proof cases
    case 1
    then show ?thesis using cc_log_wait assms by (simp add: Consume_def)
  next
    case 2
    then show ?thesis using assms
      by (auto simp: Consume_def cc_log_def returned_def cc_inv_def less_2_cases_iff nth_list_update algebra_simps)
  next
    case 3
    then have "\<not> all_made (Consume g s)" by (simp add: Consume_def Let_def)
    then have "returned (Consume g s) k = 0 \<and> returned s k = 0" if "k < 7" for k
      using none_returned cc_inv_Consume assms 3 that by simp
    then show ?thesis using 3 assms(1) by (simp add: cc_log_def) (simp add: Consume_def Let_def)
  qed
qed

lemma cc_log_step:
  assumes "cc_log s" "cc_inv s" "cc_step s s'"
  shows "cc_log s'"
  using assms(3)
proof cases
  case (consume g)
  then show ?thesis using cc_log_Consume assms by simp
next
  case (produce g)
  then show ?thesis using cc_log_Produce assms by (simp add: cc_inv_def)
next
  case (wg_done g)
  then have "gone ((pcs s)[g := L_End] ! k) = gone (pcs s ! k)" for k by (cases "k = g") simp_all
  with wg_done show ?thesis using assms(1) by (simp add: cc_log_def returned_def)
next
  case main_done
  then show ?thesis using assms(1) by (simp add: cc_log_def returned_def)
qed

lemma cc_log_reach: "cc_reach s \<Longrightarrow> cc_log s"
proof (induction rule: cc_reach.induct)
  case init
  show ?case by (simp add: cc_log_def cc_start_def returned_def)
qed (auto intro: cc_log_step cc_inv_reach)

text \<open>C20: In the program with the condition variable the stock stays between 0 and 20 and no more than
  100 products are made; no interleaving deadlocks or runs forever, although producers and consumers
  wait on one condition and each \<open>Signal\<close> wakes one goroutine of either kind. When \<open>main\<close> returns,
  100 products were made and between 1 and 20, \<open>k\<close>, were still in stock; 100 - k were consumed one
  by one, and each of the two consumers has reported the same \<open>k\<close> as consumed last: 100 + k reports for
  100 products.\<close>

theorem cond_program_ends:
  assumes "cc_reach s"
  shows "(0 \<le> productCount s \<and> productCount s \<le> 20 \<and> producedCount s \<le> 100) \<and>
    (\<exists>s'. cc_step\<^sup>*\<^sup>* s s' \<and> cc_over s') \<and>
    (\<nexists>f. f 0 = s \<and> (\<forall>k. cc_step (f k) (f (Suc k)))) \<and>
    (cc_over s \<longrightarrow> (let k = nat (productCount s) in 1 \<le> k \<and>
       length (filter is_made (cc_out s)) = 100 \<and>
       length (filter is_took (cc_out s)) + k = 100 \<and>
       length (filter is_last (cc_out s)) = 2 * k))"
proof (intro conjI impI)
  have inv: "cc_inv s" and log: "cc_log s" using assms cc_inv_reach cc_log_reach by auto
  show "0 \<le> productCount s" "productCount s \<le> 20" "producedCount s \<le> 100"
    using inv by (auto simp: cc_inv_def split: if_splits)
  show "\<exists>s'. cc_step\<^sup>*\<^sup>* s s' \<and> cc_over s'" using cc.inevitable [OF inv] by blast
  show "\<nexists>f. f 0 = s \<and> (\<forall>k. cc_step (f k) (f (Suc k)))" using cc.no_infinite_run inv by blast
  assume over: "cc_over s"
  then have p: "pcs s ! g = L_End" if "g < 7" for g using inv that by (auto simp: cc_inv_def list_all_length)
  then have "returned s 0 = 1" "returned s 1 = 1" by (simp_all add: returned_def)

  moreover have "length (pcs s) = 7" using inv by (simp add: cc_inv_def)
  ultimately have made: "all_made s" "returned s 0 = 1" "returned s 1 = 1"
    using none_returned [OF inv, of 0] by auto
  show "let k = nat (productCount s) in 1 \<le> k \<and>
       length (filter is_made (cc_out s)) = 100 \<and>
       length (filter is_took (cc_out s)) + k = 100 \<and>
       length (filter is_last (cc_out s)) = 2 * k"
    using inv log made by (simp add: cc_inv_def cc_log_def Let_def) linarith
qed

text \<open>A consumer that comes first and a producer that wakes it.\<close>

theorem cond_program_ends_witness:
  "let s = Produce 2 (Consume 0 cc_start) in productCount s = 1 \<and> cc_out s = [Producer_Made 0 1] \<and>
     pcs s ! 0 = L_Lock \<and> (\<exists>s'. cc_step\<^sup>*\<^sup>* s s' \<and> cc_over s')"
proof -
  let ?s1 = "Consume 0 cc_start" and ?s = "Produce 2 (Consume 0 cc_start)"
  have "cc_reach ?s1" by (rule cc_reach.step [OF cc_reach.init], rule cc_step.consume) (simp_all add: cc_start_def)
  then have "cc_reach ?s" by (rule cc_reach.step, intro cc_step.produce)
      (simp_all add: cc_start_def Consume_def cond_wait_def)
  then have "\<exists>s'. cc_step\<^sup>*\<^sup>* ?s s' \<and> cc_over s'" using cond_program_ends by blast
  moreover have "productCount ?s = 1 \<and> cc_out ?s = [Producer_Made 0 1] \<and> pcs ?s ! 0 = L_Lock" by code_simp
  ultimately show ?thesis by (simp add: Let_def)
qed

end
