(* ===== verification/WorkerPool.thy ===== *)
theory WorkerPool
  imports GoChan "HOL-Library.Multiset"
begin

text \<open>
  \<open>handleMillionRequest/main.go\<close>: HTTP requests become jobs in a buffered queue; a dispatcher starts a
  goroutine per job, which takes a free worker out of the pool and hands it the job; a worker runs
  one job at a time and then offers itself again. The loop variable \<open>job\<close> of the dispatcher is
  captured by the goroutines it starts: one variable for all iterations before Go 1.22, one per
  iteration since; \<open>per_iter\<close> says which. Nothing calls \<open>stop\<close>, so no worker is ever told to quit.
\<close>

section \<open>The request handler\<close>

record job =
  jname :: string
  used :: int

text \<open>What the handler reads of a request: the method, the form value \<open>delay\<close> as \<open>time.ParseDuration\<close>
  reads it (in nanoseconds, \<open>None\<close>: an error), the form value \<open>name\<close>.\<close>

record request =
  req_method :: string
  req_delay :: "int option"
  req_name :: string

definition second :: int where "second = 10 ^ 9"

text \<open>
  The status codes written before the job is sent to the queue, and the job; without a job the
  handler has returned. After the job is sent 201 is written. The test for an empty name does not
  return.
\<close>

definition request_handler :: "request \<Rightarrow> nat list \<times> job option" where
  "request_handler r =
     (if req_method r \<noteq> ''POST'' then ([405], None)
      else case req_delay r of
        None \<Rightarrow> ([400], None)
      | Some delay \<Rightarrow>
          if delay < second \<or> delay > 10 * second then ([400], None)
          else
            let codes = (if req_name r = '''' then [400] else [])
            in (codes, Some \<lparr>jname = req_name r, used = delay\<rparr>))"

section \<open>The pool\<close>

text \<open>
  A goroutine of the dispatcher before it takes a worker, and before it sends to the worker's channel;
  \<open>None\<close>: its job is the shared loop variable. A worker before it offers its channel, at its \<open>select\<close>,
  and running a job.
\<close>

datatype dispatch_pc = D_Fetch "job option" | D_Send "job option" nat
datatype pool_pc = W_Offer | W_Select | W_Run job

record wp_sys =
  handlers :: "(request \<times> nat list \<times> job) list"
  replies :: "(request \<times> nat list) list"
  jobq :: "job chan"
  loopvar :: "job option"
  dispatchers :: "dispatch_pc list"
  wpool :: "nat list"
  wks :: "pool_pc list"
  started_jobs :: "job list"
  completed :: "job list"

definition wp_start :: "nat \<Rightarrow> nat \<Rightarrow> wp_sys" where
  "wp_start maxWorkers maxQueueSize = \<lparr>handlers = [], replies = [], jobq = make_chan maxQueueSize,
     loopvar = None, dispatchers = [], wpool = [], wks = replicate maxWorkers W_Offer,
     started_jobs = [], completed = []\<rparr>"

text \<open>A request arrives; what is left of its handler is the send to the queue.\<close>

definition arrive :: "request \<Rightarrow> wp_sys \<Rightarrow> wp_sys" where
  "arrive r s =
     (case request_handler r of
        (codes, None) \<Rightarrow> s\<lparr>replies := replies s @ [(r, codes)]\<rparr>
      | (codes, Some j) \<Rightarrow> s\<lparr>handlers := handlers s @ [(r, codes, j)]\<rparr>)"

definition drop_nth :: "nat \<Rightarrow> 'a list \<Rightarrow> 'a list" where
  "drop_nth i xs = take i xs @ drop (Suc i) xs"

definition enqueue :: "nat \<Rightarrow> wp_sys \<Rightarrow> wp_sys go_outcome" where
  "enqueue h s =
     (case handlers s ! h of (r, codes, j) \<Rightarrow>
        (case chan_send j (jobq s) of
           Does ch \<Rightarrow> Does (s\<lparr>handlers := drop_nth h (handlers s), jobq := ch,
             replies := replies s @ [(r, codes @ [201])]\<rparr>)
         | Blocks \<Rightarrow> Blocks | Panics \<Rightarrow> Panics))"

text \<open>One iteration of the loop in \<open>dispatch\<close>.\<close>

definition dispatch :: "bool \<Rightarrow> wp_sys \<Rightarrow> wp_sys go_outcome" where
  "dispatch per_iter s =
     (case chan_recv (jobq s) of
        Does (ch, Some j) \<Rightarrow> Does (s\<lparr>jobq := ch, loopvar := Some j,
          dispatchers := dispatchers s @ [D_Fetch (if per_iter then Some j else None)]\<rparr>)
      | _ \<Rightarrow> Blocks)"

text \<open>
  A goroutine of the dispatcher: it takes the channel of a worker out of the pool; it evaluates \<open>job\<close>
  and hands it to the worker, who receives it at its \<open>select\<close> in the same step.
\<close>

definition hand_over :: "nat \<Rightarrow> wp_sys \<Rightarrow> wp_sys option" where
  "hand_over d s =
     (case dispatchers s ! d of
        D_Fetch v \<Rightarrow>
          (case wpool s of
             [] \<Rightarrow> None
           | w # ws \<Rightarrow> Some (s\<lparr>wpool := ws, dispatchers := (dispatchers s)[d := D_Send v w]\<rparr>))
      | D_Send v w \<Rightarrow>
          (case (if v = None then loopvar s else v) of
             None \<Rightarrow> None
           | Some j \<Rightarrow>
               if wks s ! w = W_Select
               then Some (s\<lparr>dispatchers := drop_nth d (dispatchers s), wks := (wks s)[w := W_Run j],
                            started_jobs := started_jobs s @ [j]\<rparr>)
               else None))"

text \<open>The steps of a worker that it makes alone; the pool has room for every worker.\<close>

definition worker_step :: "nat \<Rightarrow> wp_sys \<Rightarrow> wp_sys option" where
  "worker_step w s =
     (case wks s ! w of
        W_Offer \<Rightarrow>
          if length (wpool s) < length (wks s)
          then Some (s\<lparr>wpool := wpool s @ [w], wks := (wks s)[w := W_Select]\<rparr>) else None
      | W_Select \<Rightarrow> None
      | W_Run j \<Rightarrow> Some (s\<lparr>completed := completed s @ [j], wks := (wks s)[w := W_Offer]\<rparr>))"

text \<open>The steps that work off what has arrived, and all steps.\<close>

inductive wp_step :: "bool \<Rightarrow> wp_sys \<Rightarrow> wp_sys \<Rightarrow> bool" for per_iter :: bool where
  enqueue: "h < length (handlers s) \<Longrightarrow> enqueue h s = Does s' \<Longrightarrow> wp_step per_iter s s'"
| dispatch: "dispatch per_iter s = Does s' \<Longrightarrow> wp_step per_iter s s'"
| hand_over: "d < length (dispatchers s) \<Longrightarrow> hand_over d s = Some s' \<Longrightarrow> wp_step per_iter s s'"
| worker: "w < length (wks s) \<Longrightarrow> worker_step w s = Some s' \<Longrightarrow> wp_step per_iter s s'"

inductive_cases wp_stepE [step_elims]: "wp_step per_iter s s'"

inductive wp_reach :: "bool \<Rightarrow> nat \<Rightarrow> nat \<Rightarrow> wp_sys \<Rightarrow> bool"
  for per_iter :: bool and maxWorkers maxQueueSize :: nat where
  init: "wp_reach per_iter maxWorkers maxQueueSize (wp_start maxWorkers maxQueueSize)"
| arrive: "wp_reach per_iter maxWorkers maxQueueSize s \<Longrightarrow> wp_reach per_iter maxWorkers maxQueueSize (arrive r s)"
| step: "wp_reach per_iter maxWorkers maxQueueSize s \<Longrightarrow> wp_step per_iter s s' \<Longrightarrow>
     wp_reach per_iter maxWorkers maxQueueSize s'"

section \<open>Where the jobs are\<close>

fun disp_job :: "dispatch_pc \<Rightarrow> job list" where
  "disp_job (D_Fetch (Some j)) = [j]" | "disp_job (D_Send (Some j) w) = [j]" | "disp_job _ = []"

fun disp_worker :: "dispatch_pc \<Rightarrow> nat list" where
  "disp_worker (D_Fetch v) = []" | "disp_worker (D_Send v w) = [w]"

fun run_job :: "pool_pc \<Rightarrow> job list" where
  "run_job (W_Run j) = [j]" | "run_job _ = []"

text \<open>The jobs of the requests that were answered with 201, as the handler makes them.\<close>

definition accepted_jobs :: "wp_sys \<Rightarrow> job list" where
  "accepted_jobs s = concat (map (\<lambda>(r, codes). if 201 \<in> set codes
     then (case snd (request_handler r) of None \<Rightarrow> [] | Some j \<Rightarrow> [j]) else []) (replies s))"

definition jobs_inv :: "wp_sys \<Rightarrow> bool" where
  "jobs_inv s \<longleftrightarrow>
     list_all (\<lambda>(r, codes, j). request_handler r = (codes, Some j)) (handlers s) \<and>
     mset (accepted_jobs s) = mset (cbuf (jobq s)) + mset (concat (map disp_job (dispatchers s))) +
       mset (concat (map run_job (wks s))) + mset (completed s) \<and>
     mset (started_jobs s) = mset (concat (map run_job (wks s))) + mset (completed s) \<and>
     list_all (\<lambda>d. disp_job d \<noteq> []) (dispatchers s) \<and> \<not> closed (jobq s)"

definition free_workers :: "wp_sys \<Rightarrow> nat list" where
  "free_workers s = wpool s @ concat (map disp_worker (dispatchers s))"

definition workers_inv :: "wp_sys \<Rightarrow> bool" where
  "workers_inv s \<longleftrightarrow> distinct (free_workers s) \<and> length (wpool s) \<le> length (wks s) \<and>
     (\<forall>w. w \<in> set (free_workers s) \<longleftrightarrow> w < length (wks s) \<and> wks s ! w = W_Select)"

lemma concat_drop_nth:
  "i < length xs \<Longrightarrow> mset (concat (map f xs)) = mset (f (xs ! i)) + mset (concat (map f (drop_nth i xs)))"
  by (subst id_take_nth_drop [of i xs]) (simp_all add: drop_nth_def)

lemma concat_update:
  "i < length xs \<Longrightarrow> mset (concat (map f (xs[i := y]))) = mset (f y) + mset (concat (map f (drop_nth i xs)))"
  by (simp add: upd_conv_take_nth_drop drop_nth_def)

lemma list_all_drop_nth: "list_all P xs \<Longrightarrow> list_all P (drop_nth i xs)"
  by (auto simp: list_all_iff drop_nth_def dest: in_set_takeD in_set_dropD)

lemma list_all_nth: "list_all P xs \<Longrightarrow> i < length xs \<Longrightarrow> P (xs ! i)"
  by (simp add: list_all_length)

lemma jobs_inv_start: "jobs_inv (wp_start m q)"
  by (simp add: jobs_inv_def wp_start_def accepted_jobs_def make_chan_def)

lemma request_codes: "request_handler r = (codes, x) \<Longrightarrow> 201 \<notin> set codes"
  by (auto simp: request_handler_def Let_def split: if_splits option.splits)

lemma jobs_inv_arrive:
  assumes "jobs_inv s"
  shows "jobs_inv (arrive r s)"
proof -
  obtain codes x where r: "request_handler r = (codes, x)" by (cases "request_handler r")
  then show ?thesis using assms request_codes [OF r]
    by (cases x) (simp_all add: jobs_inv_def arrive_def accepted_jobs_def)
qed

lemma jobs_inv_enqueue:
  assumes "jobs_inv s" "h < length (handlers s)" "enqueue h s = Does s'"
  shows "jobs_inv s'"
proof -
  obtain r codes j where h: "handlers s ! h = (r, codes, j)" by (metis prod_cases3)
  then have r: "request_handler r = (codes, Some j)"
    using list_all_nth [OF _ assms(2)] assms(1) by (fastforce simp: jobs_inv_def)
  obtain ch where ch: "chan_send j (jobq s) = Does ch" and
    s': "s' = s\<lparr>handlers := drop_nth h (handlers s), jobq := ch, replies := replies s @ [(r, codes @ [201])]\<rparr>"
    using assms(3) h by (auto simp: enqueue_def split: go_outcome.splits)
  from ch have "cbuf ch = cbuf (jobq s) @ [j]" "\<not> closed ch" by (auto simp: chan_send_def split: if_splits)
  then show ?thesis using assms(1) r
    by (simp add: jobs_inv_def accepted_jobs_def s' list_all_drop_nth)
qed

lemma jobs_inv_dispatch:
  assumes "jobs_inv s" "dispatch True s = Does s'"
  shows "jobs_inv s'"
proof -
  obtain ch j where ch: "chan_recv (jobq s) = Does (ch, Some j)" and
    s': "s' = s\<lparr>jobq := ch, loopvar := Some j, dispatchers := dispatchers s @ [D_Fetch (Some j)]\<rparr>"
    using assms(2) by (auto simp: dispatch_def split: go_outcome.splits option.splits)
  from ch have "cbuf (jobq s) = j # cbuf ch" "closed ch = closed (jobq s)"
    by (auto simp: chan_recv_def split: list.splits if_splits)
  then show ?thesis using assms(1) by (simp add: jobs_inv_def accepted_jobs_def s')
qed

lemma holder_free:
  "d < length (dispatchers s) \<Longrightarrow> dispatchers s ! d = D_Send v w \<Longrightarrow> w \<in> set (free_workers s)"
  using nth_mem [of d "dispatchers s"] by (force simp: free_workers_def)

lemma jobs_inv_hand_over:
  assumes "jobs_inv s" "workers_inv s" "d < length (dispatchers s)" "hand_over d s = Some s'"
  shows "jobs_inv s'"
proof (cases "dispatchers s ! d")
  case (D_Fetch v)
  then obtain w ws where "wpool s = w # ws"
    "s' = s\<lparr>wpool := ws, dispatchers := (dispatchers s)[d := D_Send v w]\<rparr>"
    using assms(4) by (auto simp: hand_over_def split: list.splits)
  moreover have "disp_job (D_Send v w) = disp_job (D_Fetch v)" for w by (cases v) auto
  ultimately show ?thesis
    using assms(1,3) D_Fetch concat_drop_nth [OF assms(3), of disp_job] list_all_nth [OF _ assms(3)]
    by (fastforce simp: jobs_inv_def accepted_jobs_def concat_update intro!: list_all_update)
next
  case (D_Send v w)
  have "disp_job (dispatchers s ! d) \<noteq> []"
    using assms(1) list_all_nth [where P = "\<lambda>d. disp_job d \<noteq> []", OF _ assms(3)] by (simp add: jobs_inv_def)
  then obtain j where v: "v = Some j" using D_Send by (cases v) auto
  then have w: "wks s ! w = W_Select" and
    s': "s' = s\<lparr>dispatchers := drop_nth d (dispatchers s), wks := (wks s)[w := W_Run j], started_jobs := started_jobs s @ [j]\<rparr>"
    using assms(4) D_Send by (auto simp: hand_over_def split: if_splits)
  have "w \<in> set (free_workers s)" by (rule holder_free [OF assms(3) D_Send])
  then have lt: "w < length (wks s)" using assms(2) by (simp add: workers_inv_def)
  show ?thesis
    using assms(1) concat_drop_nth [OF assms(3), of disp_job] concat_drop_nth [OF lt, of run_job] D_Send v w
    by (simp add: jobs_inv_def accepted_jobs_def s' concat_update [OF lt] list_all_drop_nth)
qed

lemma jobs_inv_worker:
  assumes "jobs_inv s" "w < length (wks s)" "worker_step w s = Some s'"
  shows "jobs_inv s'"
  using assms(1,3) concat_drop_nth [OF assms(2), of run_job]
  by (cases "wks s ! w")
    (auto simp: worker_step_def jobs_inv_def accepted_jobs_def concat_update [OF assms(2)] split: if_splits)

section \<open>Who has which worker\<close>

lemma workers_inv_start: "workers_inv (wp_start m q)"
  by (auto simp: workers_inv_def wp_start_def free_workers_def)

lemma workers_inv_same:
  assumes "workers_inv s" "mset (free_workers s') = mset (free_workers s)" "wks s' = wks s"
    "length (wpool s') \<le> length (wks s)"
  shows "workers_inv s'"
  using assms mset_eq_imp_distinct_iff [OF assms(2)] mset_eq_setD [OF assms(2)]
  by (simp add: workers_inv_def)

text \<open>A worker becomes free, or is given a job.\<close>

lemma workers_inv_more:
  assumes "workers_inv s" "mset (free_workers s') = add_mset w (mset (free_workers s))"
    "w < length (wks s)" "wks s ! w \<noteq> W_Select" "wks s' = (wks s)[w := W_Select]" "length (wpool s') \<le> length (wks s)"
  shows "workers_inv s'"
proof -
  have m: "mset (free_workers s') = mset (w # free_workers s)" using assms(2) by simp
  have "w \<notin> set (free_workers s)" using assms(1,4) by (auto simp: workers_inv_def)
  then show ?thesis
    using assms(1,3,4,6) mset_eq_imp_distinct_iff [OF m] mset_eq_setD [OF m]
    by (auto simp: workers_inv_def assms(5) nth_list_update)
qed

lemma workers_inv_less:
  assumes "workers_inv s" "mset (free_workers s) = add_mset w (mset (free_workers s'))"
    "wks s' = (wks s)[w := p]" "p \<noteq> W_Select" "length (wpool s') \<le> length (wks s)"
  shows "workers_inv s'"
proof -
  have m: "mset (free_workers s) = mset (w # free_workers s')" using assms(2) by simp
  have d: "distinct (w # free_workers s')" and st: "set (free_workers s) = set (w # free_workers s')"
    using assms(1) mset_eq_imp_distinct_iff [OF m] mset_eq_setD [OF m] by (simp_all add: workers_inv_def)
  have "v \<in> set (free_workers s') \<longleftrightarrow> v < length (wks s') \<and> wks s' ! v = W_Select" for v
  proof (cases "v = w")
    case True
    then show ?thesis using d assms(4) by (simp add: assms(3) nth_list_update)
  next
    case False
    then have "v \<in> set (free_workers s') \<longleftrightarrow> v \<in> set (free_workers s)" using st by simp
    then show ?thesis using False assms(1) by (simp add: workers_inv_def assms(3))
  qed
  then show ?thesis using d assms(5) by (simp add: workers_inv_def assms(3))
qed

lemma disp_worker_update:
  assumes "d < length (dispatchers s)"
  shows "mset (concat (map disp_worker ((dispatchers s)[d := p]))) =
    mset (disp_worker p) + mset (concat (map disp_worker (drop_nth d (dispatchers s))))"
    "mset (concat (map disp_worker (dispatchers s))) =
    mset (disp_worker (dispatchers s ! d)) + mset (concat (map disp_worker (drop_nth d (dispatchers s))))"
  using concat_update [OF assms] concat_drop_nth [OF assms] by blast+

lemma workers_inv_hand_over:
  assumes "workers_inv s" "d < length (dispatchers s)" "hand_over d s = Some s'"
  shows "workers_inv s'"
proof (cases "dispatchers s ! d")
  case (D_Fetch v)
  then obtain w ws where "wpool s = w # ws"
    "s' = s\<lparr>wpool := ws, dispatchers := (dispatchers s)[d := D_Send v w]\<rparr>"
    using assms(3) by (auto simp: hand_over_def split: list.splits)
  then show ?thesis using assms(1) D_Fetch disp_worker_update [OF assms(2)]
    by (intro workers_inv_same [OF assms(1)]) (simp_all add: free_workers_def workers_inv_def)
next
  case (D_Send v w)
  then obtain j where s': "s' = s\<lparr>dispatchers := drop_nth d (dispatchers s), wks := (wks s)[w := W_Run j],
      started_jobs := started_jobs s @ [j]\<rparr>"
    using assms(3) by (auto simp: hand_over_def split: option.splits if_splits)
  show ?thesis
    by (rule workers_inv_less [OF assms(1), of w _ "W_Run j"])
      (use assms(1) D_Send disp_worker_update(2) [OF assms(2)] in \<open>simp_all add: s' free_workers_def workers_inv_def\<close>)
qed

lemma workers_inv_worker:
  assumes "workers_inv s" "w < length (wks s)" "worker_step w s = Some s'"
  shows "workers_inv s'"
proof (cases "wks s ! w")
  case W_Offer
  then have "length (wpool s) < length (wks s)" "s' = s\<lparr>wpool := wpool s @ [w], wks := (wks s)[w := W_Select]\<rparr>"
    using assms(3) by (auto simp: worker_step_def split: if_splits)
  then show ?thesis using assms(2) W_Offer
    by (intro workers_inv_more [OF assms(1), of _ w]) (simp_all add: free_workers_def)
next
  case (W_Run j)
  then have s': "s' = s\<lparr>completed := completed s @ [j], wks := (wks s)[w := W_Offer]\<rparr>"
    using assms(3) by (simp add: worker_step_def)
  have "w \<notin> set (free_workers s)" using assms(1) W_Run by (simp add: workers_inv_def)
  then show ?thesis using assms(1,2) W_Run
    by (auto simp: workers_inv_def s' free_workers_def nth_list_update)
qed (use assms(3) in \<open>simp add: worker_step_def\<close>)

lemma workers_inv_step: "wp_step per_iter s s' \<Longrightarrow> workers_inv s \<Longrightarrow> workers_inv s'"
proof (erule wp_stepE)
  fix h assume i: "workers_inv s" and e: "enqueue h s = Does s'"
  then show "workers_inv s'"
    by (intro workers_inv_same [OF i])
      (auto simp: enqueue_def free_workers_def workers_inv_def split: prod.splits go_outcome.splits)
next
  assume i: "workers_inv s" and e: "dispatch per_iter s = Does s'"
  then show "workers_inv s'"
    by (intro workers_inv_same [OF i])
      (auto simp: dispatch_def free_workers_def workers_inv_def split: prod.splits option.splits go_outcome.splits)
qed (auto intro: workers_inv_hand_over workers_inv_worker)

lemma jobs_inv_step: "wp_step True s s' \<Longrightarrow> workers_inv s \<Longrightarrow> jobs_inv s \<Longrightarrow> jobs_inv s'"
  by (erule wp_stepE) (auto intro: jobs_inv_enqueue jobs_inv_dispatch jobs_inv_hand_over jobs_inv_worker)

lemma arrive_frame [simp]:
  "wks (arrive r s) = wks s" "wpool (arrive r s) = wpool s" "dispatchers (arrive r s) = dispatchers s"
  "jobq (arrive r s) = jobq s"
  by (simp_all add: arrive_def split: prod.split option.split)

lemma workers_inv_arrive: "workers_inv s \<Longrightarrow> workers_inv (arrive r s)"
  by (simp add: workers_inv_def free_workers_def)

lemma wp_step_frame:
  assumes "wp_step per_iter s s'"
  shows "length (wks s') = length (wks s) \<and> ccap (jobq s') = ccap (jobq s)"
  using assms
proof (cases rule: wp_step.cases)
  case (enqueue h)
  then show ?thesis by (auto simp: enqueue_def dest: chan_send_frame split: prod.splits go_outcome.splits)
next
  case dispatch
  then show ?thesis
    by (auto simp: dispatch_def dest: chan_recv_frame split: prod.splits option.splits go_outcome.splits)
next
  case (hand_over d)
  then show ?thesis
    by (auto simp: hand_over_def split: option.splits list.splits dispatch_pc.splits if_splits)
next
  case (worker w)
  then show ?thesis by (auto simp: worker_step_def split: pool_pc.splits if_splits)
qed

lemma wp_inv_reach:
  assumes "wp_reach per_iter m q s"
  shows "workers_inv s" "per_iter \<Longrightarrow> jobs_inv s" "length (wks s) = m" "ccap (jobq s) = q"
proof -
  have "workers_inv s \<and> (per_iter \<longrightarrow> jobs_inv s) \<and> length (wks s) = m \<and> ccap (jobq s) = q"
    using assms
  proof (induction rule: wp_reach.induct)
    case init
    then show ?case using workers_inv_start jobs_inv_start by (simp add: wp_start_def make_chan_def)
  next
    case (arrive s r)
    then show ?case using workers_inv_arrive jobs_inv_arrive by simp
  next
    case (step s s')
    then show ?case using workers_inv_step jobs_inv_step wp_step_frame [OF step.hyps(2)]
      by (cases per_iter) auto
  qed
  then show "workers_inv s" "per_iter \<Longrightarrow> jobs_inv s" "length (wks s) = m" "ccap (jobq s) = q" by simp_all
qed

section \<open>Everything accepted is worked off\<close>

fun disp_left :: "dispatch_pc \<Rightarrow> nat" where
  "disp_left (D_Fetch v) = 6" | "disp_left (D_Send v w) = 5"

fun worker_left :: "pool_pc \<Rightarrow> nat" where
  "worker_left (W_Run j) = 2" | "worker_left W_Offer = 1" | "worker_left W_Select = 0"

definition wp_work :: "wp_sys \<Rightarrow> nat" where
  "wp_work s = 10 * length (handlers s) + 8 * length (cbuf (jobq s)) +
     sum_list (map disp_left (dispatchers s)) + sum_list (map worker_left (wks s))"

lemma sum_list_drop_nth:
  "i < length xs \<Longrightarrow> sum_list (map f xs) = f (xs ! i) + sum_list (map f (drop_nth i xs))" for f :: "'a \<Rightarrow> nat"
  by (subst id_take_nth_drop [of i xs]) (simp_all add: drop_nth_def)

lemma sum_list_update_nth:
  "i < length xs \<Longrightarrow> sum_list (map f (xs[i := y])) = f y + sum_list (map f (drop_nth i xs))" for f :: "'a \<Rightarrow> nat"
  by (simp add: upd_conv_take_nth_drop drop_nth_def)

lemma length_drop_nth: "i < length xs \<Longrightarrow> length xs = Suc (length (drop_nth i xs))"
  by (simp add: drop_nth_def)

lemma hand_over_work:
  assumes "workers_inv s" "d < length (dispatchers s)" "hand_over d s = Some s'"
  shows "wp_work s' < wp_work s"
proof (cases "dispatchers s ! d")
  case (D_Fetch v)
  then show ?thesis
    using assms(3) sum_list_drop_nth [OF assms(2), of disp_left] sum_list_update_nth [OF assms(2), of disp_left]
    by (auto simp: hand_over_def wp_work_def split: list.splits)
next
  case (D_Send v w)
  have "w \<in> set (free_workers s)" by (rule holder_free [OF assms(2) D_Send])
  then have lt: "w < length (wks s)" using assms(1) by (simp add: workers_inv_def)
  show ?thesis
    using assms(3) D_Send sum_list_drop_nth [OF assms(2), of disp_left]
      sum_list_drop_nth [OF lt, of worker_left] sum_list_update_nth [OF lt, of worker_left]
    by (auto simp: hand_over_def wp_work_def split: option.splits if_splits)
qed

lemma worker_step_work:
  assumes "w < length (wks s)" "worker_step w s = Some s'"
  shows "wp_work s' < wp_work s"
  using assms(2) sum_list_drop_nth [OF assms(1), of worker_left] sum_list_update_nth [OF assms(1), of worker_left]
  by (auto simp: worker_step_def wp_work_def split: pool_pc.splits if_splits)

lemma wp_step_work:
  assumes "workers_inv s" "wp_step per_iter s s'"
  shows "wp_work s' < wp_work s"
  using assms(2)
proof (cases rule: wp_step.cases)
  case (enqueue h)
  then show ?thesis using length_drop_nth [OF enqueue(1)]
    by (auto simp: enqueue_def wp_work_def dest: chan_send_frame split: prod.splits go_outcome.splits)
next
  case dispatch
  then show ?thesis
    by (auto simp: dispatch_def wp_work_def dest: chan_recv_frame split: prod.splits option.splits go_outcome.splits)
next
  case (hand_over d)
  then show ?thesis using hand_over_work [OF assms(1)] by blast
next
  case (worker w)
  then show ?thesis using worker_step_work by blast
qed

definition pool_idle :: "wp_sys \<Rightarrow> bool" where
  "pool_idle s \<longleftrightarrow> handlers s = [] \<and> cbuf (jobq s) = [] \<and> dispatchers s = [] \<and> (\<forall>w < length (wks s). wks s ! w = W_Select)"

text \<open>The goroutine that holds a worker can hand it its job.\<close>

lemma send_ready:
  assumes "workers_inv s" "jobs_inv s" "d < length (dispatchers s)" "dispatchers s ! d = D_Send v w"
  shows "\<exists>s'. hand_over d s = Some s'"
proof -
  have "disp_job (dispatchers s ! d) \<noteq> []"
    using assms(2) list_all_nth [where P = "\<lambda>d. disp_job d \<noteq> []", OF _ assms(3)] by (simp add: jobs_inv_def)
  then obtain j where v: "v = Some j" using assms(4) by (cases v) auto
  have "w \<in> set (free_workers s)" by (rule holder_free [OF assms(3,4)])
  then have "wks s ! w = W_Select" using assms(1) by (simp add: workers_inv_def)
  then show ?thesis using assms(4) v by (simp add: hand_over_def)
qed

lemma wp_progress:
  assumes "workers_inv s" "jobs_inv s" "wks s \<noteq> []" "0 < ccap (jobq s)" "\<not> pool_idle s"
  shows "\<exists>s'. wp_step True s s'"
proof -
  have nc: "\<not> closed (jobq s)" using assms(2) by (simp add: jobs_inv_def)
  consider "cbuf (jobq s) \<noteq> []" | "cbuf (jobq s) = []" "handlers s \<noteq> []"
    | w where "w < length (wks s)" "wks s ! w \<noteq> W_Select"
    | "dispatchers s \<noteq> []" "\<forall>w < length (wks s). wks s ! w = W_Select"
    using assms(5) by (auto simp: pool_idle_def)
  then show ?thesis
  proof cases
    case 1
    then have "\<exists>s'. dispatch True s = Does s'" by (auto simp: dispatch_def chan_recv_def split: list.split)
    then show ?thesis by (blast intro: wp_step.dispatch)
  next
    case 2
    obtain r codes j where "handlers s ! 0 = (r, codes, j)" by (metis prod_cases3)
    then have "\<exists>s'. enqueue 0 s = Does s'"
      using 2 nc assms(4) by (auto simp: enqueue_def chan_send_def)
    then show ?thesis using 2 by (blast intro: wp_step.enqueue)
  next
    case 3
    have "length (wpool s) < length (wks s)"
    proof (rule ccontr)
      assume "\<not> length (wpool s) < length (wks s)"
      then have l: "length (wpool s) = length (wks s)" using assms(1) by (simp add: workers_inv_def)
      have "distinct (wpool s)" "set (wpool s) \<subseteq> {..<length (wks s)} - {w}"
        using assms(1) 3 by (auto simp: workers_inv_def free_workers_def)
      then have "length (wpool s) \<le> card ({..<length (wks s)} - {w})"
        by (metis card_mono distinct_card finite_Diff finite_lessThan)
      then show False using l 3(1) by simp
    qed
    then have "\<exists>s'. worker_step w s = Some s'"
      using 3(2) by (cases "wks s ! w") (auto simp: worker_step_def)
    then show ?thesis using 3(1) by (blast intro: wp_step.worker)
  next
    case 4
    then have d: "0 < length (dispatchers s)" by simp
    have "\<exists>d s'. d < length (dispatchers s) \<and> hand_over d s = Some s'"
    proof (cases "wpool s")
      case (Cons w ws)
      then show ?thesis using d send_ready [OF assms(1,2) d]
        by (cases "dispatchers s ! 0") (auto simp: hand_over_def)
    next
      case Nil
      have "0 \<in> set (free_workers s)" using assms(1,3) 4(2) by (simp add: workers_inv_def)
      then obtain p where p: "p \<in> set (dispatchers s)" "0 \<in> set (disp_worker p)"
        using Nil by (auto simp: free_workers_def)
      from p(2) obtain v where "p = D_Send v 0" by (cases p) simp_all
      with p(1) have "D_Send v 0 \<in> set (dispatchers s)" by simp
      then obtain d where "d < length (dispatchers s)" "dispatchers s ! d = D_Send v 0"
        by (metis in_set_conv_nth)
      then show ?thesis using send_ready [OF assms(1,2)] by blast
    qed
    then show ?thesis by (blast intro: wp_step.hand_over)
  qed
qed

interpretation wp: terminating_system "wp_step True"
  "\<lambda>s. workers_inv s \<and> jobs_inv s \<and> wks s \<noteq> [] \<and> 0 < ccap (jobq s)" wp_work pool_idle
proof
  fix s s' assume i: "workers_inv s \<and> jobs_inv s \<and> wks s \<noteq> [] \<and> 0 < ccap (jobq s)" and st: "wp_step True s s'"
  have "wks s' \<noteq> []" using wp_step_frame [OF st] i by auto
  then show "workers_inv s' \<and> jobs_inv s' \<and> wks s' \<noteq> [] \<and> 0 < ccap (jobq s')"
    using workers_inv_step [OF st] jobs_inv_step [OF st] wp_step_frame [OF st] i by simp
  show "wp_work s' < wp_work s" using wp_step_work [OF _ st] i by blast
next
  fix s assume "workers_inv s \<and> jobs_inv s \<and> wks s \<noteq> [] \<and> 0 < ccap (jobq s)" "\<not> pool_idle s"
  then show "\<exists>s'. wp_step True s s'" by (intro wp_progress) simp_all
qed

section \<open>Properties\<close>

text \<open>Which requests become jobs, and what is written before.\<close>

lemma request_handler_iff:
  "request_handler r = (codes, Some j) \<longleftrightarrow>
     req_method r = ''POST'' \<and> (\<exists>delay. req_delay r = Some delay \<and> second \<le> delay \<and> delay \<le> 10 * second \<and>
       j = \<lparr>jname = req_name r, used = delay\<rparr>) \<and> codes = (if req_name r = '''' then [400] else [])"
  by (auto simp: request_handler_def Let_def split: option.split)

text \<open>C10: with one loop variable per iteration the pool runs every accepted job exactly once: at any time
  the jobs started are among those accepted and at most \<open>maxWorkers\<close> are running; without new requests
  no run goes on for ever, and every state leads on to one in which nothing is left to do and the
  completed jobs are exactly the accepted ones, each as often as it was accepted.\<close>

theorem pool_runs_jobs_once:
  assumes "wp_reach True maxWorkers maxQueueSize s" and "0 < maxWorkers" and "0 < maxQueueSize"
  shows "mset (started_jobs s) \<subseteq># mset (accepted_jobs s) \<and>
    length (filter (\<lambda>w. run_job w \<noteq> []) (wks s)) \<le> maxWorkers \<and>
    (\<nexists>f. f 0 = s \<and> (\<forall>k. wp_step True (f k) (f (Suc k)))) \<and>
    (\<exists>s'. (wp_step True)\<^sup>*\<^sup>* s s' \<and> pool_idle s' \<and> mset (completed s') = mset (accepted_jobs s'))"
proof -
  note i = wp_inv_reach [OF assms(1)]
  have j: "jobs_inv s" using i(2) by simp
  have inv: "workers_inv s \<and> jobs_inv s \<and> wks s \<noteq> [] \<and> 0 < ccap (jobq s)"
    using i(1,3,4) j assms(2,3) by auto
  have "mset (started_jobs s) \<subseteq># mset (accepted_jobs s)" using j by (simp add: jobs_inv_def subset_mset.add_increasing)
  moreover have "length (filter (\<lambda>w. run_job w \<noteq> []) (wks s)) \<le> maxWorkers" using i(3) by (metis length_filter_le)
  moreover obtain s' where s': "(wp_step True)\<^sup>*\<^sup>* s s'" "pool_idle s'" "jobs_inv s'" using wp.inevitable [OF inv] by blast
  moreover have "mset (completed s') = mset (accepted_jobs s')"
  proof -
    have "concat (map run_job (wks s')) = []" using s'(2) by (auto simp: pool_idle_def in_set_conv_nth)
    then show ?thesis using s'(2,3) by (simp add: jobs_inv_def pool_idle_def)
  qed
  ultimately show ?thesis using wp.no_infinite_run inv by blast
qed

definition two_requests :: "request \<times> request" where
  "two_requests = (\<lparr>req_method = ''POST'', req_delay = Some second, req_name = ''a''\<rparr>,
     \<lparr>req_method = ''POST'', req_delay = Some (2 * second), req_name = ''b''\<rparr>)"

definition job_a :: job where "job_a = \<lparr>jname = ''a'', used = second\<rparr>"
definition job_b :: job where "job_b = \<lparr>jname = ''b'', used = 2 * second\<rparr>"

lemma two_requests_jobs:
  "request_handler (fst two_requests) = ([], Some job_a)" "request_handler (snd two_requests) = ([], Some job_b)"
  by (simp_all add: request_handler_iff two_requests_def job_a_def job_b_def second_def)

text \<open>Both requests have been answered, the first job is at a dispatcher's goroutine.\<close>

definition two_accepted :: "dispatch_pc list \<Rightarrow> job list \<Rightarrow> job option \<Rightarrow> wp_sys" where
  "two_accepted ds q v = \<lparr>handlers = [], replies = [(fst two_requests, [201]), (snd two_requests, [201])],
     jobq = \<lparr>cbuf = q, ccap = 2, closed = False\<rparr>, loopvar = v, dispatchers = ds, wpool = [0], wks = [W_Select],
     started_jobs = [], completed = []\<rparr>"

lemma two_accepted_reach: "wp_reach per_iter 1 2 (two_accepted [] [job_a, job_b] None)"
proof -
  let ?s0 = "wp_start 1 2" and ?ra = "fst two_requests" and ?rb = "snd two_requests"
  let ?s1 = "?s0\<lparr>wpool := [0], wks := [W_Select]\<rparr>"
  let ?s2 = "?s1\<lparr>handlers := [(?ra, [], job_a)]\<rparr>"
  let ?s3 = "?s1\<lparr>jobq := \<lparr>cbuf = [job_a], ccap = 2, closed = False\<rparr>, replies := [(?ra, [201])]\<rparr>"
  let ?s4 = "?s3\<lparr>handlers := [(?rb, [], job_b)]\<rparr>"
  have "wp_step per_iter ?s0 ?s1"
    by (rule wp_step.worker [of 0]) (simp_all add: wp_start_def worker_step_def)
  then have "wp_reach per_iter 1 2 ?s1" by (rule wp_reach.step [OF wp_reach.init])
  then have "wp_reach per_iter 1 2 (arrive ?ra ?s1)" by (rule wp_reach.arrive)
  moreover have "arrive ?ra ?s1 = ?s2" by (simp add: arrive_def two_requests_jobs wp_start_def)
  moreover have "wp_step per_iter ?s2 ?s3"
    by (rule wp_step.enqueue [of 0]) (simp_all add: enqueue_def chan_send_def wp_start_def make_chan_def drop_nth_def)
  ultimately have "wp_reach per_iter 1 2 ?s3" by (auto intro: wp_reach.step)
  then have "wp_reach per_iter 1 2 (arrive ?rb ?s3)" by (rule wp_reach.arrive)
  moreover have "arrive ?rb ?s3 = ?s4" by (simp add: arrive_def two_requests_jobs wp_start_def)
  moreover have "wp_step per_iter ?s4 (two_accepted [] [job_a, job_b] None)"
    by (rule wp_step.enqueue [of 0])
      (simp_all add: enqueue_def chan_send_def wp_start_def make_chan_def drop_nth_def two_accepted_def)
  ultimately show ?thesis by (auto intro: wp_reach.step)
qed

theorem pool_runs_jobs_once_witness:
  "\<exists>s'. (wp_step True)\<^sup>*\<^sup>* (two_accepted [] [job_a, job_b] None) s' \<and> pool_idle s' \<and>
     mset (completed s') = mset (accepted_jobs s')"
  using pool_runs_jobs_once [OF two_accepted_reach] by (simp add: two_accepted_def)

text \<open>With one loop variable for all iterations, as before Go 1.22, an accepted job can be lost: there is
  a run in which two different requests are answered with 201, nothing is left to do, and the second
  job has been run twice and the first never.\<close>

theorem shared_loop_variable_loses_job:
  "\<exists>s. wp_reach False 1 2 s \<and> pool_idle s \<and> accepted_jobs s = [job_a, job_b] \<and> completed s = [job_b, job_b] \<and>
     job_a \<noteq> job_b"
proof -
  let ?R = "wp_reach False 1 2" and ?st = "wp_step False"
  let ?t = "\<lambda>ds p ws q. two_accepted ds [] (Some job_b)\<lparr>wpool := p, wks := [ws], started_jobs := q\<rparr>"
  have "?st (two_accepted [] [job_a, job_b] None) (two_accepted [D_Fetch None] [job_b] (Some job_a))"
    by (rule wp_step.dispatch) (simp add: dispatch_def chan_recv_def two_accepted_def)
  then have "?R (two_accepted [D_Fetch None] [job_b] (Some job_a))" by (rule wp_reach.step [OF two_accepted_reach])
  moreover have "?st (two_accepted [D_Fetch None] [job_b] (Some job_a)) (?t [D_Fetch None, D_Fetch None] [0] W_Select [])"
    by (rule wp_step.dispatch) (simp add: dispatch_def chan_recv_def two_accepted_def)
  ultimately have "?R (?t [D_Fetch None, D_Fetch None] [0] W_Select [])" by (rule wp_reach.step)
  moreover have "?st (?t [D_Fetch None, D_Fetch None] [0] W_Select []) (?t [D_Send None 0, D_Fetch None] [] W_Select [])"
    by (rule wp_step.hand_over [of 0]) (simp_all add: hand_over_def two_accepted_def)
  ultimately have "?R (?t [D_Send None 0, D_Fetch None] [] W_Select [])" by (rule wp_reach.step)
  moreover have "?st (?t [D_Send None 0, D_Fetch None] [] W_Select []) (?t [D_Fetch None] [] (W_Run job_b) [job_b])"
    by (rule wp_step.hand_over [of 0]) (simp_all add: hand_over_def two_accepted_def drop_nth_def)
  ultimately have "?R (?t [D_Fetch None] [] (W_Run job_b) [job_b])" by (rule wp_reach.step)
  moreover let ?u = "\<lambda>ds p ws q c. ?t ds p ws q\<lparr>completed := c\<rparr>"
  have "?st (?t [D_Fetch None] [] (W_Run job_b) [job_b]) (?u [D_Fetch None] [] W_Offer [job_b] [job_b])"
    by (rule wp_step.worker [of 0]) (simp_all add: worker_step_def two_accepted_def)
  ultimately have "?R (?u [D_Fetch None] [] W_Offer [job_b] [job_b])" by (rule wp_reach.step)
  moreover have "?st (?u [D_Fetch None] [] W_Offer [job_b] [job_b]) (?u [D_Fetch None] [0] W_Select [job_b] [job_b])"
    by (rule wp_step.worker [of 0]) (simp_all add: worker_step_def two_accepted_def)
  ultimately have "?R (?u [D_Fetch None] [0] W_Select [job_b] [job_b])" by (rule wp_reach.step)
  moreover have "?st (?u [D_Fetch None] [0] W_Select [job_b] [job_b]) (?u [D_Send None 0] [] W_Select [job_b] [job_b])"
    by (rule wp_step.hand_over [of 0]) (simp_all add: hand_over_def two_accepted_def)
  ultimately have "?R (?u [D_Send None 0] [] W_Select [job_b] [job_b])" by (rule wp_reach.step)
  moreover have "?st (?u [D_Send None 0] [] W_Select [job_b] [job_b]) (?u [] [] (W_Run job_b) [job_b, job_b] [job_b])"
    by (rule wp_step.hand_over [of 0]) (simp_all add: hand_over_def two_accepted_def drop_nth_def)
  ultimately have "?R (?u [] [] (W_Run job_b) [job_b, job_b] [job_b])" by (rule wp_reach.step)
  moreover have "?st (?u [] [] (W_Run job_b) [job_b, job_b] [job_b]) (?u [] [] W_Offer [job_b, job_b] [job_b, job_b])"
    by (rule wp_step.worker [of 0]) (simp_all add: worker_step_def two_accepted_def)
  ultimately have "?R (?u [] [] W_Offer [job_b, job_b] [job_b, job_b])" by (rule wp_reach.step)
  moreover have "?st (?u [] [] W_Offer [job_b, job_b] [job_b, job_b]) (?u [] [0] W_Select [job_b, job_b] [job_b, job_b])"
    by (rule wp_step.worker [of 0]) (simp_all add: worker_step_def two_accepted_def)
  ultimately have r: "?R (?u [] [0] W_Select [job_b, job_b] [job_b, job_b])" by (rule wp_reach.step)
  have "accepted_jobs (?u [] [0] W_Select [job_b, job_b] [job_b, job_b]) = [job_a, job_b]"
    by (simp add: accepted_jobs_def two_accepted_def two_requests_jobs)
  with r show ?thesis
    by (intro exI [of _ "?u [] [0] W_Select [job_b, job_b] [job_b, job_b]"])
      (simp add: pool_idle_def two_accepted_def job_a_def job_b_def)
qed

end
