(* ===== verification/Spec2Isabelle.thy ===== *)
theory Spec2Isabelle
  imports TinySessions PsumRanges EchoStdio EchoPoolRun EchoFork EchoThreadsLive EchoPrethreadLive EpollRun
    ChatUI FooOrder ProduceConsume GracefulExit Timeouts CondQueue CondCount WorkerPool
begin

text \<open>
  A model of the programs of the repository. In C (\<open>src/csapp\<close> and \<open>src/socket_program\<close>): a small web
  server, six echo servers that differ in how they serve several clients, three parallel sums, and
  an epoll server with its client. In Go (\<open>src/chatserver\<close>, \<open>src/handleMillionRequest\<close>,
  \<open>src/produce_consume\<close>, \<open>src/leetcode_concurrency\<close>): a chat server with its protocol, its client and the
  terminal program around it, a worker pool behind an HTTP handler, and exercises in ordering goroutines and in producing and
  consuming. Each theory opens with what it holds; this header says how the parts fit together.

  \<^bold>\<open>The C programs.\<close> All of them except the epoll pair are written on \<open>csapp.h\<close>, which declares
  error-checking wrappers around the system calls, the buffered Rio reader and semaphores, and of
  which the repository holds no implementation. \<open>tinyweb.c\<close> accepts connections one at a time,
  reads an HTTP request and answers with a file, the output of a CGI program or an error page.
  The echo servers send every line back: one client at a time (\<open>echo1.c\<close>, \<open>echo3.c\<close>), a child
  process per client (\<open>echo2.c\<close>), all clients in one process behind \<open>select\<close> (\<open>echo4.c\<close>), a
  thread per client (\<open>echo5.c\<close>), a fixed set of threads behind a bounded buffer
  (\<open>echo6_echoserverpre.c\<close> with \<open>echo6_echocnt.c\<close> and \<open>sbuf.h\<close>). The sums (\<open>psum-array.c\<close>,
  \<open>psum-local.c\<close>, \<open>psum-mutex.c\<close>) split the numbers below a power of two among threads.

  \<^bold>\<open>How C is modelled.\<close> \<open>Prelude\<close>: a fragment of C is a value of the type \<open>exec\<close>: the calls it
  made, in order, and how it ended: it returned, the process exited (by \<open>exit\<close> or in an error
  wrapper), or its behaviour is undefined in C (a write past an array, a read of something never
  written). \<open>bindE\<close> is the semicolon. A loop that may not end is a \<open>partial_function (option)\<close>, whose
  value \<open>None\<close> is the run that never returns. \<open>CString\<close>: \<open>strstr\<close>, \<open>index\<close>, \<open>strcasecmp\<close>,
  \<open>sscanf\<close>, \<open>strcpy\<close>, \<open>strcat\<close>, \<open>sprintf\<close> with the capacity of the target, decimal printing and
  \<open>atoi\<close>, which is undefined for a number that is no \<open>int\<close>. Concurrent programs are step relations: one step is
  one call or one access to shared memory, and the steps of all threads or processes interleave freely;
  \<open>x += y\<close> on a shared variable is a read and a write. \<open>byte_cnt\<close>, a signed \<open>int\<close> whose overflow C leaves
  undefined, is a 32-bit word that wraps around, as compilers have it. A \<open>long\<close> of the sums is an integer, and
  \<open>psum_no_overflow\<close> shows that no value leaves its 64-bit range, up to the number of elements that two of
  them enforce; the product that overflows beyond it makes the outcome of the third undefined.

  \<^bold>\<open>How Go is modelled.\<close> A program is a step relation again, over a record of what its goroutines share
  and the point each of them has reached; sleeping is no step, so that every timing is among the
  interleavings, except in \<open>Timeouts\<close>, which has a clock. \<open>GoChan\<close>: a channel with its capacity; an operation on it does something, blocks or
  panics, and a panic ends the program. Sender and receiver of an unbuffered channel meet in one
  step. A slice (\<open>ChatClients\<close>) is an array, by its address, and a length, since the chat server
  ranges over a slice while another goroutine moves the elements of its array. A critical section
  under a lock is one step; \<open>Wait\<close> on a condition variable ends it and joins the queue from which
  \<open>Signal\<close> wakes the first, where the documentation promises only that it wakes some goroutine. The send to
  \<open>jobQueue\<close> and the reply 201 after it are one step. Whether each iteration of a \<open>for\<close> has its own loop variable, as since Go
  1.22, is an argument of the worker pool.

  \<^bold>\<open>Ends of runs.\<close> \<open>Systems\<close>: the locales \<open>shrinking_system\<close> and \<open>terminating_system\<close> give, from an
  invariant, a measure that every step lowers and progress, that no run is infinite and that each
  can be continued to the end. The C programs with threads, \<open>echo3.c\<close> (whose measure is the \<open>size\<close> of its
  state), the epoll server with its clients and the Go programs that end interpret them.

  \<^bold>\<open>What is a parameter.\<close> Code that is not in the repository is an argument of the definitions, with a
  locale that states its documented behaviour: \<open>rio_reader\<close> and \<open>semaphore\<close> (\<open>Csapp\<close>),
  \<open>bounded_queue\<close> (\<open>Sbuf\<close>). Each is interpreted: on a reader over the header's \<open>rio_t\<close>, on the POSIX
  counter, on a ring over the header's \<open>sbuf_t\<close>; the witnesses run on these. What the operating
  system answers to the web server is the record \<open>os\<close>; what \<open>select\<close>, \<open>accept\<close>, \<open>epoll_wait\<close> and
  \<open>read\<close> answer to the others are arguments or choices of the step relation. \<open>echo\<close>, which \<open>echo1.c\<close>
  to \<open>echo5.c\<close> call, is not in the repository either: it returns or ends the process.

  \<^bold>\<open>The web server.\<close> \<open>TinyUri\<close>: \<open>parse_uri\<close> and \<open>get_filetype\<close> with the exact conditions under which
  they overrun their arrays, and the intended decoding they refine. \<open>TinyResponse\<close>: \<open>clienterror\<close>,
  \<open>serve_static\<close>, \<open>serve_dynamic\<close>, with the bytes each puts on the connection and the errors.
  \<open>TinyServer\<close>: \<open>read_requesthdrs\<close> and when it returns, \<open>doit\<close> and the decision table it refines,
  the accept loop, with the failures of \<open>Accept\<close> and \<open>Getnameinfo\<close>, and its balance of descriptors, mappings
  and children. \<open>TinySessions\<close>: a run over any number of clients, whose descriptors may be the same number
  again, each of whom gets its own response in its turn.

  \<^bold>\<open>The sums.\<close> \<open>Pthreads\<close>: programs that create threads and join them, as a record of operations; the
  locales \<open>pt_inv\<close>, \<open>pt_term\<close> and \<open>pt_live\<close> give, from local obligations on one thread step, an
  invariant of all reachable states, the absence of infinite runs and of deadlocks. \<open>PsumArray\<close>,
  \<open>PsumLocal\<close> and \<open>PsumMutex\<close> interpret them. \<open>PsumCommon\<close> holds the arguments and the final
  check. \<open>PsumAgree\<close>: each program as a relation between its command line and its outcomes; the sequential
  function that two of them equal, that of the third, and where the two functions agree. \<open>PsumRanges\<close>:
  every value of the threads and of \<open>main\<close> fits a \<open>long\<close>, and the number of elements beyond which
  \<open>psum-mutex.c\<close> overflows.

  \<^bold>\<open>The echo servers.\<close> \<open>EchoIterative\<close>: \<open>echo1.c\<close>, \<open>echo3.c\<close>, with their exact runs. \<open>EchoStdio\<close>: \<open>echo3.c\<close> as
  a machine to which bytes and clients arrive, with the buffer of \<open>stdin\<close> between \<open>Select\<close> and \<open>Fgets\<close>; it
  refines the loop of \<open>EchoIterative\<close> and comes to rest. \<open>EchoFork\<close>: processes with their
  descriptor tables, SIGCHLD as a flag and the handler; isolation of the connections, zombies,
  progress. \<open>EchoPool\<close>: the pool of \<open>echo4.c\<close>, its invariant, what a scan sends, and what goes wrong
  with idle clients, with holes in the pool and with the copied reader. \<open>EchoPoolRun\<close>: the whole
  program over any number of turns, compared with its trace. \<open>EchoThreads\<close>: the heap cells
  that carry the descriptors of \<open>echo5.c\<close>. \<open>EchoThreadsLive\<close>: it comes to rest with all of them given
  back. \<open>EchoPrethread\<close>: the locale \<open>prethread\<close> puts the three
  contracts together and proves three invariants of all interleavings: where a descriptor is,
  what has been echoed, what has been counted. \<open>EchoPrethreadLive\<close>: a measure on the bytes and
  descriptors still on their way, and why some thread can always move.

  \<^bold>\<open>The sockets.\<close> \<open>EpollServer\<close>: the event loop of \<open>server.c\<close> with its one shared array, and the client.
  \<open>EpollRun\<close>: the server and any number of clients with the kernel between them; all are served.

  \<^bold>\<open>The chat.\<close> \<open>ChatProtocol\<close> (\<open>protocol/command.go\<close>, \<open>reader.go\<close>, \<open>writer.go\<close>): writing and reading commands,
  the language \<open>ReadAll\<close> accepts, the commands that survive the wire. \<open>ChatClients\<close> and \<open>ChatServer\<close>
  (\<open>server/tcp_server.go\<close>): the list of clients and the goroutines of the server. \<open>ChatDelivery\<close>: what
  the list shows, what is broadcast, who receives it; a broadcast can miss a client while others are removed,
  so what says that everybody gets everything (\<open>ChatRoom\<close>, \<open>ChatUI\<close>) is about runs in which nobody joins or
  is removed. \<open>ChatClient\<close> (\<open>client/tcp_client.go\<close>): the client,
  and a conversation from the bytes one client sends to the commands another takes in. \<open>ChatRoom\<close>: the
  server comes to rest, and then everybody has every message once, though not in order. \<open>ChatUI\<close>
  (\<open>tui/tui.go\<close>, \<open>loginview.go\<close>, \<open>chatview.go\<close>): the terminal program as what the user does and what
  the goroutines do, the session it implements, and the whole application from one user's keyboard to
  the other users' screens. Connections are bytes that arrive and the error that comes after them.

  \<^bold>\<open>The worker pool and the exercises.\<close> \<open>WorkerPool\<close> (\<open>handleMillionRequest/main.go\<close>): the handler, the
  dispatcher and the workers. \<open>FooOrder\<close> (\<open>1114.go\<close>), \<open>ProduceConsume\<close> (\<open>model1/main1.go\<close>), \<open>CondQueue\<close>
  (\<open>model1/main2.go\<close>), \<open>CondCount\<close> (\<open>model1/main3.go\<close>), \<open>GracefulExit\<close> (\<open>timeout/main3.go\<close>), \<open>Timeouts\<close>
  (\<open>timeout/main1.go\<close>, \<open>main2.go\<close>): for each an invariant of all interleavings and the end of its runs.

  \<^bold>\<open>Reading the sources.\<close> Some files do not compile as they are; they are read as intended where the
  intention is plain (\<open>atio\<close> as \<open>atoi\<close>, \<open>DF_CLR\<close> as \<open>FD_CLR\<close>, \<open>check_clients\<close> as \<open>check_client\<close>, missing
  semicolons, \<open>sprintf (buf, "%s...", buf)\<close>, whose overlapping arguments C leaves undefined, as an append).
  Everything else is modelled as written,
  the faults included.

  \<^bold>\<open>Not modelled.\<close> Socket addresses and the conversion of host names, failures of the calls that open the
  listening socket, the contents of the messages of the error wrappers, in the servers with processes and
  threads the exits of the wrappers \<open>Fork\<close>, \<open>Accept\<close>, \<open>Malloc\<close>, \<open>Pthread_create\<close> and \<open>Dup2\<close> when the call
  fails, edge triggering in epoll (the
  server closes a connection after its first event),
  pointers into strings other than the two that \<open>parse_uri\<close> keeps. In Go: the layout of the views and
  what the terminal library draws; \<open>main\<close> of the chat server and of the terminal program, \<open>Listen\<close>,
  \<open>Dial\<close> and \<open>Close\<close>, which are calls into \<open>net\<close> and \<open>flag\<close>; errors of a connection that is written to; what the
  library \<open>tui-go\<close> does with a key beyond calling the handlers, as \<open>ChatUI\<close> says; logging; the channel \<open>quit\<close> of a worker, on
  which nothing is ever sent.
\<close>

end
